(* ===== verification/Prelude.thy ===== *)
theory Prelude
  imports Main "HOL-Library.Word" "HOL-Library.Monad_Syntax"
begin

text \<open>
  Shared ground of the development: the fixed-width integer names of the C++ sources, the
  theorem collections the component theories add to, and the generic facts on lists,
  options and sums that more than one component uses.
\<close>

type_synonym u8 = "8 word"
type_synonym u32 = "32 word"
type_synonym u64 = "64 word"
type_synonym i64 = "64 word"  \<comment> \<open>read through \<open>sint\<close>\<close>

named_theorems heap_simps \<open>loads and stores of pool slots\<close>
named_theorems book_simps \<open>projections of the order book operations\<close>
named_theorems engine_simps \<open>projections of the engine operations\<close>


section \<open>First and last elements with a default\<close>

text \<open>
  \<open>hd_opt nx ps\<close> is the pointer to the first node of \<open>ps\<close>, or \<open>nx\<close> when there is none;
  \<open>last_opt pv ps\<close> is the pointer to the last node, or \<open>pv\<close>. They are the two ends of a
  doubly linked segment.
\<close>

fun hd_opt :: "'a option \<Rightarrow> 'a list \<Rightarrow> 'a option" where
  "hd_opt nx [] = nx"
| "hd_opt nx (x # xs) = Some x"

fun last_opt :: "'a option \<Rightarrow> 'a list \<Rightarrow> 'a option" where
  "last_opt pv [] = pv"
| "last_opt pv (x # xs) = last_opt (Some x) xs"

lemma hd_opt_append [simp]: "hd_opt nx (xs @ ys) = hd_opt (hd_opt nx ys) xs"
  by (cases xs) auto

lemma last_opt_append [simp]: "last_opt pv (xs @ ys) = last_opt (last_opt pv xs) ys"
  by (induction xs arbitrary: pv) auto

lemma hd_opt_None_iff [simp]: "hd_opt None xs = None \<longleftrightarrow> xs = []"
  by (cases xs) auto

lemma last_opt_Some_neq [simp]: "last_opt (Some x) xs \<noteq> None"
  by (induction xs arbitrary: x) auto

lemma last_opt_None_iff [simp]: "last_opt None xs = None \<longleftrightarrow> xs = []"
  by (cases xs) auto

lemma last_opt_eq_last: "xs \<noteq> [] \<Longrightarrow> last_opt pv xs = Some (last xs)"
  by (induction xs arbitrary: pv) auto


section \<open>Lists\<close>

lemma concat_map_cong:
  "(\<And>x. x \<in> set xs \<Longrightarrow> f x = g x) \<Longrightarrow> concat (map f xs) = concat (map g xs)"
  by (induction xs) auto

lemma in_set_split:
  assumes "x \<in> set xs"
  obtains as bs where "xs = as @ x # bs"
  using assms by (meson split_list)

lemma distinct_split_unique:
  assumes "distinct (as @ x # bs)" and "as @ x # bs = cs @ x # ds"
  shows "as = cs \<and> bs = ds"
  using assms by (metis append_Cons_eq_iff distinct.simps(2) distinct_append not_distinct_conv_prefix)

lemma card_le_of_distinct:
  assumes "distinct xs" and "set xs \<subseteq> {..<n}"
  shows "length xs \<le> n"
  using assms card_mono [of "{..<n}" "set xs"] by (simp add: distinct_card)

lemma sum_list_map_append_remove:
  fixes f :: "'a \<Rightarrow> 'b :: comm_monoid_add"
  shows "sum_list (map f (as @ x # bs)) = f x + sum_list (map f (as @ bs))"
  by (simp add: algebra_simps)

lemma filter_neq_id [simp]: "p \<notin> set xs \<Longrightarrow> filter (\<lambda>q. q \<noteq> p) xs = xs"
  by (induction xs) auto

lemma filter_eq_Nil_iff: "filter P xs = [] \<longleftrightarrow> (\<forall>x \<in> set xs. \<not> P x)"
  by (induction xs) auto


section \<open>Options\<close>

lemma bind_SomeE:
  assumes "Option.bind m f = Some y"
  obtains x where "m = Some x" and "f x = Some y"
  using assms by (cases m) auto


section \<open>Words\<close>

lemma unat_Suc_word: "unat (w + 1) = Suc (unat w)" if "w \<noteq> - 1" for w :: u64
proof -
  have "1 + w \<noteq> 0" using that by (metis add.commute eq_neg_iff_add_eq_0)
  then show ?thesis using unatSuc [of w] by (simp add: add.commute)
qed

lemma less_Suc_word: "v < w + 1 \<longleftrightarrow> v \<le> w" if "w \<noteq> - 1" for v w :: u64
  using unat_Suc_word [OF that] by (simp add: word_less_nat_alt word_le_nat_alt less_Suc_eq_le)

end
