(* ===== verification/Core_Types.thy ===== *)
theory Core_Types
  imports Prelude
begin

text \<open>
  The value types of \<^verbatim>\<open>src/core\<close>: the strong-typed integers of \<^verbatim>\<open>Types.hpp\<close> with their
  comparison and arithmetic operators (as instances of the library's classes), the resting
  \<open>Order\<close>, the submitted \<open>LimitOrder\<close> / \<open>MarketOrder\<close>, \<open>Trade\<close>, the engine's result
  codes, responses and events, and the commands that travel through the queues.
\<close>

section \<open>Strong types (Types.hpp)\<close>

datatype OrderId = OrderId (oid: u64)
datatype ClientId = ClientId (cid: u64)
datatype Price = Price (price_value: i64)
datatype Quantity = Quantity (qty_value: u64)
datatype Sequence = Sequence (seq_value: u64)
datatype TradeSequence = TradeSequence (tseq_value: u64)
datatype SymbolId = SymbolId (sym_value: u32)

datatype Side = Buy | Sell
datatype StpPolicy = RejectIncoming | CancelResting

record StpConfig =
  enabled :: bool
  policy :: StpPolicy

text \<open>\<open>Price\<close> compares its signed 64-bit value.\<close>

definition price_int :: "Price \<Rightarrow> int" where
  "price_int p = sint (price_value p)"

lemma price_int_inject [simp]: "price_int a = price_int b \<longleftrightarrow> a = b"
  by (cases a; cases b) (auto simp: price_int_def intro: signed_word_eqI)

lemma price_int_Price [simp]: "price_int (Price v) = sint v"
  by (simp add: price_int_def)

instantiation Price :: linorder
begin

definition less_eq_Price :: "Price \<Rightarrow> Price \<Rightarrow> bool" where
  "less_eq_Price a b \<longleftrightarrow> sint (price_value a) \<le> sint (price_value b)"

definition less_Price :: "Price \<Rightarrow> Price \<Rightarrow> bool" where
  "less_Price a b \<longleftrightarrow> sint (price_value a) < sint (price_value b)"

instance
proof
  fix a b c :: Price
  show "a < b \<longleftrightarrow> a \<le> b \<and> \<not> b \<le> a"
    by (auto simp: less_eq_Price_def less_Price_def)
  show "a \<le> a"
    by (simp add: less_eq_Price_def)
  show "a \<le> b \<Longrightarrow> b \<le> c \<Longrightarrow> a \<le> c"
    by (simp add: less_eq_Price_def)
  show "a \<le> b \<Longrightarrow> b \<le> a \<Longrightarrow> a = b"
    by (metis less_eq_Price_def order_antisym price_int_def price_int_inject)
  show "a \<le> b \<or> b \<le> a"
    by (auto simp: less_eq_Price_def)
qed

end

instantiation Price :: zero
begin

definition zero_Price :: Price where
  "zero_Price = Price 0"

instance ..

end

lemma price_le_iff: "a \<le> b \<longleftrightarrow> price_int a \<le> price_int b"
  by (simp add: less_eq_Price_def price_int_def)

lemma price_less_iff: "a < b \<longleftrightarrow> price_int a < price_int b"
  by (simp add: less_Price_def price_int_def)

lemma price_int_zero [simp]: "price_int 0 = 0"
  by (simp add: zero_Price_def)

text \<open>
  \<open>Quantity\<close> compares and adds its unsigned 64-bit value; \<open>+\<close> and \<open>-\<close> wrap around, as
  \<open>uint64_t\<close> does.
\<close>

definition qty_nat :: "Quantity \<Rightarrow> nat" where
  "qty_nat q = unat (qty_value q)"

instantiation Quantity :: "{linorder, cancel_comm_monoid_add}"
begin

definition less_eq_Quantity :: "Quantity \<Rightarrow> Quantity \<Rightarrow> bool" where
  "less_eq_Quantity a b \<longleftrightarrow> qty_value a \<le> qty_value b"

definition less_Quantity :: "Quantity \<Rightarrow> Quantity \<Rightarrow> bool" where
  "less_Quantity a b \<longleftrightarrow> qty_value a < qty_value b"

definition zero_Quantity :: Quantity where
  "zero_Quantity = Quantity 0"

definition plus_Quantity :: "Quantity \<Rightarrow> Quantity \<Rightarrow> Quantity" where
  "plus_Quantity a b = Quantity (qty_value a + qty_value b)"

definition minus_Quantity :: "Quantity \<Rightarrow> Quantity \<Rightarrow> Quantity" where
  "minus_Quantity a b = Quantity (qty_value a - qty_value b)"

instance
  by standard
    (auto simp: less_eq_Quantity_def less_Quantity_def zero_Quantity_def plus_Quantity_def
      minus_Quantity_def algebra_simps intro: Quantity.expand)

end

lemma qty_nat_Quantity [simp]: "qty_nat (Quantity v) = unat v"
  by (simp add: qty_nat_def)

lemma qty_nat_inject [simp]: "qty_nat a = qty_nat b \<longleftrightarrow> a = b"
  by (cases a; cases b) (auto intro: unsigned_word_eqI)

lemma qty_nat_zero [simp]: "qty_nat 0 = 0"
  by (simp add: zero_Quantity_def)

lemma qty_le_iff: "a \<le> b \<longleftrightarrow> qty_nat a \<le> qty_nat b"
  by (simp add: less_eq_Quantity_def qty_nat_def word_le_nat_alt)

lemma qty_less_iff: "a < b \<longleftrightarrow> qty_nat a < qty_nat b"
  by (simp add: less_Quantity_def qty_nat_def word_less_nat_alt)

lemma qty_nat_minus: "b \<le> a \<Longrightarrow> qty_nat (a - b) = qty_nat a - qty_nat b"
  by (simp add: less_eq_Quantity_def minus_Quantity_def qty_nat_def unat_sub)

lemma qty_nat_plus: "qty_nat (a + b) = (qty_nat a + qty_nat b) mod 2 ^ 64"
  by (simp add: plus_Quantity_def qty_nat_def unat_word_ariths)

lemma qty_nat_bound: "qty_nat a < 2 ^ 64"
  using unsigned_less [of "qty_value a", where ?'a = nat] by (simp add: qty_nat_def)

lemma qty_zero_le [simp]: "(0 :: Quantity) \<le> q"
  by (simp add: qty_le_iff)

lemma qty_pos_iff: "(0 :: Quantity) < q \<longleftrightarrow> q \<noteq> 0"
  by (cases q) (simp add: less_Quantity_def zero_Quantity_def word_neq_0_conv)

lemma qty_minus_self [simp]: "(q :: Quantity) - q = 0"
  by simp

text \<open>Post-increment of the two sequence counters: the old value and the incremented one.\<close>

definition next_seq :: "Sequence \<Rightarrow> Sequence" where
  "next_seq s = Sequence (seq_value s + 1)"

definition next_trade_seq :: "TradeSequence \<Rightarrow> TradeSequence" where
  "next_trade_seq s = TradeSequence (tseq_value s + 1)"

text \<open>
  \<open>OrderId\<close> has no ordering operator in the sources; the engine's watermark check compares
  the underlying values, written out as \<open>oid a \<le> oid b\<close>.
\<close>


section \<open>Orders (Order.hpp, NewOrder.hpp)\<close>

text \<open>
  A pointer to an order is the index of its pool slot, \<open>None\<close> the null pointer. A pointer
  to a price level is the key of its map node: the side of the tree and the price.
\<close>

type_synonym order_ptr = nat
type_synonym level_ref = "Side \<times> Price"

record Order =
  o_id :: OrderId
  o_side :: Side
  o_price :: Price
  o_quantity :: Quantity
  o_sequence :: Sequence
  o_owner :: ClientId
  o_prev :: "order_ptr option"
  o_next :: "order_ptr option"
  o_level :: "level_ref option"

record LimitOrder =
  lo_id :: OrderId
  lo_side :: Side
  lo_price :: Price
  lo_quantity :: Quantity
  lo_owner :: ClientId

record MarketOrder =
  mo_id :: OrderId
  mo_side :: Side
  mo_quantity :: Quantity
  mo_owner :: ClientId

datatype NewOrder = NewLimit LimitOrder | NewMarket MarketOrder

fun new_order_id :: "NewOrder \<Rightarrow> OrderId" where
  "new_order_id (NewLimit l) = lo_id l"
| "new_order_id (NewMarket m) = mo_id m"

fun new_order_owner :: "NewOrder \<Rightarrow> ClientId" where
  "new_order_owner (NewLimit l) = lo_owner l"
| "new_order_owner (NewMarket m) = mo_owner m"

fun new_order_side :: "NewOrder \<Rightarrow> Side" where
  "new_order_side (NewLimit l) = lo_side l"
| "new_order_side (NewMarket m) = mo_side m"

fun new_order_quantity :: "NewOrder \<Rightarrow> Quantity" where
  "new_order_quantity (NewLimit l) = lo_quantity l"
| "new_order_quantity (NewMarket m) = mo_quantity m"


section \<open>Trades, responses and events (Trade.hpp, Events.hpp)\<close>

record Trade =
  trade_sequence :: TradeSequence
  buy_order_id :: OrderId
  sell_order_id :: OrderId
  t_price :: Price
  t_quantity :: Quantity
  resting_order_removed :: bool

datatype EngineResult =
    Accepted
  | DuplicateOrderId
  | UnknownOrderId
  | InvalidQuantity
  | InvalidPrice
  | PoolExhausted
  | SelfTradePrevented
  | PriceOutOfBand
  | QuantityTooLarge
  | TickSizeMisaligned
  | InternalError

record EngineResponse =
  status :: EngineResult
  trades :: "Trade list"
  remaining_qty :: Quantity
  r_order_id :: OrderId

record OrderAccepted =
  acc_id :: OrderId
  acc_side :: Side
  acc_quantity :: Quantity
  acc_price :: Price

record OrderCancelled =
  can_id :: OrderId
  can_remaining_qty :: Quantity
  can_side :: Side
  can_price :: Price

text \<open>
  One call of the \<open>EventSink\<close> port (\<^verbatim>\<open>interfaces/event_sink.hpp\<close>): its three methods are the
  three constructors.
\<close>

datatype SinkCall =
    on_trade Trade
  | on_order_accepted OrderAccepted
  | on_order_cancelled OrderCancelled


section \<open>Commands (EngineCommand.hpp, TaggedCommand.hpp)\<close>

record CancelRequest =
  cr_id :: OrderId

datatype EngineCommand =
    CmdLimit LimitOrder
  | CmdMarket MarketOrder
  | CmdCancel CancelRequest

record TaggedCommand =
  tc_client :: ClientId
  tc_command :: EngineCommand

record TaggedResponse =
  tr_client :: ClientId
  tr_response :: EngineResponse


section \<open>The other side of a book\<close>

fun opposite :: "Side \<Rightarrow> Side" where
  "opposite Buy = Sell"
| "opposite Sell = Buy"

lemma opposite_opposite [simp]: "opposite (opposite s) = s"
  by (cases s) auto

lemma opposite_neq [simp]: "opposite s \<noteq> s" "s \<noteq> opposite s"
  by (cases s; simp)+

lemma side_eq_opposite: "s \<noteq> t \<longleftrightarrow> s = opposite t"
  by (cases s; cases t) auto

end
