(* ===== verification/Order_Pool.thy ===== *)
theory Order_Pool
  imports Core_Types
begin

text \<open>
  \<^verbatim>\<open>src/orderbook/order_pool.{hpp,cpp}\<close>: a fixed slab of \<open>Order\<close> slots with an intrusive
  free list. The storage maps a slot index to what its bytes hold: a constructed order, or
  the index of the next free slot. \<open>size_t\<close> counters are \<open>nat\<close>; the invariant \<open>pool_ok\<close>
  shows that \<open>--free_count\<close> never runs below zero. Reading an \<open>Order\<close> through a pointer to
  a slot that holds none is undefined behaviour in C++; here \<open>load\<close> is \<open>None\<close> there, and
  \<open>None\<close> propagates through every operation that dereferences.
\<close>

section \<open>Slots, loads and stores\<close>

datatype slot = FreeSlot nat | LiveSlot Order

type_synonym storage = "order_ptr \<Rightarrow> slot"

record OrderPool =
  storage :: storage
  capacity :: nat
  free_list_head :: nat
  free_count :: nat

definition load :: "storage \<Rightarrow> order_ptr \<Rightarrow> Order option" where
  "load st p = (case st p of LiveSlot ord \<Rightarrow> Some ord | FreeSlot _ \<Rightarrow> None)"

text \<open>Assignment to a field of \<open>*p\<close>: the slot must hold an order.\<close>

definition mutate :: "storage \<Rightarrow> order_ptr \<Rightarrow> (Order \<Rightarrow> Order) \<Rightarrow> storage option" where
  "mutate st p f = do { ord \<leftarrow> load st p; Some (st(p := LiveSlot (f ord))) }"

text \<open>
  \<open>next_free\<close> reinterprets the first eight bytes of a slot as \<open>size_t\<close>: the link in a free
  slot, the \<open>id\<close> (the first member of \<open>Order\<close>) in a slot that holds an order.
\<close>

fun slot_word :: "slot \<Rightarrow> nat" where
  "slot_word (FreeSlot n) = n"
| "slot_word (LiveSlot ord) = unat (oid (o_id ord))"

definition next_free :: "OrderPool \<Rightarrow> nat \<Rightarrow> nat" where
  "next_free P i = slot_word (storage P i)"

definition OrderPool_init :: "nat \<Rightarrow> OrderPool" where
  "OrderPool_init cap =
     \<lparr>storage = (\<lambda>i. FreeSlot (i + 1)), capacity = cap, free_list_head = 0, free_count = cap\<rparr>"

definition acquire :: "OrderPool \<Rightarrow> order_ptr option \<times> OrderPool" where
  "acquire P =
     (if free_list_head P = capacity P then (None, P)
      else let slot = free_list_head P
           in (Some slot, P\<lparr>free_list_head := next_free P slot, free_count := free_count P - 1\<rparr>))"

definition release :: "OrderPool \<Rightarrow> order_ptr \<Rightarrow> OrderPool" where
  "release P idx =
     P\<lparr>storage := (storage P)(idx := FreeSlot (free_list_head P)),
       free_list_head := idx, free_count := free_count P + 1\<rparr>"

definition available :: "OrderPool \<Rightarrow> nat" where
  "available P = free_count P"

text \<open>\<open>*slot = order_data\<close> for a slot just acquired.\<close>

definition construct :: "OrderPool \<Rightarrow> order_ptr \<Rightarrow> Order \<Rightarrow> OrderPool" where
  "construct P p ord = P\<lparr>storage := (storage P)(p := LiveSlot ord)\<rparr>"

lemma load_upd_same [simp]: "load (st(p := LiveSlot ord)) p = Some ord"
  by (simp add: load_def)

lemma load_upd_other [simp]: "q \<noteq> p \<Longrightarrow> load (st(p := x)) q = load st q"
  by (simp add: load_def)

lemma load_Some_iff: "load st p = Some ord \<longleftrightarrow> st p = LiveSlot ord"
  by (auto simp: load_def split: slot.splits)

lemma load_free [simp]: "load (st(p := FreeSlot n)) p = None"
  by (simp add: load_def)

lemma mutate_Some [heap_simps]:
  "load st p = Some ord \<Longrightarrow> mutate st p f = Some (st(p := LiveSlot (f ord)))"
  by (simp add: mutate_def)

lemma mutate_None [heap_simps]: "load st p = None \<Longrightarrow> mutate st p f = None"
  by (simp add: mutate_def)


section \<open>The free list\<close>

text \<open>
  \<open>chain st cap h fl\<close>: following the links from index \<open>h\<close> visits the free slots \<open>fl\<close> and
  ends at the sentinel \<open>cap\<close>.
\<close>

fun chain :: "storage \<Rightarrow> nat \<Rightarrow> nat \<Rightarrow> nat list \<Rightarrow> bool" where
  "chain st cap h [] \<longleftrightarrow> h = cap"
| "chain st cap h (i # is) \<longleftrightarrow> h = i \<and> i < cap \<and> (\<exists>n. st i = FreeSlot n \<and> chain st cap n is)"

definition free_list :: "OrderPool \<Rightarrow> nat list \<Rightarrow> bool" where
  "free_list P fl \<longleftrightarrow>
     chain (storage P) (capacity P) (free_list_head P) fl \<and> distinct fl \<and>
     free_count P = length fl"

definition pool_ok :: "OrderPool \<Rightarrow> bool" where
  "pool_ok P \<longleftrightarrow> (\<exists>fl. free_list P fl)"

text \<open>The indices the free list holds, computed by following the links.\<close>

fun walk_free :: "nat \<Rightarrow> OrderPool \<Rightarrow> nat \<Rightarrow> nat list" where
  "walk_free 0 P h = []"
| "walk_free (Suc n) P h = (if h = capacity P then [] else h # walk_free n P (next_free P h))"

definition free_slots :: "OrderPool \<Rightarrow> nat set" where
  "free_slots P = set (walk_free (free_count P) P (free_list_head P))"

lemma chain_walk:
  assumes "chain (storage P) (capacity P) h fl"
  shows "walk_free (length fl) P h = fl"
  using assms
  by (induction fl arbitrary: h) (auto simp: next_free_def)

lemma chain_frame:
  assumes "chain st cap h fl" and "p \<notin> set fl"
  shows "chain (st(p := x)) cap h fl"
  using assms by (induction fl arbitrary: h) auto

lemma chain_bounds: "chain st cap h fl \<Longrightarrow> set fl \<subseteq> {..<cap}"
  by (induction fl arbitrary: h) auto

lemma chain_free: "chain st cap h fl \<Longrightarrow> i \<in> set fl \<Longrightarrow> load st i = None"
  by (induction fl arbitrary: h) (auto simp: load_def)

lemma free_list_slots: "free_list P fl \<Longrightarrow> free_slots P = set fl"
  by (auto simp: free_list_def free_slots_def chain_walk)

lemma chain_init:
  assumes "i \<le> cap"
  shows "chain (\<lambda>i. FreeSlot (i + 1)) cap i [i..<cap]"
  using assms
proof (induction "cap - i" arbitrary: i)
  case 0
  then show ?case by simp
next
  case (Suc n)
  then have lt: "i < cap" by simp
  with Suc have "chain (\<lambda>i. FreeSlot (i + 1)) cap (Suc i) [Suc i..<cap]"
    by simp
  with lt show ?case by (simp add: upt_rec [of i])
qed

lemma free_list_init: "free_list (OrderPool_init cap) [0..<cap]"
  by (simp add: free_list_def OrderPool_init_def chain_init [simplified])

lemma pool_ok_init: "pool_ok (OrderPool_init cap)"
  using free_list_init by (auto simp: pool_ok_def)

lemma free_slots_init: "free_slots (OrderPool_init cap) = {..<cap}"
  using free_list_slots [OF free_list_init] by (auto simp: atLeast0LessThan)

lemma acquire_Nil:
  assumes "free_list P []"
  shows "acquire P = (None, P)"
  using assms by (simp add: free_list_def acquire_def)

lemma acquire_Cons:
  assumes "free_list P (i # fl)"
  shows "acquire P = (Some i, P\<lparr>free_list_head := next_free P i, free_count := free_count P - 1\<rparr>)"
    and "free_list (snd (acquire P)) fl"
  using assms by (auto simp: free_list_def acquire_def next_free_def Let_def)

lemma release_free_list:
  assumes "free_list P fl" and "i < capacity P" and "i \<notin> set fl"
  shows "free_list (release P i) (i # fl)"
  using assms by (auto simp: free_list_def release_def intro: chain_frame)

lemma construct_free_list:
  assumes "free_list P fl" and "i \<notin> set fl"
  shows "free_list (construct P i ord) fl"
  using assms by (auto simp: free_list_def construct_def intro: chain_frame)


section \<open>The pool as an interface\<close>

text \<open>
  What a client of the pool relies on: a pool in a good state hands out a slot that was
  free, or reports exhaustion exactly when no slot is free; a returned slot is free again;
  writing to a slot the client holds disturbs nothing.
\<close>

locale slot_pool =
  fixes acq :: "'p \<Rightarrow> nat option \<times> 'p"
    and rel :: "'p \<Rightarrow> nat \<Rightarrow> 'p"
    and wr :: "'p \<Rightarrow> nat \<Rightarrow> 'v \<Rightarrow> 'p"
    and avail :: "'p \<Rightarrow> nat"
    and cap :: "'p \<Rightarrow> nat"
    and free :: "'p \<Rightarrow> nat set"
    and ok :: "'p \<Rightarrow> bool"
  assumes free_bound: "ok P \<Longrightarrow> free P \<subseteq> {..<cap P}"
    and avail_free: "ok P \<Longrightarrow> avail P = card (free P)"
    and acq_None: "ok P \<Longrightarrow> acq P = (None, P') \<Longrightarrow> free P = {} \<and> P' = P"
    and acq_Some: "ok P \<Longrightarrow> acq P = (Some i, P') \<Longrightarrow>
      i \<in> free P \<and> ok P' \<and> free P' = free P - {i} \<and> cap P' = cap P"
    and rel_ok: "ok P \<Longrightarrow> i < cap P \<Longrightarrow> i \<notin> free P \<Longrightarrow>
      ok (rel P i) \<and> free (rel P i) = insert i (free P) \<and> cap (rel P i) = cap P"
    and wr_ok: "ok P \<Longrightarrow> i \<notin> free P \<Longrightarrow>
      ok (wr P i v) \<and> free (wr P i v) = free P \<and> cap (wr P i v) = cap P"
begin

lemma acq_succeeds:
  assumes "ok P" and "avail P \<noteq> 0"
  shows "\<exists>i P'. acq P = (Some i, P')"
proof (cases "acq P")
  case (Pair r P')
  show ?thesis
  proof (cases r)
    case None
    with Pair assms have "free P = {}" using acq_None by auto
    with assms show ?thesis by (simp add: avail_free)
  qed (use Pair in auto)
qed

lemma acq_avail:
  assumes "ok P" and "acq P = (Some i, P')"
  shows "avail P = Suc (avail P')"
proof -
  have "i \<in> free P" and "free P' = free P - {i}" and "ok P'"
    using acq_Some [OF assms] by auto
  moreover have "finite (free P)"
    using free_bound [OF assms(1)] finite_subset by blast
  ultimately show ?thesis
    using assms(1) by (metis avail_free card_Suc_Diff1)
qed

lemma rel_avail:
  assumes "ok P" and "i < cap P" and "i \<notin> free P"
  shows "avail (rel P i) = Suc (avail P)"
proof -
  have "finite (free P)"
    using free_bound [OF assms(1)] finite_subset by blast
  then show ?thesis
    using rel_ok [OF assms] assms by (simp add: avail_free)
qed

text \<open>A slot handed out is not handed out again while the client holds it.\<close>

lemma acq_fresh:
  assumes "ok P" and "acq P = (Some i, P')" and "acq P' = (Some j, P'')"
  shows "i \<noteq> j"
  using acq_Some [OF assms(1,2)] acq_Some [of P' j P''] assms(3) by auto

text \<open>Returning a slot and acquiring again succeeds: the pool does not leak.\<close>

lemma rel_then_acq:
  assumes "ok P" and "i < cap P" and "i \<notin> free P"
  shows "\<exists>j P'. acq (rel P i) = (Some j, P')"
  using acq_succeeds rel_ok [OF assms] rel_avail [OF assms] by auto

end

interpretation op: slot_pool acquire release construct available capacity free_slots pool_ok
proof
  fix P
  assume "pool_ok P"
  then obtain fl where fl: "free_list P fl" by (auto simp: pool_ok_def)
  note slots = free_list_slots [OF fl]
  show "free_slots P \<subseteq> {..<capacity P}"
    using fl slots by (auto simp: free_list_def dest: chain_bounds)
  show "available P = card (free_slots P)"
    using fl slots by (auto simp: free_list_def available_def distinct_card)
  {
    fix P'
    assume "acquire P = (None, P')"
    with fl show "free_slots P = {} \<and> P' = P"
      using slots by (cases fl) (simp_all add: acquire_Nil acquire_Cons(1))
  }
  {
    fix i P'
    assume acq: "acquire P = (Some i, P')"
    with fl obtain fl' where fl': "fl = i # fl'"
      by (cases fl) (auto simp: acquire_Nil acquire_Cons(1))
    with fl acq have "free_list P' fl'" and "capacity P' = capacity P"
      using acquire_Cons [of P i fl'] by auto
    moreover from fl fl' have "distinct (i # fl')"
      by (simp add: free_list_def)
    ultimately show "i \<in> free_slots P \<and> pool_ok P' \<and> free_slots P' = free_slots P - {i} \<and>
        capacity P' = capacity P"
      using slots fl' by (auto simp: free_list_slots pool_ok_def)
  }
  {
    fix i
    assume "i < capacity P" and "i \<notin> free_slots P"
    with fl slots have "free_list (release P i) (i # fl)"
      by (simp add: release_free_list)
    then show "pool_ok (release P i) \<and> free_slots (release P i) = insert i (free_slots P) \<and>
        capacity (release P i) = capacity P"
      using slots by (auto simp: free_list_slots pool_ok_def release_def)
  }
  {
    fix i v
    assume "i \<notin> free_slots P"
    with fl slots have "free_list (construct P i v) fl"
      by (simp add: construct_free_list)
    then show "pool_ok (construct P i v) \<and> free_slots (construct P i v) = free_slots P \<and>
        capacity (construct P i v) = capacity P"
      using slots by (auto simp: free_list_slots pool_ok_def construct_def)
  }
qed

lemma free_slot_not_live:
  assumes "pool_ok P" and "i \<in> free_slots P"
  shows "load (storage P) i = None"
proof -
  from assms(1) obtain fl where fl: "free_list P fl" by (auto simp: pool_ok_def)
  with assms(2) have "i \<in> set fl" by (simp add: free_list_slots)
  with fl show ?thesis by (auto simp: free_list_def intro: chain_free)
qed

text \<open>
  A write to a live slot (a field assignment through a pointer) keeps the free list, too.
\<close>

lemma pool_write:
  assumes "pool_ok P" and "load (storage P) i \<noteq> None"
  shows "pool_ok (P\<lparr>storage := (storage P)(i := LiveSlot ord)\<rparr>)"
    and "free_slots (P\<lparr>storage := (storage P)(i := LiveSlot ord)\<rparr>) = free_slots P"
proof -
  have "i \<notin> free_slots P"
    using assms free_slot_not_live by auto
  from op.wr_ok [OF assms(1) this, of ord]
  show "pool_ok (P\<lparr>storage := (storage P)(i := LiveSlot ord)\<rparr>)"
    and "free_slots (P\<lparr>storage := (storage P)(i := LiveSlot ord)\<rparr>) = free_slots P"
    by (simp_all add: construct_def)
qed

lemma chain_cong:
  assumes "\<And>q. q \<in> set fl \<Longrightarrow> st' q = st q"
  shows "chain st' cap h fl = chain st cap h fl"
  using assms by (induction fl arbitrary: h) auto

lemma pool_frame:
  assumes "pool_ok P" and "\<And>q. q \<in> free_slots P \<Longrightarrow> st' q = storage P q"
  shows "pool_ok (P\<lparr>storage := st'\<rparr>)" and "free_slots (P\<lparr>storage := st'\<rparr>) = free_slots P"
proof -
  from assms(1) obtain fl where fl: "free_list P fl" by (auto simp: pool_ok_def)
  note slots = free_list_slots [OF fl]
  have "chain st' (capacity P) (free_list_head P) fl = chain (storage P) (capacity P) (free_list_head P) fl"
    by (rule chain_cong) (use assms(2) slots in simp)
  with fl have "free_list (P\<lparr>storage := st'\<rparr>) fl"
    by (simp add: free_list_def)
  with fl show "pool_ok (P\<lparr>storage := st'\<rparr>)" and "free_slots (P\<lparr>storage := st'\<rparr>) = free_slots P"
    by (auto simp: pool_ok_def free_list_slots)
qed

end
