(* ===== verification/Price_Level.thy ===== *)
theory Price_Level
  imports Order_Pool
begin

text \<open>
  \<^verbatim>\<open>src/orderbook/price_level.{hpp,cpp}\<close>: the FIFO queue of one price, an intrusive doubly
  linked list threaded through the orders in the pool's storage. \<open>this\<close> is passed
  explicitly, since the code stores it in every order (\<open>order->level = this\<close>).
  \<open>level_rep\<close> relates a level and a storage to the list of slot indices it links.
\<close>

section \<open>The class\<close>

record PriceLevel =
  level_price :: Price
  head :: "order_ptr option"
  tail :: "order_ptr option"
  total_qty :: Quantity

definition PriceLevel_init :: "Price \<Rightarrow> PriceLevel" where
  "PriceLevel_init p = \<lparr>level_price = p, head = None, tail = None, total_qty = 0\<rparr>"

definition push_back ::
  "level_ref \<Rightarrow> PriceLevel \<Rightarrow> order_ptr \<Rightarrow> storage \<Rightarrow> (PriceLevel \<times> storage) option" where
  "push_back this l p st = do {
     st1 \<leftarrow> mutate st p (\<lambda>ord. ord\<lparr>o_level := Some this\<rparr>);
     st2 \<leftarrow> mutate st1 p (\<lambda>ord. ord\<lparr>o_prev := tail l, o_next := None\<rparr>);
     (l1, st3) \<leftarrow> (case tail l of
         Some t \<Rightarrow> do { st3 \<leftarrow> mutate st2 t (\<lambda>ord. ord\<lparr>o_next := Some p\<rparr>); Some (l, st3) }
       | None \<Rightarrow> Some (l\<lparr>head := Some p\<rparr>, st2));
     ord \<leftarrow> load st3 p;
     Some (l1\<lparr>tail := Some p, total_qty := total_qty l1 + o_quantity ord\<rparr>, st3)
   }"

definition level_remove ::
  "PriceLevel \<Rightarrow> order_ptr \<Rightarrow> storage \<Rightarrow> (PriceLevel \<times> storage) option" where
  "level_remove l p st = do {
     ord \<leftarrow> load st p;
     (l1, st1) \<leftarrow> (case o_prev ord of
         Some q \<Rightarrow> do { st1 \<leftarrow> mutate st q (\<lambda>x. x\<lparr>o_next := o_next ord\<rparr>); Some (l, st1) }
       | None \<Rightarrow> Some (l\<lparr>head := o_next ord\<rparr>, st));
     ord1 \<leftarrow> load st1 p;
     (l2, st2) \<leftarrow> (case o_next ord1 of
         Some q \<Rightarrow> do { st2 \<leftarrow> mutate st1 q (\<lambda>x. x\<lparr>o_prev := o_prev ord1\<rparr>); Some (l1, st2) }
       | None \<Rightarrow> Some (l1\<lparr>tail := o_prev ord1\<rparr>, st1));
     ord2 \<leftarrow> load st2 p;
     st3 \<leftarrow> mutate st2 p (\<lambda>x. x\<lparr>o_prev := None, o_next := None, o_level := None\<rparr>);
     Some (l2\<lparr>total_qty := total_qty l2 - o_quantity ord2\<rparr>, st3)
   }"

definition reduce_quantity :: "PriceLevel \<Rightarrow> Quantity \<Rightarrow> PriceLevel" where
  "reduce_quantity l q = l\<lparr>total_qty := total_qty l - q\<rparr>"

definition front :: "PriceLevel \<Rightarrow> order_ptr option" where
  "front l = head l"

definition level_empty :: "PriceLevel \<Rightarrow> bool" where
  "level_empty l \<longleftrightarrow> head l = None"

definition total_quantity :: "PriceLevel \<Rightarrow> Quantity" where
  "total_quantity l = total_qty l"


section \<open>Doubly linked segments\<close>

text \<open>
  \<open>seg st r pv ps nx\<close>: the slots \<open>ps\<close> hold orders of level \<open>r\<close> linked in both directions,
  the first one's \<open>prev\<close> being \<open>pv\<close> and the last one's \<open>next\<close> being \<open>nx\<close>.
\<close>

fun seg ::
  "storage \<Rightarrow> level_ref \<Rightarrow> order_ptr option \<Rightarrow> order_ptr list \<Rightarrow> order_ptr option \<Rightarrow> bool" where
  "seg st r pv [] nx \<longleftrightarrow> True"
| "seg st r pv (p # ps) nx \<longleftrightarrow>
     (\<exists>ord. load st p = Some ord \<and> o_prev ord = pv \<and> o_next ord = hd_opt nx ps \<and>
            o_level ord = Some r) \<and>
     seg st r (Some p) ps nx"

lemma seg_append [simp]:
  "seg st r pv (xs @ ys) nx \<longleftrightarrow> seg st r pv xs (hd_opt nx ys) \<and> seg st r (last_opt pv xs) ys nx"
  by (induction xs arbitrary: pv) auto

lemma seg_frame:
  assumes "\<And>q. q \<in> set ps \<Longrightarrow> st' q = st q"
  shows "seg st' r pv ps nx = seg st r pv ps nx"
  using assms by (induction ps arbitrary: pv) (auto simp: load_def)

lemma seg_upd [simp]: "p \<notin> set ps \<Longrightarrow> seg (st(p := x)) r pv ps nx = seg st r pv ps nx"
  by (rule seg_frame) auto

lemma seg_live: "seg st r pv ps nx \<Longrightarrow> p \<in> set ps \<Longrightarrow> \<exists>ord. load st p = Some ord \<and> o_level ord = Some r"
  by (induction ps arbitrary: pv) auto

text \<open>Changing the end links of a segment.\<close>

lemma seg_set_next:
  assumes "seg st r pv (xs @ [a]) nx" and "a \<notin> set xs"
  shows "\<exists>ord. load st a = Some ord \<and>
    seg (st(a := LiveSlot (ord\<lparr>o_next := nx'\<rparr>))) r pv (xs @ [a]) nx'"
  using assms by auto

lemma seg_set_prev:
  assumes "seg st r pv (b # ys) nx" and "b \<notin> set ys"
  shows "\<exists>ord. load st b = Some ord \<and>
    seg (st(b := LiveSlot (ord\<lparr>o_prev := pv'\<rparr>))) r pv' (b # ys) nx"
  using assms by auto


section \<open>Representation of a level\<close>

definition ptr_qty :: "storage \<Rightarrow> order_ptr \<Rightarrow> Quantity" where
  "ptr_qty st p = o_quantity (the (load st p))"

definition level_rep :: "storage \<Rightarrow> level_ref \<Rightarrow> PriceLevel \<Rightarrow> order_ptr list \<Rightarrow> bool" where
  "level_rep st r l ps \<longleftrightarrow>
     distinct ps \<and> seg st r None ps None \<and> head l = hd_opt None ps \<and> tail l = last_opt None ps \<and>
     total_qty l = sum_list (map (ptr_qty st) ps) \<and> level_price l = snd r"

text \<open>An order without its links: what a client of the book sees of it.\<close>

definition strip :: "Order \<Rightarrow> Order" where
  "strip ord = ord\<lparr>o_prev := None, o_next := None, o_level := None\<rparr>"

lemma strip_links [simp]:
  "strip (ord\<lparr>o_prev := a\<rparr>) = strip ord"
  "strip (ord\<lparr>o_next := b\<rparr>) = strip ord"
  "strip (ord\<lparr>o_level := c\<rparr>) = strip ord"
  by (simp_all add: strip_def)

lemma strip_sel [simp]:
  "o_id (strip ord) = o_id ord" "o_side (strip ord) = o_side ord"
  "o_price (strip ord) = o_price ord" "o_quantity (strip ord) = o_quantity ord"
  "o_sequence (strip ord) = o_sequence ord" "o_owner (strip ord) = o_owner ord"
  by (simp_all add: strip_def)

lemma strip_strip [simp]: "strip (strip ord) = strip ord"
  by (simp add: strip_def)

text \<open>Two storages that hold the same orders up to links.\<close>

definition same_data :: "storage \<Rightarrow> storage \<Rightarrow> bool" where
  "same_data st st' \<longleftrightarrow> (\<forall>p. map_option strip (load st' p) = map_option strip (load st p))"

lemma same_data_refl [simp]: "same_data st st"
  by (simp add: same_data_def)

lemma same_data_trans: "same_data a b \<Longrightarrow> same_data b c \<Longrightarrow> same_data a c"
  by (simp add: same_data_def)

lemma same_data_upd:
  assumes "load st p = Some ord" and "strip ord' = strip ord"
  shows "same_data st (st(p := LiveSlot ord'))"
  using assms by (auto simp: same_data_def load_def)

lemma same_data_live:
  "same_data st st' \<Longrightarrow> (load st' p = None) = (load st p = None)"
  unfolding same_data_def by (metis option.map_disc_iff)

lemma same_dataD:
  assumes "same_data st st'" and "load st p = Some ord"
  obtains ord' where "load st' p = Some ord'" and "strip ord' = strip ord"
proof -
  have "map_option strip (load st' p) = Some (strip ord)"
    using assms by (simp add: same_data_def)
  then show ?thesis using that by auto
qed

lemma strip_eq_quantity: "strip a = strip b \<Longrightarrow> o_quantity a = o_quantity b"
  by (metis strip_sel(4))

lemma same_data_ptr_qty:
  assumes "same_data st st'" and "load st p \<noteq> None"
  shows "ptr_qty st' p = ptr_qty st p"
proof -
  from assms(2) obtain ord where ord: "load st p = Some ord" by auto
  with assms(1) obtain ord' where ord': "load st' p = Some ord'" "strip ord' = strip ord"
    by (rule same_dataD)
  from ord'(2) have "o_quantity ord' = o_quantity ord" by (rule strip_eq_quantity)
  with ord ord' show ?thesis by (simp add: ptr_qty_def)
qed

lemma level_rep_frame:
  assumes "level_rep st r l ps" and "\<And>q. q \<in> set ps \<Longrightarrow> st' q = st q"
  shows "level_rep st' r l ps"
proof -
  have m: "map (ptr_qty st') ps = map (ptr_qty st) ps"
    using assms(2) by (simp add: ptr_qty_def load_def)
  have "seg st' r None ps None = seg st r None ps None"
    using assms(2) by (rule seg_frame)
  with assms(1) show ?thesis
    unfolding level_rep_def m by simp
qed

lemma level_rep_live:
  "level_rep st r l ps \<Longrightarrow> p \<in> set ps \<Longrightarrow> \<exists>ord. load st p = Some ord \<and> o_level ord = Some r"
  by (auto simp: level_rep_def dest: seg_live)

lemma level_rep_init: "level_rep st (s, p) (PriceLevel_init p) []"
  by (simp add: level_rep_def PriceLevel_init_def)

lemma level_rep_empty: "level_rep st r l ps \<Longrightarrow> level_empty l \<longleftrightarrow> ps = []"
  by (simp add: level_rep_def level_empty_def)

lemma level_rep_front: "level_rep st r l ps \<Longrightarrow> front l = hd_opt None ps"
  by (simp add: level_rep_def front_def)

lemma level_rep_total: "level_rep st r l ps \<Longrightarrow> total_quantity l = sum_list (map (ptr_qty st) ps)"
  by (simp add: level_rep_def total_quantity_def)


section \<open>Push back\<close>

lemma push_back_rep:
  assumes rep: "level_rep st r l ps" and ld: "load st p = Some ord" and new: "p \<notin> set ps"
  obtains l' st' where "push_back r l p st = Some (l', st')"
    and "level_rep st' r l' (ps @ [p])"
    and "same_data st st'"
    and "\<And>q. q \<noteq> p \<Longrightarrow> q \<notin> set ps \<Longrightarrow> st' q = st q"
proof (cases ps rule: rev_cases)
  case Nil
  let ?st = "st(p := LiveSlot (ord\<lparr>o_level := Some r, o_prev := None, o_next := None\<rparr>))"
  let ?l = "l\<lparr>head := Some p, tail := Some p, total_qty := total_qty l + o_quantity ord\<rparr>"
  have "push_back r l p st = Some (?l, ?st)"
    using rep ld Nil by (simp add: push_back_def heap_simps level_rep_def)
  moreover have "level_rep ?st r ?l (ps @ [p])"
    using rep Nil by (simp add: level_rep_def ptr_qty_def)
  moreover have "same_data st ?st"
    using ld by (rule same_data_upd) simp
  ultimately show ?thesis
    by (rule that) (simp add: Nil)
next
  case (snoc xs t)
  from rep snoc obtain ot where t: "load st t = Some ot" and tn: "t \<notin> set xs" "t \<noteq> p"
    using new by (auto simp: level_rep_def)
  let ?st1 = "st(p := LiveSlot (ord\<lparr>o_level := Some r, o_prev := Some t, o_next := None\<rparr>))"
  let ?st = "?st1(t := LiveSlot (ot\<lparr>o_next := Some p\<rparr>))"
  let ?l = "l\<lparr>tail := Some p, total_qty := total_qty l + o_quantity ord\<rparr>"
  have tl: "tail l = Some t"
    using rep snoc by (simp add: level_rep_def)
  have "push_back r l p st = Some (?l, ?st)"
    using ld t tn tl by (simp add: push_back_def heap_simps)
  moreover have "level_rep ?st r ?l (ps @ [p])"
  proof -
    have ne: "x \<noteq> p \<and> x \<noteq> t" if "x \<in> set xs" for x
      using that new snoc tn by auto
    have q: "map (ptr_qty ?st) xs = map (ptr_qty st) xs"
      using ne by (simp add: ptr_qty_def)
    have qt: "ptr_qty ?st t = ptr_qty st t" "ptr_qty ?st p = o_quantity ord"
      using t tn by (simp_all add: ptr_qty_def)
    have pn: "p \<notin> set xs" using new snoc by simp
    have "seg ?st r None (ps @ [p]) None"
      using rep snoc pn tn t by (simp add: level_rep_def)
    moreover have "total_qty ?l = sum_list (map (ptr_qty ?st) (ps @ [p]))"
      using rep snoc by (simp add: level_rep_def q qt add.assoc del: fun_upd_apply)
    ultimately show ?thesis
      using rep snoc new by (simp add: level_rep_def)
  qed
  moreover have "same_data st ?st"
  proof (rule same_data_trans)
    show "same_data st ?st1"
      using ld by (rule same_data_upd) simp
    show "same_data ?st1 ?st"
      using t tn by (intro same_data_upd [where ord = ot]) simp_all
  qed
  ultimately show ?thesis
    by (rule that) (use snoc in auto)
qed


section \<open>Remove\<close>

text \<open>
  The two link repairs of \<open>remove\<close>, each on its own: the predecessor's \<open>next\<close> (or the head)
  and the successor's \<open>prev\<close> (or the tail).
\<close>

definition unlink_prev :: "order_ptr option \<Rightarrow> order_ptr option \<Rightarrow> storage \<Rightarrow> storage" where
  "unlink_prev pv nx st = (case pv of None \<Rightarrow> st
     | Some q \<Rightarrow> st(q := LiveSlot ((the (load st q))\<lparr>o_next := nx\<rparr>)))"

definition unlink_next :: "order_ptr option \<Rightarrow> order_ptr option \<Rightarrow> storage \<Rightarrow> storage" where
  "unlink_next pv nx st = (case nx of None \<Rightarrow> st
     | Some q \<Rightarrow> st(q := LiveSlot ((the (load st q))\<lparr>o_prev := pv\<rparr>)))"

lemma same_data_unlink:
  assumes "\<And>q. pv = Some q \<Longrightarrow> load st q \<noteq> None"
  shows "same_data st (unlink_prev pv nx st)"
proof (cases pv)
  case (Some q)
  with assms obtain ord where "load st q = Some ord" by auto
  with Some show ?thesis by (auto simp: unlink_prev_def intro: same_data_upd)
qed (simp add: unlink_prev_def)

lemma same_data_unlink_next:
  assumes "\<And>q. nx = Some q \<Longrightarrow> load st q \<noteq> None"
  shows "same_data st (unlink_next pv nx st)"
proof (cases nx)
  case (Some q)
  with assms obtain ord where "load st q = Some ord" by auto
  with Some show ?thesis by (auto simp: unlink_next_def intro: same_data_upd)
qed (simp add: unlink_next_def)

lemma last_opt_cases:
  obtains "xs = []" "last_opt pv xs = pv"
  | ys a where "xs = ys @ [a]" "last_opt pv xs = Some a"
  by (cases xs rule: rev_cases) auto

lemma seg_unlink_prev:
  assumes "seg st r None xs nx" and "distinct xs"
  shows "seg (unlink_prev (last_opt None xs) nx' st) r None xs nx'"
    and "q \<notin> set xs \<Longrightarrow> unlink_prev (last_opt None xs) nx' st q = st q"
  using assms by (cases xs rule: rev_cases; auto simp: unlink_prev_def)+

lemma seg_unlink_next:
  assumes "seg st r pv ys None" and "distinct ys"
  shows "seg (unlink_next pv' (hd_opt None ys) st) r pv' ys None"
    and "q \<notin> set ys \<Longrightarrow> unlink_next pv' (hd_opt None ys) st q = st q"
  using assms by (cases ys; auto simp: unlink_next_def)+

lemma level_remove_eval:
  fixes l :: PriceLevel
  assumes ld: "load st p = Some ord" and pn: "o_prev ord = pv" "o_next ord = nx"
    and pv: "\<And>q. pv = Some q \<Longrightarrow> q \<noteq> p \<and> load st q \<noteq> None"
    and nx: "\<And>q. nx = Some q \<Longrightarrow> q \<noteq> p \<and> load st q \<noteq> None"
  defines "st2 \<equiv> unlink_next pv nx (unlink_prev pv nx st)"
  defines "l1 \<equiv> if pv = None then l\<lparr>head := nx\<rparr> else l"
  defines "l2 \<equiv> if nx = None then l1\<lparr>tail := pv\<rparr> else l1"
  shows "level_remove l p st
      = Some (l2\<lparr>total_qty := total_qty l - o_quantity ord\<rparr>, st2(p := LiveSlot (strip ord)))"
    and "same_data st (st2(p := LiveSlot (strip ord)))"
proof -
  define st1 where "st1 = unlink_prev pv nx st"
  have st2: "st2 = unlink_next pv nx st1"
    by (simp add: st2_def st1_def)
  have live1: "load st1 q \<noteq> None" if "load st q \<noteq> None" for q
    using that by (auto simp: st1_def unlink_prev_def load_def split: option.split)
  have ld1: "load st1 p = Some ord"
    using ld pv by (auto simp: st1_def unlink_prev_def load_def split: option.split)
  have ld2: "load st2 p = Some ord"
    using ld1 nx by (auto simp: st2 unlink_next_def load_def split: option.split)
  have m1: "mutate st q (\<lambda>x. x\<lparr>o_next := nx\<rparr>) = Some st1" if "pv = Some q" for q
    using pv [OF that] that by (auto simp: mutate_def st1_def unlink_prev_def)
  have m2: "mutate st1 q (\<lambda>x. x\<lparr>o_prev := pv\<rparr>) = Some st2" if "nx = Some q" for q
    using live1 [of q] nx [OF that] that by (auto simp: mutate_def st2 unlink_next_def)
  have n1: "pv = None \<Longrightarrow> st = st1" and n2: "nx = None \<Longrightarrow> st1 = st2"
    by (simp_all add: st1_def st2 unlink_prev_def unlink_next_def)
  have "(case o_prev ord of None \<Rightarrow> Some (l\<lparr>head := o_next ord\<rparr>, st)
      | Some q \<Rightarrow> do { st1 \<leftarrow> mutate st q (\<lambda>x. x\<lparr>o_next := o_next ord\<rparr>); Some (l, st1) })
      = Some (l1, st1)"
    using m1 n1 by (auto simp: l1_def pn split: option.split)
  moreover have "(case o_next ord of None \<Rightarrow> Some (l1\<lparr>tail := o_prev ord\<rparr>, st1)
      | Some q \<Rightarrow> do { st2 \<leftarrow> mutate st1 q (\<lambda>x. x\<lparr>o_prev := o_prev ord\<rparr>); Some (l1, st2) })
      = Some (l2, st2)"
    using m2 n2 by (auto simp: l2_def pn split: option.split)
  moreover have "total_qty l2 = total_qty l"
    by (simp add: l1_def l2_def)
  ultimately show "level_remove l p st
      = Some (l2\<lparr>total_qty := total_qty l - o_quantity ord\<rparr>, st2(p := LiveSlot (strip ord)))"
    using ld ld1 ld2 by (simp add: level_remove_def mutate_Some strip_def)
  have "same_data st st2"
    using same_data_trans [OF same_data_unlink same_data_unlink_next] pv nx live1
    unfolding st2_def st1_def by blast
  then show "same_data st (st2(p := LiveSlot (strip ord)))"
    by (rule same_data_trans) (rule same_data_upd [OF ld2], simp)
qed

lemma total_qty_remove:
  assumes rep: "level_rep st r l (xs @ p # ys)" and sd: "same_data st st'"
  shows "total_qty l - ptr_qty st p = sum_list (map (ptr_qty st') (xs @ ys))"
proof -
  have "ptr_qty st' q = ptr_qty st q" if "q \<in> set (xs @ ys)" for q
  proof -
    have "load st q \<noteq> None"
      using rep that level_rep_live by fastforce
    then show ?thesis
      using sd by (rule same_data_ptr_qty [rotated])
  qed
  then have m: "map (ptr_qty st') (xs @ ys) = map (ptr_qty st) (xs @ ys)"
    by (intro map_cong) auto
  have "total_qty l = ptr_qty st p + sum_list (map (ptr_qty st) (xs @ ys))"
    using rep by (simp add: level_rep_def algebra_simps)
  then show ?thesis
    unfolding m by simp
qed

lemma remove_rep:
  assumes rep: "level_rep st r l (xs @ p # ys)"
  obtains ord l' st' where "load st p = Some ord"
    and "level_remove l p st = Some (l', st')"
    and "level_rep st' r l' (xs @ ys)"
    and "same_data st st'"
    and "st' p = LiveSlot (strip ord)"
    and "\<And>q. q \<notin> set (xs @ p # ys) \<Longrightarrow> st' q = st q"
proof -
  let ?pv = "last_opt None xs" and ?nx = "hd_opt None ys"
  from rep obtain ord where ld: "load st p = Some ord" and pn: "o_prev ord = ?pv" "o_next ord = ?nx"
    by (auto simp: level_rep_def)
  from rep have d: "distinct xs" "distinct ys" "p \<notin> set xs" "p \<notin> set ys" "set xs \<inter> set ys = {}"
    and sx: "seg st r None xs (Some p)" and sy: "seg st r (Some p) ys None"
    by (auto simp: level_rep_def)
  define st1 where "st1 = unlink_prev ?pv ?nx st"
  define st2 where "st2 = unlink_next ?pv ?nx st1"
  define st3 where "st3 = st2(p := LiveSlot (strip ord))"
  have f1: "st1 q = st q" if "q \<notin> set xs" for q
    using seg_unlink_prev(2) [OF sx d(1) that] by (simp add: st1_def)
  have sy1: "seg st1 r (Some p) ys None"
    using sy seg_frame [of ys st1 st] f1 d(5) by (metis disjoint_iff)
  have f2: "st2 q = st1 q" if "q \<notin> set ys" for q
    using seg_unlink_next(2) [OF sy1 d(2) that] by (simp add: st2_def)
  have sx2: "seg st2 r None xs ?nx"
    using seg_unlink_prev(1) [OF sx d(1), of ?nx] seg_frame [of xs st2 st1] f2 d(5)
    by (metis disjoint_iff st1_def)
  have sy2: "seg st2 r ?pv ys None"
    using seg_unlink_next(1) [OF sy1 d(2)] by (simp add: st2_def)
  have f3: "st3 q = st2 q" if "q \<noteq> p" for q
    using that by (simp add: st3_def)
  have sg: "seg st3 r None xs ?nx" "seg st3 r ?pv ys None"
    using sx2 sy2 seg_frame [of xs st3 st2] seg_frame [of ys st3 st2] f3 d by metis+
  have pv: "q \<noteq> p \<and> load st q \<noteq> None" if "?pv = Some q" for q
    using that sx d by (cases xs rule: rev_cases) auto
  have nx: "q \<noteq> p \<and> load st q \<noteq> None" if "?nx = Some q" for q
    using that sy d by (cases ys) auto
  note ev = level_remove_eval [OF ld pn pv nx, folded st1_def, folded st2_def, folded st3_def]
  show ?thesis
  proof (rule that [OF ld ev(1) _ ev(2)])
    show "level_rep st3 r ((if ?nx = None then (if ?pv = None then l\<lparr>head := ?nx\<rparr> else l)\<lparr>tail := ?pv\<rparr>
        else if ?pv = None then l\<lparr>head := ?nx\<rparr> else l)\<lparr>total_qty := total_qty l - o_quantity ord\<rparr>) (xs @ ys)"
      using rep d sg total_qty_remove [OF rep ev(2)] ld
      by (cases ys; cases xs rule: rev_cases) (auto simp: level_rep_def ptr_qty_def)
  qed (use f1 f2 f3 in \<open>auto simp: st3_def\<close>)
qed


section \<open>Partial fill\<close>

lemma qty_add_diff: "(a + b) - c = (a - c) + (b :: Quantity)"
  by (simp add: plus_Quantity_def minus_Quantity_def algebra_simps)

lemma reduce_rep:
  assumes rep: "level_rep st r l (xs @ p # ys)" and ld: "load st p = Some ord"
  shows "level_rep (st(p := LiveSlot (ord\<lparr>o_quantity := o_quantity ord - q\<rparr>))) r
    (reduce_quantity l q) (xs @ p # ys)"
proof -
  let ?st = "st(p := LiveSlot (ord\<lparr>o_quantity := o_quantity ord - q\<rparr>))"
  have d: "p \<notin> set xs" "p \<notin> set ys"
    using rep by (auto simp: level_rep_def)
  have m: "map (ptr_qty ?st) zs = map (ptr_qty st) zs" if "p \<notin> set zs" for zs
    using that by (auto simp: ptr_qty_def load_def)
  have "sum_list (map (ptr_qty ?st) (xs @ p # ys))
      = (o_quantity ord - q) + sum_list (map (ptr_qty st) (xs @ ys))"
    unfolding map_append list.map(2) m [OF d(1)] m [OF d(2)] sum_list.append sum_list.Cons
    by (simp add: ptr_qty_def algebra_simps)
  also have "\<dots> = sum_list (map (ptr_qty st) (xs @ p # ys)) - q"
    using ld unfolding sum_list_map_append_remove qty_add_diff by (simp add: ptr_qty_def)
  finally show ?thesis
    using rep ld d by (auto simp: level_rep_def reduce_quantity_def)
qed

end
