(* ===== verification/Ordered_Map.thy ===== *)
theory Ordered_Map
  imports Core_Types
begin

text \<open>
  The parts of \<open>std::map\<close> the sources use: a map node is an entry of an association list
  kept in the order of the map's comparator. \<open>try_emplace\<close> inserts when the key is absent,
  \<open>erase_key\<close> removes, \<open>assign_key\<close> writes through a reference to a node, \<open>begin()\<close> is the
  head of the list and \<open>rbegin()\<close> its last entry; lookup is \<open>map_of\<close>.
\<close>

type_synonym ('k, 'v) omap = "('k \<times> 'v) list"

fun try_emplace :: "('k \<Rightarrow> 'k \<Rightarrow> bool) \<Rightarrow> 'k \<Rightarrow> 'v \<Rightarrow> ('k, 'v) omap \<Rightarrow> ('k, 'v) omap" where
  "try_emplace lt k v [] = [(k, v)]"
| "try_emplace lt k v ((k', v') # xs) =
     (if lt k k' then (k, v) # (k', v') # xs
      else if lt k' k then (k', v') # try_emplace lt k v xs
      else (k', v') # xs)"

definition assign_key :: "'k \<Rightarrow> 'v \<Rightarrow> ('k, 'v) omap \<Rightarrow> ('k, 'v) omap" where
  "assign_key k v xs = map (\<lambda>(k', v'). if k' = k then (k, v) else (k', v')) xs"

definition erase_key :: "'k \<Rightarrow> ('k, 'v) omap \<Rightarrow> ('k, 'v) omap" where
  "erase_key k xs = filter (\<lambda>(k', v'). k' \<noteq> k) xs"

definition keys_sorted :: "('k \<Rightarrow> 'k \<Rightarrow> bool) \<Rightarrow> ('k, 'v) omap \<Rightarrow> bool" where
  "keys_sorted lt xs \<longleftrightarrow> sorted_wrt lt (map fst xs)"

lemma keys_sorted_Nil [simp]: "keys_sorted lt []"
  by (simp add: keys_sorted_def)

lemma keys_sorted_Cons [simp]:
  "keys_sorted lt ((k, v) # xs) \<longleftrightarrow> (\<forall>k' \<in> fst ` set xs. lt k k') \<and> keys_sorted lt xs"
  by (simp add: keys_sorted_def)

lemma map_fst_assign [simp]: "map fst (assign_key k v xs) = map fst xs"
  by (induction xs) (auto simp: assign_key_def)

lemma map_fst_erase [simp]: "map fst (erase_key k xs) = filter (\<lambda>k'. k' \<noteq> k) (map fst xs)"
  by (induction xs) (auto simp: erase_key_def)

lemma keys_sorted_assign [simp]: "keys_sorted lt (assign_key k v xs) = keys_sorted lt xs"
  by (simp add: keys_sorted_def)

lemma keys_sorted_erase: "keys_sorted lt xs \<Longrightarrow> keys_sorted lt (erase_key k xs)"
  by (simp add: keys_sorted_def sorted_wrt_filter)

lemma map_of_assign:
  "map_of (assign_key k v xs) k' =
     (if k' = k then (if map_of xs k = None then None else Some v) else map_of xs k')"
  by (induction xs) (auto simp: assign_key_def)

lemma map_of_erase: "map_of (erase_key k xs) k' = (if k' = k then None else map_of xs k')"
  by (induction xs) (auto simp: erase_key_def)

text \<open>What a comparator promises: a strict linear order.\<close>

locale key_order =
  fixes lt :: "'k \<Rightarrow> 'k \<Rightarrow> bool"
  assumes lt_irrefl: "\<not> lt k k"
    and lt_trans: "lt a b \<Longrightarrow> lt b c \<Longrightarrow> lt a c"
    and lt_total: "a \<noteq> b \<Longrightarrow> lt a b \<or> lt b a"
begin

lemma fst_try_emplace: "fst ` set (try_emplace lt k v xs) = insert k (fst ` set xs)"
proof (induction xs)
  case (Cons x xs)
  then show ?case
    using lt_total [of k "fst x"] by (cases x) auto
qed simp

lemma try_emplace_sorted: "keys_sorted lt xs \<Longrightarrow> keys_sorted lt (try_emplace lt k v xs)"
proof (induction xs)
  case (Cons x xs)
  then show ?case
  proof (cases x)
    case (Pair a b)
    with Cons.prems have hd: "\<forall>k' \<in> fst ` set xs. lt a k'" and tl: "keys_sorted lt xs"
      by auto
    have "\<forall>k' \<in> fst ` set xs. lt k k'" if "lt k a"
      using hd that lt_trans by blast
    moreover have "\<forall>k' \<in> fst ` set (try_emplace lt k v xs). lt a k'" if "lt a k"
      using hd that unfolding fst_try_emplace by blast
    ultimately show ?thesis
      using Cons.IH [OF tl] hd tl by (simp add: Pair)
  qed
qed simp

lemma sorted_distinct: "keys_sorted lt xs \<Longrightarrow> distinct (map fst xs)"
  using lt_irrefl by (induction xs) fastforce+

lemma sorted_head_least:
  assumes "keys_sorted lt ((k, v) # xs)" and "map_of ((k, v) # xs) k' = Some v'"
  shows "k' = k \<or> lt k k'"
  using assms map_of_SomeD [of xs k' v'] by (auto split: if_splits)

lemma map_of_try_emplace:
  assumes "keys_sorted lt xs"
  shows "map_of (try_emplace lt k v xs) k' =
    (if k' = k then (case map_of xs k of None \<Rightarrow> Some v | Some v' \<Rightarrow> Some v') else map_of xs k')"
  using assms
proof (induction xs)
  case (Cons x xs)
  obtain a b where x: "x = (a, b)" by (cases x)
  have tl: "keys_sorted lt xs" and hd: "\<forall>k' \<in> fst ` set xs. lt a k'"
    using Cons.prems by (auto simp: x)
  consider "lt k a" | "k = a" | "lt a k" "\<not> lt k a" "k \<noteq> a"
    using lt_total lt_irrefl by metis
  then show ?case
  proof cases
    case 1
    have "k \<notin> fst ` set xs" and "k \<noteq> a"
      using hd 1 lt_irrefl lt_trans [OF 1] by auto
    then show ?thesis
      using 1 by (simp add: x map_of_eq_None_iff [THEN iffD2])
  next
    case 2
    then show ?thesis
      using lt_irrefl by (simp add: x)
  next
    case 3
    then show ?thesis
      using Cons.IH [OF tl] by (cases "k' = k") (simp_all add: x)
  qed
qed simp

lemma try_emplace_present:
  assumes "keys_sorted lt xs" and "map_of xs k \<noteq> None"
  shows "try_emplace lt k v xs = xs"
  using assms
proof (induction xs)
  case (Cons x xs)
  obtain a b where x: "x = (a, b)" by (cases x)
  from Cons.prems obtain v' where "map_of ((a, b) # xs) k = Some v'"
    unfolding x by blast
  then have "k = a \<or> lt a k"
    using Cons.prems(1) unfolding x by (rule sorted_head_least [rotated])
  then show ?case
  proof
    assume "k = a"
    then show ?thesis
      using lt_irrefl by (simp add: x)
  next
    assume lt: "lt a k"
    then have "\<not> lt k a" and "k \<noteq> a"
      using lt_trans [of a k a] lt_irrefl by auto
    moreover have "keys_sorted lt xs"
      using Cons.prems(1) by (simp add: x)
    moreover have "map_of xs k \<noteq> None"
      using Cons.prems(2) \<open>k \<noteq> a\<close> by (simp add: x)
    ultimately show ?thesis
      using Cons.IH lt by (simp add: x)
  qed
qed simp

end

text \<open>The comparator of each price tree: \<open>std::greater\<close> for bids, \<open>std::less\<close> for asks.\<close>

fun tree_lt :: "Side \<Rightarrow> Price \<Rightarrow> Price \<Rightarrow> bool" where
  "tree_lt Buy a b \<longleftrightarrow> a > b"
| "tree_lt Sell a b \<longleftrightarrow> a < b"

interpretation pt: key_order "tree_lt s" for s
proof
  show "\<not> tree_lt s k k" for k
    by (cases s) auto
  show "tree_lt s a b \<Longrightarrow> tree_lt s b c \<Longrightarrow> tree_lt s a c" for a b c
    by (cases s) auto
  show "a \<noteq> b \<Longrightarrow> tree_lt s a b \<or> tree_lt s b a" for a b
    by (cases s) auto
qed

interpretation pl: key_order "(<) :: Price \<Rightarrow> Price \<Rightarrow> bool"
  by standard auto

end
