(* ===== verification/Order_Book.thy ===== *)
theory Order_Book
  imports Price_Level Ordered_Map
begin

text \<open>
  \<^verbatim>\<open>src/orderbook/order_book.{hpp,cpp}\<close>: the two price trees, the order pool and the id index.
  A \<open>PriceLevel*\<close> is the key of its map node, so a pointer to an erased node is a key the
  tree no longer has and reading through it is \<open>None\<close>. \<open>book_rep\<close> is the representation
  invariant; \<open>resting\<close> computes the orders of a side in priority order by walking the trees
  and the links.
\<close>

section \<open>The class\<close>

type_synonym price_tree = "(Price, PriceLevel) omap"

record OrderBook =
  pool :: OrderPool
  bids :: price_tree
  asks :: price_tree
  orders :: "OrderId \<Rightarrow> order_ptr option"
  order_count :: nat

definition OrderBook_init :: "nat \<Rightarrow> OrderBook" where
  "OrderBook_init pool_capacity =
     \<lparr>pool = OrderPool_init pool_capacity, bids = [], asks = [], orders = (\<lambda>_. None), order_count = 0\<rparr>"

fun tree_of :: "OrderBook \<Rightarrow> Side \<Rightarrow> price_tree" where
  "tree_of b Buy = bids b"
| "tree_of b Sell = asks b"

fun set_tree :: "OrderBook \<Rightarrow> Side \<Rightarrow> price_tree \<Rightarrow> OrderBook" where
  "set_tree b Buy t = b\<lparr>bids := t\<rparr>"
| "set_tree b Sell t = b\<lparr>asks := t\<rparr>"

abbreviation mem :: "OrderBook \<Rightarrow> storage" where
  "mem b \<equiv> storage (pool b)"

definition set_mem :: "OrderBook \<Rightarrow> storage \<Rightarrow> OrderBook" where
  "set_mem b st = b\<lparr>pool := (pool b)\<lparr>storage := st\<rparr>\<rparr>"

text \<open>Reading and writing through a \<open>PriceLevel*\<close>.\<close>

definition level_at :: "OrderBook \<Rightarrow> level_ref \<Rightarrow> PriceLevel option" where
  "level_at b r = map_of (tree_of b (fst r)) (snd r)"

definition set_level :: "OrderBook \<Rightarrow> level_ref \<Rightarrow> PriceLevel \<Rightarrow> OrderBook" where
  "set_level b r l = set_tree b (fst r) (assign_key (snd r) l (tree_of b (fst r)))"

definition add_order :: "OrderBook \<Rightarrow> Order \<Rightarrow> (order_ptr option \<times> OrderBook) option" where
  "add_order b order_data =
     (case acquire (pool b) of
        (None, P) \<Rightarrow> Some (None, b\<lparr>pool := P\<rparr>)
      | (Some slot, P) \<Rightarrow> do {
          let b1 = b\<lparr>pool := construct P slot order_data\<rparr>;
          ord \<leftarrow> load (mem b1) slot;
          let price = o_price ord;
          let side = o_side ord;
          let id = o_id ord;
          let b2 = (case orders b1 id of
              None \<Rightarrow> b1\<lparr>orders := (orders b1)(id := Some slot)\<rparr>
            | Some _ \<Rightarrow> b1);
          let b3 = set_tree b2 side
            (try_emplace (tree_lt side) price (PriceLevel_init price) (tree_of b2 side));
          l \<leftarrow> level_at b3 (side, price);
          (l', st') \<leftarrow> push_back (side, price) l slot (mem b3);
          let b4 = set_mem (set_level b3 (side, price) l') st';
          Some (Some slot, b4\<lparr>order_count := order_count b4 + 1\<rparr>)
        })"

definition remove_order :: "OrderBook \<Rightarrow> order_ptr \<Rightarrow> OrderBook option" where
  "remove_order b order = do {
     ord \<leftarrow> load (mem b) order;
     level \<leftarrow> o_level ord;
     let price = o_price ord;
     let side = o_side ord;
     l \<leftarrow> level_at b level;
     (l', st') \<leftarrow> level_remove l order (mem b);
     let b1 = set_mem (set_level b level l') st';
     l1 \<leftarrow> level_at b1 level;
     let b2 = (if level_empty l1 then set_tree b1 side (erase_key price (tree_of b1 side)) else b1);
     ord' \<leftarrow> load (mem b2) order;
     let b3 = b2\<lparr>orders := (orders b2)(o_id ord' := None)\<rparr>;
     let b4 = b3\<lparr>pool := release (pool b3) order\<rparr>;
     Some (b4\<lparr>order_count := order_count b4 - 1\<rparr>)
   }"

definition find_order :: "OrderBook \<Rightarrow> OrderId \<Rightarrow> order_ptr option" where
  "find_order b i = orders b i"

definition best_bid :: "OrderBook \<Rightarrow> level_ref option" where
  "best_bid b = (case bids b of [] \<Rightarrow> None | (k, l) # _ \<Rightarrow> Some (Buy, k))"

definition best_ask :: "OrderBook \<Rightarrow> level_ref option" where
  "best_ask b = (case asks b of [] \<Rightarrow> None | (k, l) # _ \<Rightarrow> Some (Sell, k))"

definition pool_available :: "OrderBook \<Rightarrow> nat" where
  "pool_available b = available (pool b)"


section \<open>Projections\<close>

lemma tree_of_set_tree [simp]: "tree_of (set_tree b s t) s' = (if s' = s then t else tree_of b s')"
  by (cases s; cases s') auto

lemma set_tree_sel [simp]:
  "pool (set_tree b s t) = pool b" "orders (set_tree b s t) = orders b"
  "order_count (set_tree b s t) = order_count b"
  by (cases s; simp)+

lemma set_mem_sel [simp]:
  "mem (set_mem b st) = st" "orders (set_mem b st) = orders b"
  "order_count (set_mem b st) = order_count b" "tree_of (set_mem b st) s = tree_of b s"
  "pool (set_mem b st) = (pool b)\<lparr>storage := st\<rparr>"
  by (cases s; simp add: set_mem_def)+

lemma tree_of_upd [simp]:
  "tree_of (b\<lparr>pool := P\<rparr>) s = tree_of b s" "tree_of (b\<lparr>orders := f\<rparr>) s = tree_of b s"
  "tree_of (b\<lparr>order_count := n\<rparr>) s = tree_of b s"
  by (cases s; simp)+

lemma level_at_upd [simp]:
  "level_at (b\<lparr>pool := P\<rparr>) r = level_at b r" "level_at (b\<lparr>orders := f\<rparr>) r = level_at b r"
  "level_at (b\<lparr>order_count := n\<rparr>) r = level_at b r" "level_at (set_mem b st) r = level_at b r"
  by (simp_all add: level_at_def)

lemma set_level_sel [simp]:
  "pool (set_level b r l) = pool b" "orders (set_level b r l) = orders b"
  "order_count (set_level b r l) = order_count b"
  "map fst (tree_of (set_level b r l) s) = map fst (tree_of b s)"
  "keys_sorted lt (tree_of (set_level b r l) s) = keys_sorted lt (tree_of b s)"
  by (simp_all add: set_level_def)

lemma map_of_set_level:
  "map_of (tree_of (set_level b (s, k) l) s') k' =
     (if (s', k') = (s, k) \<and> map_of (tree_of b s) k \<noteq> None then Some l
      else map_of (tree_of b s') k')"
  by (auto simp: set_level_def map_of_assign)

lemma level_at_set_level [simp]:
  "level_at b r \<noteq> None \<Longrightarrow> level_at (set_level b r l) r = Some l"
  by (cases r) (simp add: level_at_def map_of_set_level)


section \<open>The orders of a side\<close>

text \<open>Following the \<open>next\<close> links from a pointer, at most \<open>n\<close> times.\<close>

fun walk :: "nat \<Rightarrow> storage \<Rightarrow> order_ptr option \<Rightarrow> order_ptr list" where
  "walk 0 st p = []"
| "walk (Suc n) st None = []"
| "walk (Suc n) st (Some p) =
     p # (case load st p of None \<Rightarrow> [] | Some ord \<Rightarrow> walk n st (o_next ord))"

definition level_ptrs :: "OrderBook \<Rightarrow> PriceLevel \<Rightarrow> order_ptr list" where
  "level_ptrs b l = walk (capacity (pool b)) (mem b) (head l)"

definition resting_ptrs :: "OrderBook \<Rightarrow> Side \<Rightarrow> order_ptr list" where
  "resting_ptrs b s = concat (map (\<lambda>(k, l). level_ptrs b l) (tree_of b s))"

definition order_at :: "OrderBook \<Rightarrow> order_ptr \<Rightarrow> Order" where
  "order_at b p = strip (the (load (mem b) p))"

definition resting :: "OrderBook \<Rightarrow> Side \<Rightarrow> Order list" where
  "resting b s = map (order_at b) (resting_ptrs b s)"

lemma seg_walk:
  "seg st r pv ps None \<Longrightarrow> length ps \<le> n \<Longrightarrow> walk n st (hd_opt None ps) = ps"
proof (induction ps arbitrary: pv n)
  case Nil
  then show ?case by (cases n) auto
next
  case (Cons p ps)
  then show ?case by (cases n) auto
qed

lemma walk_cong:
  assumes "\<And>q. map_option o_next (load st' q) = map_option o_next (load st q)"
  shows "walk n st' p = walk n st p"
proof (induction n arbitrary: p)
  case (Suc n)
  show ?case
  proof (cases p)
    case (Some q)
    then show ?thesis
      using assms [of q] Suc by (cases "load st q"; cases "load st' q") auto
  qed simp
qed simp


section \<open>Representation invariant\<close>

text \<open>
  \<open>Q s k\<close> are the slots of the orders resting at price \<open>k\<close> of side \<open>s\<close>, oldest first. The
  index may miss resting orders (\<open>emplace\<close> does nothing when two clients use one id), but
  an entry it has points to a resting order with that id.
\<close>

type_synonym queues = "Side \<Rightarrow> Price \<Rightarrow> order_ptr list"

definition levels_ok :: "OrderBook \<Rightarrow> queues \<Rightarrow> bool" where
  "levels_ok b Q \<longleftrightarrow> (\<forall>s k. case map_of (tree_of b s) k of
       None \<Rightarrow> Q s k = []
     | Some l \<Rightarrow> Q s k \<noteq> [] \<and> level_rep (mem b) (s, k) l (Q s k))"

definition keyed_ok :: "OrderBook \<Rightarrow> queues \<Rightarrow> bool" where
  "keyed_ok b Q \<longleftrightarrow> (\<forall>s k. \<forall>p \<in> set (Q s k).
     \<exists>ord. load (mem b) p = Some ord \<and> o_side ord = s \<and> o_price ord = k)"

definition index_ok :: "OrderBook \<Rightarrow> queues \<Rightarrow> bool" where
  "index_ok b Q \<longleftrightarrow> (\<forall>id p. orders b id = Some p \<longrightarrow>
     (\<exists>s k. p \<in> set (Q s k)) \<and> o_id (order_at b p) = id)"

definition slots_ok :: "OrderBook \<Rightarrow> queues \<Rightarrow> bool" where
  "slots_ok b Q \<longleftrightarrow> pool_ok (pool b) \<and>
     {p. \<exists>s k. p \<in> set (Q s k)} = {..<capacity (pool b)} - free_slots (pool b) \<and>
     order_count b + available (pool b) = capacity (pool b)"

definition book_rep :: "OrderBook \<Rightarrow> queues \<Rightarrow> bool" where
  "book_rep b Q \<longleftrightarrow> (\<forall>s. keys_sorted (tree_lt s) (tree_of b s)) \<and>
     levels_ok b Q \<and> keyed_ok b Q \<and> index_ok b Q \<and> slots_ok b Q"

lemma book_rep_init: "book_rep (OrderBook_init cap) (\<lambda>_ _. [])"
proof -
  have t: "tree_of (OrderBook_init cap) s = []" for s
    by (cases s) (simp_all add: OrderBook_init_def)
  have "slots_ok (OrderBook_init cap) (\<lambda>_ _. [])"
    using pool_ok_init free_slots_init [of cap]
    by (simp add: slots_ok_def OrderBook_init_def OrderPool_init_def available_def)
  then show ?thesis
    by (simp add: book_rep_def t levels_ok_def keyed_ok_def index_ok_def)
      (simp add: OrderBook_init_def)
qed

lemma rep_sorted: "book_rep b Q \<Longrightarrow> keys_sorted (tree_lt s) (tree_of b s)"
  by (simp add: book_rep_def)

lemma rep_queue:
  assumes "book_rep b Q" and "Q s k \<noteq> []"
  obtains l where "map_of (tree_of b s) k = Some l" and "level_rep (mem b) (s, k) l (Q s k)"
proof -
  have "case map_of (tree_of b s) k of None \<Rightarrow> Q s k = []
      | Some l \<Rightarrow> Q s k \<noteq> [] \<and> level_rep (mem b) (s, k) l (Q s k)"
    using assms(1) by (simp add: book_rep_def levels_ok_def)
  then show ?thesis
    using assms(2) that by (auto split: option.splits)
qed

lemma rep_level:
  assumes "book_rep b Q" and "map_of (tree_of b s) k = Some l"
  shows "Q s k \<noteq> []" and "level_rep (mem b) (s, k) l (Q s k)"
proof -
  have "case map_of (tree_of b s) k of None \<Rightarrow> Q s k = []
      | Some l \<Rightarrow> Q s k \<noteq> [] \<and> level_rep (mem b) (s, k) l (Q s k)"
    using assms(1) by (simp add: book_rep_def levels_ok_def)
  then show "Q s k \<noteq> []" and "level_rep (mem b) (s, k) l (Q s k)"
    using assms(2) by auto
qed

lemma rep_order:
  assumes "book_rep b Q" and "p \<in> set (Q s k)"
  obtains ord where "load (mem b) p = Some ord" and "o_side ord = s" and "o_price ord = k"
    and "o_level ord = Some (s, k)"
proof -
  have "Q s k \<noteq> []" using assms(2) by auto
  then obtain l where "level_rep (mem b) (s, k) l (Q s k)"
    using assms(1) rep_queue by metis
  then obtain ord where ord: "load (mem b) p = Some ord" "o_level ord = Some (s, k)"
    using assms(2) level_rep_live by blast
  moreover have "\<exists>ord. load (mem b) p = Some ord \<and> o_side ord = s \<and> o_price ord = k"
    using assms by (simp add: book_rep_def keyed_ok_def)
  ultimately show ?thesis
    using that by auto
qed

lemma rep_disjoint:
  assumes "book_rep b Q" and "p \<in> set (Q s k)" and "p \<in> set (Q s' k')"
  shows "s' = s" and "k' = k"
  using rep_order [OF assms(1,2)] rep_order [OF assms(1,3)] by (metis option.inject)+

lemma rep_slot:
  assumes "book_rep b Q" and "p \<in> set (Q s k)"
  shows "p < capacity (pool b)" and "p \<notin> free_slots (pool b)"
  using assms unfolding book_rep_def slots_ok_def by blast+

lemma rep_free:
  assumes "book_rep b Q" and "p \<in> free_slots (pool b)"
  shows "p \<notin> set (Q s k)"
  using assms unfolding book_rep_def slots_ok_def by blast

lemma rep_distinct:
  assumes "book_rep b Q"
  shows "distinct (Q s k)"
proof (cases "Q s k = []")
  case False
  with assms obtain l where "level_rep (mem b) (s, k) l (Q s k)"
    using rep_queue by metis
  then show ?thesis by (simp add: level_rep_def)
qed simp

lemma rep_length:
  assumes "book_rep b Q"
  shows "length (Q s k) \<le> capacity (pool b)"
  using rep_distinct [OF assms] rep_slot(1) [OF assms] by (intro card_le_of_distinct) auto

lemma rep_level_ptrs:
  assumes "book_rep b Q" and "map_of (tree_of b s) k = Some l"
  shows "level_ptrs b l = Q s k"
proof -
  have "seg (mem b) (s, k) None (Q s k) None" and "head l = hd_opt None (Q s k)"
    using rep_level(2) [OF assms] by (auto simp: level_rep_def)
  then show ?thesis
    using seg_walk rep_length [OF assms(1)] by (simp add: level_ptrs_def)
qed

text \<open>The queues are determined by the book, so the invariant can speak of the book alone.\<close>

definition queue :: "OrderBook \<Rightarrow> queues" where
  "queue b s k = (case map_of (tree_of b s) k of None \<Rightarrow> [] | Some l \<Rightarrow> level_ptrs b l)"

definition book_ok :: "OrderBook \<Rightarrow> bool" where
  "book_ok b \<longleftrightarrow> book_rep b (queue b)"

lemma rep_queue_eq:
  assumes "book_rep b Q"
  shows "Q = queue b"
proof (intro ext)
  fix s k
  show "Q s k = queue b s k"
  proof (cases "map_of (tree_of b s) k")
    case None
    then have "Q s k = []"
      using rep_queue [OF assms, of s k] by fastforce
    with None show ?thesis by (simp add: queue_def)
  next
    case (Some l)
    then show ?thesis
      using rep_level_ptrs [OF assms Some] by (simp add: queue_def)
  qed
qed

lemma book_rep_ok: "book_rep b Q \<Longrightarrow> book_ok b"
  using rep_queue_eq unfolding book_ok_def by metis

lemma rep_resting_ptrs:
  assumes "book_rep b Q"
  shows "resting_ptrs b s = concat (map (Q s) (map fst (tree_of b s)))"
proof -
  have "level_ptrs b l = Q s k" if "(k, l) \<in> set (tree_of b s)" for k l
  proof (rule rep_level_ptrs [OF assms])
    show "map_of (tree_of b s) k = Some l"
      using that pt.sorted_distinct [OF rep_sorted [OF assms]] by (simp add: map_of_is_SomeI)
  qed
  then show ?thesis
    unfolding resting_ptrs_def map_map by (intro concat_map_cong) auto
qed

lemma rep_set_resting:
  assumes "book_rep b Q"
  shows "set (resting_ptrs b s) = (\<Union>k. set (Q s k))"
proof -
  have "p \<in> (\<Union>k \<in> fst ` set (tree_of b s). set (Q s k))" if "p \<in> set (Q s k)" for p k
  proof -
    from that have "Q s k \<noteq> []" by auto
    with assms obtain l where "map_of (tree_of b s) k = Some l"
      using rep_queue by metis
    then have "k \<in> fst ` set (tree_of b s)"
      by (metis map_of_eq_None_iff option.discI)
    with that show ?thesis by blast
  qed
  then show ?thesis
    unfolding rep_resting_ptrs [OF assms] by auto
qed

lemma rep_resting_distinct:
  assumes "book_rep b Q"
  shows "distinct (resting_ptrs b s)"
proof -
  have "distinct (concat (map (Q s) ks))" if "distinct ks" for ks
    using that
  proof (induction ks)
    case (Cons k ks)
    have "set (Q s k) \<inter> set (Q s k') = {}" if "k' \<in> set ks" for k'
      using that Cons.prems rep_disjoint(2) [OF assms] by fastforce
    then show ?case
      using Cons rep_distinct [OF assms] by auto
  qed simp
  then show ?thesis
    unfolding rep_resting_ptrs [OF assms]
    using pt.sorted_distinct [OF rep_sorted [OF assms]] .
qed

lemma rep_order_at:
  assumes "book_rep b Q" and "p \<in> set (Q s k)"
  shows "o_side (order_at b p) = s" and "o_price (order_at b p) = k"
  using rep_order [OF assms] by (metis order_at_def option.sel strip_sel)+


section \<open>Changing one queue\<close>

text \<open>
  Every operation changes the queue of one level and leaves the others alone: the shared
  part of the three invariant proofs below.
\<close>

definition others_same :: "OrderBook \<Rightarrow> OrderBook \<Rightarrow> queues \<Rightarrow> level_ref \<Rightarrow> bool" where
  "others_same b b' Q r \<longleftrightarrow> (\<forall>s k. (s, k) \<noteq> r \<longrightarrow>
     map_of (tree_of b' s) k = map_of (tree_of b s) k \<and> (\<forall>q \<in> set (Q s k). mem b' q = mem b q))"

lemma levels_ok_change:
  assumes "levels_ok b Q" and "others_same b b' Q (s, k)"
    and "\<And>s' k'. (s', k') \<noteq> (s, k) \<Longrightarrow> Q' s' k' = Q s' k'"
    and "case map_of (tree_of b' s) k of None \<Rightarrow> Q' s k = []
      | Some l \<Rightarrow> Q' s k \<noteq> [] \<and> level_rep (mem b') (s, k) l (Q' s k)"
  shows "levels_ok b' Q'"
  unfolding levels_ok_def
proof (intro allI)
  fix s' k'
  show "case map_of (tree_of b' s') k' of None \<Rightarrow> Q' s' k' = []
      | Some l \<Rightarrow> Q' s' k' \<noteq> [] \<and> level_rep (mem b') (s', k') l (Q' s' k')"
  proof (cases "(s', k') = (s, k)")
    case True
    then show ?thesis using assms(4) by auto
  next
    case False
    then have eq: "map_of (tree_of b' s') k' = map_of (tree_of b s') k'"
      and fr: "\<And>q. q \<in> set (Q s' k') \<Longrightarrow> mem b' q = mem b q" and Q: "Q' s' k' = Q s' k'"
      using assms(2,3) by (auto simp: others_same_def)
    have "case map_of (tree_of b s') k' of None \<Rightarrow> Q s' k' = []
        | Some l \<Rightarrow> Q s' k' \<noteq> [] \<and> level_rep (mem b) (s', k') l (Q s' k')"
      using assms(1) by (simp add: levels_ok_def)
    then show ?thesis
      unfolding eq Q using level_rep_frame [OF _ fr] by (auto split: option.splits)
  qed
qed

text \<open>Two books that hold the same orders, up to links, in the given slots.\<close>

definition data_same :: "OrderBook \<Rightarrow> OrderBook \<Rightarrow> order_ptr \<Rightarrow> bool" where
  "data_same b b' q \<longleftrightarrow> map_option strip (load (mem b') q) = map_option strip (load (mem b) q)"

lemma data_same_order_at: "data_same b b' q \<Longrightarrow> load (mem b) q \<noteq> None \<Longrightarrow> order_at b' q = order_at b q"
  unfolding data_same_def order_at_def
  by (cases "load (mem b) q"; cases "load (mem b') q") auto

text \<open>The fields the trees and the index are keyed by.\<close>

definition order_key :: "Order \<Rightarrow> OrderId \<times> Side \<times> Price" where
  "order_key ord = (o_id ord, o_side ord, o_price ord)"

definition key_same :: "OrderBook \<Rightarrow> OrderBook \<Rightarrow> order_ptr \<Rightarrow> bool" where
  "key_same b b' q \<longleftrightarrow> map_option order_key (load (mem b') q) = map_option order_key (load (mem b) q)"

lemma order_key_strip [simp]: "order_key (strip ord) = order_key ord"
  by (simp add: order_key_def)

lemma data_same_key: "data_same b b' q \<Longrightarrow> key_same b b' q"
  unfolding data_same_def key_same_def
  by (cases "load (mem b) q"; cases "load (mem b') q") (auto, metis order_key_strip)

lemma keyed_ok_change:
  assumes rep: "book_rep b Q"
    and q: "\<And>s k q. q \<in> set (Q' s k) \<Longrightarrow> q \<in> set (Q s k) \<and> key_same b b' q"
  shows "keyed_ok b' Q'"
  unfolding keyed_ok_def
proof (intro allI ballI)
  fix s k p assume "p \<in> set (Q' s k)"
  then have p: "p \<in> set (Q s k)" and ks: "key_same b b' p" using q by auto
  from rep_order [OF rep p] obtain ord where "load (mem b) p = Some ord" "o_side ord = s" "o_price ord = k" .
  with ks show "\<exists>ord. load (mem b') p = Some ord \<and> o_side ord = s \<and> o_price ord = k"
    by (auto simp: key_same_def order_key_def)
qed

lemma index_ok_change:
  assumes rep: "book_rep b Q"
    and i: "\<And>i p. orders b' i = Some p \<Longrightarrow> orders b i = Some p \<and> key_same b b' p"
    and q: "\<And>i s k p. orders b' i = Some p \<Longrightarrow> p \<in> set (Q s k) \<Longrightarrow> p \<in> set (Q' s k)"
  shows "index_ok b' Q'"
  unfolding index_ok_def
proof (intro allI impI)
  fix i p assume p: "orders b' i = Some p"
  then have ob: "orders b i = Some p" and ks: "key_same b b' p" using i by auto
  from ob rep obtain s k where Q: "p \<in> set (Q s k)" and oi: "o_id (order_at b p) = i"
    unfolding book_rep_def index_ok_def by blast
  from rep_order [OF rep Q] obtain ord where "load (mem b) p = Some ord" .
  then have "o_id (order_at b' p) = i"
    using ks oi by (auto simp: key_same_def order_key_def order_at_def)
  with q [OF p Q] show "(\<exists>s k. p \<in> set (Q' s k)) \<and> o_id (order_at b' p) = i" by blast
qed


section \<open>Removing an order\<close>

lemma remove_order_eval:
  assumes rep: "book_rep b Q" and p: "Q s k = xs @ p # ys"
  obtains l' st' ord where
    "remove_order b p = Some
      ((if xs @ ys = [] then set_tree (set_mem (set_level b (s, k) l') st') s
          (erase_key k (tree_of (set_mem (set_level b (s, k) l') st') s))
        else set_mem (set_level b (s, k) l') st')
       \<lparr>orders := (orders b)(o_id (order_at b p) := None),
        pool := release ((pool b)\<lparr>storage := st'\<rparr>) p,
        order_count := order_count b - 1\<rparr>)"
    and "level_rep st' (s, k) l' (xs @ ys)"
    and "same_data (mem b) st'" and "\<And>q. q \<notin> set (Q s k) \<Longrightarrow> st' q = mem b q"
    and "level_at b (s, k) \<noteq> None" and "load (mem b) p = Some ord"
proof -
  have mem: "p \<in> set (Q s k)" using p by simp
  obtain l where l: "map_of (tree_of b s) k = Some l" and lr: "level_rep (mem b) (s, k) l (xs @ p # ys)"
    using rep_queue [OF rep, of s k] p by auto
  obtain ord where ord: "load (mem b) p = Some ord" "o_side ord = s" "o_price ord = k"
    "o_level ord = Some (s, k)"
    using rep_order [OF rep mem] .
  obtain ord0 l' st' where r: "load (mem b) p = Some ord0"
    "level_remove l p (mem b) = Some (l', st')" "level_rep st' (s, k) l' (xs @ ys)"
    "same_data (mem b) st'" "st' p = LiveSlot (strip ord0)"
    "\<And>q. q \<notin> set (xs @ p # ys) \<Longrightarrow> st' q = mem b q"
    by (rule remove_rep [OF lr]) (rule that)
  have la: "level_at b (s, k) = Some l"
    using l by (simp add: level_at_def)
  have ld': "load st' p = Some (strip ord)"
    using r(1,5) ord(1) by (simp add: load_def)
  have la': "level_at (set_level b (s, k) l') (s, k) = Some l'"
    by (rule level_at_set_level) (simp add: la)
  have em: "level_empty l' \<longleftrightarrow> xs @ ys = []"
    by (rule level_rep_empty [OF r(3)])
  have id: "o_id (order_at b p) = o_id ord"
    using ord by (simp add: order_at_def)
  show ?thesis
  proof (rule that [OF _ r(3,4) _ _ ord(1)])
    show "remove_order b p = Some
      ((if xs @ ys = [] then set_tree (set_mem (set_level b (s, k) l') st') s
          (erase_key k (tree_of (set_mem (set_level b (s, k) l') st') s))
        else set_mem (set_level b (s, k) l') st')
       \<lparr>orders := (orders b)(o_id (order_at b p) := None),
        pool := release ((pool b)\<lparr>storage := st'\<rparr>) p,
        order_count := order_count b - 1\<rparr>)"
      using ord la r(2) la' em ld' id by (simp add: remove_order_def Let_def)
  qed (use r(6) p la in auto)
qed

definition drop_ptr :: "order_ptr \<Rightarrow> queues \<Rightarrow> queues" where
  "drop_ptr p Q s k = filter (\<lambda>q. q \<noteq> p) (Q s k)"

lemma slots_ok_release:
  assumes rep: "book_rep b Q" and p: "p \<in> set (Q s k)"
    and fr: "\<And>q. q \<notin> set (Q s k) \<Longrightarrow> st' q = mem b q"
    and b': "pool b' = release ((pool b)\<lparr>storage := st'\<rparr>) p" "order_count b' = order_count b - 1"
  shows "slots_ok b' (drop_ptr p Q)"
    and "available (pool b') = Suc (available (pool b))" and "capacity (pool b') = capacity (pool b)"
proof -
  let ?P = "(pool b)\<lparr>storage := st'\<rparr>"
  have ok: "pool_ok (pool b)"
    and held: "{p. \<exists>s k. p \<in> set (Q s k)} = {..<capacity (pool b)} - free_slots (pool b)"
    and cnt: "order_count b + available (pool b) = capacity (pool b)"
    using rep by (auto simp: book_rep_def slots_ok_def)
  have f: "q \<in> free_slots (pool b) \<Longrightarrow> st' q = mem b q" for q
    using fr rep_free [OF rep] by blast
  have P: "pool_ok ?P" "free_slots ?P = free_slots (pool b)"
    using pool_frame [OF ok f] by auto
  have pc: "p < capacity ?P" "p \<notin> free_slots ?P"
    using rep_slot [OF rep p] P by auto
  note rel = op.rel_ok [OF P(1) pc] op.rel_avail [OF P(1) pc]
  show av: "available (pool b') = Suc (available (pool b))" and "capacity (pool b') = capacity (pool b)"
    using rel b' by (auto simp: available_def)
  have "{q. \<exists>s k. q \<in> set (drop_ptr p Q s k)} = {q. \<exists>s k. q \<in> set (Q s k)} - {p}"
    by (auto simp: drop_ptr_def)
  moreover have "0 < order_count b"
  proof -
    have fin: "finite (free_slots (pool b))"
      using op.free_bound [OF ok] finite_subset by blast
    have "card (free_slots (pool b)) < card {..<capacity (pool b)}"
      by (rule psubset_card_mono) (use pc P op.free_bound [OF ok] in auto)
    then show ?thesis
      using cnt op.avail_free [OF ok] by simp
  qed
  ultimately show "slots_ok b' (drop_ptr p Q)"
    using rel b' held P cnt av by (auto simp: slots_ok_def)
qed

lemma remove_order_rep:
  assumes rep: "book_rep b Q" and p: "p \<in> set (Q s k)"
  obtains b' where "remove_order b p = Some b'" and "book_rep b' (drop_ptr p Q)"
    and "\<And>q. q \<noteq> p \<Longrightarrow> data_same b b' q"
    and "orders b' = (orders b)(o_id (order_at b p) := None)"
    and "capacity (pool b') = capacity (pool b)"
    and "available (pool b') = Suc (available (pool b))"
    and "order_count b' = order_count b - 1"
    and "\<And>s'. \<exists>P. map fst (tree_of b' s') = filter P (map fst (tree_of b s'))"
proof -
  from p obtain xs ys where Q: "Q s k = xs @ p # ys" by (rule in_set_split)
  obtain l' st' ord where ev: "remove_order b p = Some
      ((if xs @ ys = [] then set_tree (set_mem (set_level b (s, k) l') st') s
          (erase_key k (tree_of (set_mem (set_level b (s, k) l') st') s))
        else set_mem (set_level b (s, k) l') st')
       \<lparr>orders := (orders b)(o_id (order_at b p) := None),
        pool := release ((pool b)\<lparr>storage := st'\<rparr>) p,
        order_count := order_count b - 1\<rparr>)" (is "_ = Some ?b'")
    and lr: "level_rep st' (s, k) l' (xs @ ys)"
    and sd: "same_data (mem b) st'" and fr: "\<And>q. q \<notin> set (Q s k) \<Longrightarrow> st' q = mem b q"
    and la: "level_at b (s, k) \<noteq> None" and ld: "load (mem b) p = Some ord"
    by (rule remove_order_eval [OF rep Q]) (rule that)
  have pl: "pool ?b' = release ((pool b)\<lparr>storage := st'\<rparr>) p"
    and oc: "order_count ?b' = order_count b - 1" by simp_all
  have m: "mem ?b' q = st' q" if "q \<noteq> p" for q
    using that by (simp add: release_def)
  have tr: "map_of (tree_of ?b' s') k' = (if (s', k') = (s, k) then (if xs @ ys = [] then None else Some l')
      else map_of (tree_of b s') k')" for s' k'
    using la by (auto simp: level_at_def map_of_erase map_of_set_level)
  have d: "distinct (xs @ p # ys)"
    using rep_distinct [OF rep, of s k] Q by simp
  have dq: "drop_ptr p Q s k = xs @ ys"
    using d by (auto simp: drop_ptr_def Q filter_id_conv)
  have other: "p \<notin> set (Q s' k')" if "(s', k') \<noteq> (s, k)" for s' k'
    using that rep_disjoint [OF rep p] by blast
  have dqo: "drop_ptr p Q s' k' = Q s' k'" if "(s', k') \<noteq> (s, k)" for s' k'
    using other [OF that] by (auto simp: drop_ptr_def filter_id_conv)
  have ds: "data_same b ?b' q" if "q \<noteq> p" for q
    using sd m [OF that] by (auto simp: data_same_def same_data_def load_def)
  have "keys_sorted (tree_lt s') (tree_of ?b' s')" for s'
    using rep_sorted [OF rep, of s'] by (auto intro: keys_sorted_erase)
  moreover have "levels_ok ?b' (drop_ptr p Q)"
  proof (rule levels_ok_change)
    show "levels_ok b Q" using rep by (simp add: book_rep_def)
    show "others_same b ?b' Q (s, k)"
      unfolding others_same_def
    proof (intro allI impI)
      fix s' k' assume ne: "(s', k') \<noteq> (s, k)"
      then have "q \<noteq> p \<and> q \<notin> set (Q s k)" if "q \<in> set (Q s' k')" for q
        using that other [OF ne] rep_disjoint [OF rep that] by blast
      then show "map_of (tree_of ?b' s') k' = map_of (tree_of b s') k' \<and>
          (\<forall>q \<in> set (Q s' k'). mem ?b' q = mem b q)"
        using ne tr m fr by metis
    qed
    have "level_rep (mem ?b') (s, k) l' (xs @ ys)"
      using lr by (rule level_rep_frame) (rule m, use d in auto)
    then show "case map_of (tree_of ?b' s) k of None \<Rightarrow> drop_ptr p Q s k = []
        | Some l \<Rightarrow> drop_ptr p Q s k \<noteq> [] \<and> level_rep (mem ?b') (s, k) l (drop_ptr p Q s k)"
      unfolding tr dq by simp
  qed (rule dqo)
  moreover have "keyed_ok ?b' (drop_ptr p Q)"
    by (rule keyed_ok_change [OF rep]) (use ds data_same_key in \<open>auto simp: drop_ptr_def\<close>)
  moreover have "index_ok ?b' (drop_ptr p Q)"
  proof (rule index_ok_change [OF rep])
    fix i q assume "orders ?b' i = Some q"
    then have i: "orders b i = Some q" "i \<noteq> o_id (order_at b p)" by (auto split: if_splits)
    then have "q \<noteq> p"
      using rep unfolding book_rep_def index_ok_def by blast
    with i show "orders b i = Some q \<and> key_same b ?b' q"
      using data_same_key [OF ds] by blast
    from \<open>q \<noteq> p\<close> show "q \<in> set (Q s k) \<Longrightarrow> q \<in> set (drop_ptr p Q s k)" for s k
      by (simp add: drop_ptr_def)
  qed
  moreover note sl = slots_ok_release [OF rep p fr pl oc]
  ultimately have "book_rep ?b' (drop_ptr p Q)"
    by (simp add: book_rep_def)
  moreover have "\<exists>P. map fst (tree_of ?b' s') = filter P (map fst (tree_of b s'))" for s'
    by (cases "s' = s \<and> xs @ ys = []") (auto intro: exI [of _ "\<lambda>_. True"])
  ultimately show ?thesis
    using that [OF ev] ds sl oc by auto
qed

lemma filter_concat_map: "filter P (concat (map f xs)) = concat (map (\<lambda>x. filter P (f x)) xs)"
  by (induction xs) auto

lemma concat_map_filter_Nil:
  "(\<And>x. x \<in> set xs \<Longrightarrow> \<not> R x \<Longrightarrow> f x = []) \<Longrightarrow> concat (map f (filter R xs)) = concat (map f xs)"
  by (induction xs) auto

lemma rep_no_key:
  assumes "book_rep b Q" and "k \<notin> fst ` set (tree_of b s)"
  shows "Q s k = []"
  using assms rep_queue [OF assms(1), of s k] map_of_eq_None_iff [of "tree_of b s" k] by fastforce

lemma remove_order_resting:
  assumes rep: "book_rep b Q" and rep': "book_rep b' (drop_ptr p Q)"
    and keys: "map fst (tree_of b' s) = filter R (map fst (tree_of b s))"
  shows "resting_ptrs b' s = filter (\<lambda>q. q \<noteq> p) (resting_ptrs b s)"
proof -
  have "drop_ptr p Q s k = []" if "k \<in> fst ` set (tree_of b s)" "\<not> R k" for k
  proof (rule rep_no_key [OF rep'])
    have "fst ` set (tree_of b' s) = set (filter R (map fst (tree_of b s)))"
      using keys by (metis set_map)
    with that show "k \<notin> fst ` set (tree_of b' s)" by simp
  qed
  then have "concat (map (drop_ptr p Q s) (map fst (tree_of b' s)))
      = concat (map (drop_ptr p Q s) (map fst (tree_of b s)))"
    unfolding keys by (intro concat_map_filter_Nil) auto
  then show ?thesis
    unfolding rep_resting_ptrs [OF rep] rep_resting_ptrs [OF rep'] filter_concat_map
    by (simp add: drop_ptr_def [abs_def])
qed

text \<open>What a client of the book relies on when it removes a resting order.\<close>

lemma remove_order_ok:
  assumes ok: "book_ok b" and p: "p \<in> set (resting_ptrs b s)"
  obtains b' where "remove_order b p = Some b'" and "book_ok b'"
    and "\<And>s. resting_ptrs b' s = filter (\<lambda>q. q \<noteq> p) (resting_ptrs b s)"
    and "\<And>s q. q \<in> set (resting_ptrs b' s) \<Longrightarrow> order_at b' q = order_at b q"
    and "orders b' = (orders b)(o_id (order_at b p) := None)"
    and "capacity (pool b') = capacity (pool b)"
    and "pool_available b' = Suc (pool_available b)"
    and "order_count b' = order_count b - 1"
proof -
  have rep: "book_rep b (queue b)" using ok by (simp add: book_ok_def)
  from p obtain k where k: "p \<in> set (queue b s k)"
    unfolding rep_set_resting [OF rep] by blast
  obtain b' where b': "remove_order b p = Some b'" "book_rep b' (drop_ptr p (queue b))"
    "\<And>q. q \<noteq> p \<Longrightarrow> data_same b b' q"
    "orders b' = (orders b)(o_id (order_at b p) := None)" "capacity (pool b') = capacity (pool b)"
    "available (pool b') = Suc (available (pool b))" "order_count b' = order_count b - 1"
    "\<And>s'. \<exists>P. map fst (tree_of b' s') = filter P (map fst (tree_of b s'))"
    by (rule remove_order_rep [OF rep k]) (rule that)
  have r: "resting_ptrs b' s = filter (\<lambda>q. q \<noteq> p) (resting_ptrs b s)" for s
    using remove_order_resting [OF rep b'(2)] b'(8) [of s] by blast
  have at: "order_at b' q = order_at b q" if q: "q \<in> set (resting_ptrs b' s)" for q s
  proof -
    from q r have "q \<noteq> p" and "q \<in> set (resting_ptrs b s)" by auto
    then obtain k where "q \<in> set (queue b s k)"
      unfolding rep_set_resting [OF rep] by blast
    from rep_order [OF rep this] obtain ord where "load (mem b) q = Some ord" .
    then show ?thesis
      using data_same_order_at [OF b'(3) [OF \<open>q \<noteq> p\<close>]] by simp
  qed
  show ?thesis
    by (rule that [OF b'(1) book_rep_ok [OF b'(2)] r at b'(4,5) _ b'(7)])
      (use b'(6) in \<open>auto simp: pool_available_def\<close>)
qed


section \<open>Adding an order\<close>

definition add_ptr :: "order_ptr \<Rightarrow> level_ref \<Rightarrow> queues \<Rightarrow> queues" where
  "add_ptr p r Q s k = (if (s, k) = r then Q s k @ [p] else Q s k)"

lemma add_order_exhausted:
  assumes "book_ok b" and "pool_available b = 0"
  shows "add_order b ord = Some (None, b)"
proof -
  have ok: "pool_ok (pool b)"
    using assms by (simp add: book_ok_def book_rep_def slots_ok_def)
  have "fst (acquire (pool b)) = None"
  proof (cases "acquire (pool b)")
    case (Pair r P)
    then show ?thesis
      using op.acq_avail [OF ok] assms(2) by (cases r) (auto simp: pool_available_def)
  qed
  then show ?thesis
    using op.acq_None [OF ok] unfolding add_order_def
    by (cases "acquire (pool b)") auto
qed

definition emplace :: "OrderId \<Rightarrow> order_ptr \<Rightarrow> (OrderId \<Rightarrow> order_ptr option) \<Rightarrow> OrderId \<Rightarrow> order_ptr option" where
  "emplace i p m = (case m i of None \<Rightarrow> m(i := Some p) | Some _ \<Rightarrow> m)"

lemma add_order_eval:
  assumes rep: "book_rep b Q" and av: "available (pool b) \<noteq> 0"
    and sk: "o_side ord = s" "o_price ord = k"
    and t_def: "t = try_emplace (tree_lt s) k (PriceLevel_init k) (tree_of b s)"
  obtains p P l' st' where
    "acquire (pool b) = (Some p, P)"
    and "add_order b ord = Some (Some p,
      (set_tree b s (assign_key k l' t))
       \<lparr>orders := emplace (o_id ord) p (orders b),
        pool := P\<lparr>storage := st'\<rparr>, order_count := order_count b + 1\<rparr>)"
    and "level_rep st' (s, k) l' (Q s k @ [p])"
    and "map_option strip (load st' p) = Some (strip ord)"
    and "\<And>q. q \<noteq> p \<Longrightarrow> map_option strip (load st' q) = map_option strip (load (mem b) q)"
    and "\<And>q. q \<noteq> p \<Longrightarrow> q \<notin> set (Q s k) \<Longrightarrow> st' q = mem b q"
proof -
  have ok: "pool_ok (pool b)"
    using rep by (simp add: book_rep_def slots_ok_def)
  obtain p P where acq: "acquire (pool b) = (Some p, P)"
    using op.acq_succeeds [OF ok av] by blast
  have P: "storage P = mem b"
    using acq by (auto simp: acquire_def Let_def split: if_splits)
  have pf: "p \<in> free_slots (pool b)"
    using op.acq_Some [OF ok acq] by simp
  then have pn: "p \<notin> set (Q s' k')" for s' k'
    using rep_free [OF rep] by blast
  let ?st = "(mem b)(p := LiveSlot ord)"
  have so: "keys_sorted (tree_lt s) (tree_of b s)"
    using rep by (rule rep_sorted)
  define l where "l = (case map_of (tree_of b s) k of None \<Rightarrow> PriceLevel_init k | Some l \<Rightarrow> l)"
  have mt: "map_of t k = Some l"
    using pt.map_of_try_emplace [OF so, of k "PriceLevel_init k" k]
    by (simp add: t_def l_def split: option.splits)
  have lr: "level_rep ?st (s, k) l (Q s k)"
  proof (cases "map_of (tree_of b s) k")
    case None
    then have "Q s k = []"
      using rep_no_key [OF rep] by (simp add: map_of_eq_None_iff)
    then show ?thesis by (simp add: l_def None level_rep_init)
  next
    case (Some l0)
    from rep_level(2) [OF rep Some] have "level_rep ?st (s, k) l0 (Q s k)"
      by (rule level_rep_frame) (use pn in auto)
    then show ?thesis by (simp add: l_def Some)
  qed
  obtain l' st' where pb: "push_back (s, k) l p ?st = Some (l', st')"
    "level_rep st' (s, k) l' (Q s k @ [p])" "same_data ?st st'"
    "\<And>q. q \<noteq> p \<Longrightarrow> q \<notin> set (Q s k) \<Longrightarrow> st' q = ?st q"
    by (rule push_back_rep [OF lr load_upd_same pn]) (rule that)
  have "add_order b ord = Some (Some p,
      (set_tree b s (assign_key k l' t))
       \<lparr>orders := emplace (o_id ord) p (orders b),
        pool := P\<lparr>storage := st'\<rparr>, order_count := order_count b + 1\<rparr>)"
    using acq mt pb(1)
    by (cases s; cases "orders b (o_id ord)")
      (auto simp: add_order_def construct_def P Let_def level_at_def set_level_def set_mem_def
        emplace_def sk t_def)
  moreover have "map_option strip (load st' q) = map_option strip (load ?st q)" for q
    using pb(3) by (simp add: same_data_def)
  ultimately show ?thesis
    using that [OF acq _ pb(2)] pb(4) by simp
qed

lemma slots_ok_acquire:
  assumes rep: "book_rep b Q" and acq: "acquire (pool b) = (Some p, P)"
    and fr: "\<And>q. q \<noteq> p \<Longrightarrow> q \<notin> set (Q s k) \<Longrightarrow> st' q = mem b q"
    and b': "pool b' = P\<lparr>storage := st'\<rparr>" "order_count b' = order_count b + 1"
  shows "slots_ok b' (add_ptr p (s, k) Q)"
proof -
  have ok: "pool_ok (pool b)"
    and held: "{p. \<exists>s k. p \<in> set (Q s k)} = {..<capacity (pool b)} - free_slots (pool b)"
    and cnt: "order_count b + available (pool b) = capacity (pool b)"
    using rep by (auto simp: book_rep_def slots_ok_def)
  note acqS = op.acq_Some [OF ok acq] op.acq_avail [OF ok acq]
  have f: "q \<in> free_slots P \<Longrightarrow> st' q = storage P q" for q
    using fr acqS rep_free [OF rep] acq by (auto simp: acquire_def Let_def split: if_splits)
  have "{q. \<exists>s' k'. q \<in> set (add_ptr p (s, k) Q s' k')} = insert p {q. \<exists>s k. q \<in> set (Q s k)}"
    by (auto simp: add_ptr_def)
  moreover have "p < capacity (pool b)"
    using op.free_bound [OF ok] acqS by auto
  ultimately show ?thesis
    using pool_frame [of P st', OF _ f] acqS held cnt b' by (auto simp: slots_ok_def available_def)
qed

lemma index_ok_emplace:
  assumes rep: "book_rep b Q" and b': "orders b' = emplace (o_id ord) p (orders b)"
    and pn: "\<And>s k. p \<notin> set (Q s k)" and ds: "\<And>q. q \<noteq> p \<Longrightarrow> data_same b b' q"
    and at: "order_at b' p = strip ord"
  shows "index_ok b' (add_ptr p (s, k) Q)"
proof -
  have "index_ok (b'\<lparr>orders := orders b\<rparr>) (add_ptr p (s, k) Q)"
  proof (rule index_ok_change [OF rep])
    fix i q assume i: "orders (b'\<lparr>orders := orders b\<rparr>) i = Some q"
    then have "q \<noteq> p"
      using rep pn unfolding book_rep_def index_ok_def by fastforce
    with i ds [OF this] show "orders b i = Some q \<and> key_same b (b'\<lparr>orders := orders b\<rparr>) q"
      using data_same_key [of b b' q] by (simp add: key_same_def)
  qed (auto simp: add_ptr_def)
  moreover have "\<exists>s' k'. p \<in> set (add_ptr p (s, k) Q s' k')"
    by (auto simp: add_ptr_def)
  moreover have "o_id (the (load (mem b') p)) = o_id ord"
    using at by (metis order_at_def strip_sel(1))
  ultimately show ?thesis
    using b' by (auto simp: index_ok_def emplace_def order_at_def split: option.splits if_splits)
qed

lemma add_order_rep:
  assumes rep: "book_rep b Q" and av: "available (pool b) \<noteq> 0"
    and sk: "o_side ord = s" "o_price ord = k"
  obtains p b' l where "add_order b ord = Some (Some p, b')" and "book_rep b' (add_ptr p (s, k) Q)"
    and "p \<in> free_slots (pool b)" and "order_at b' p = strip ord"
    and "\<And>q. q \<noteq> p \<Longrightarrow> data_same b b' q"
    and "orders b' = emplace (o_id ord) p (orders b)"
    and "capacity (pool b') = capacity (pool b)"
    and "available (pool b) = Suc (available (pool b'))"
    and "order_count b' = order_count b + 1"
    and "\<And>s'. map fst (tree_of b' s') = map fst
      (if s' = s then try_emplace (tree_lt s) k l (tree_of b s) else tree_of b s')"
proof -
  define t where "t = try_emplace (tree_lt s) k (PriceLevel_init k) (tree_of b s)"
  obtain p P l' st' where acq: "acquire (pool b) = (Some p, P)"
    and ev: "add_order b ord = Some (Some p,
      (set_tree b s (assign_key k l' t))
       \<lparr>orders := emplace (o_id ord) p (orders b),
        pool := P\<lparr>storage := st'\<rparr>, order_count := order_count b + 1\<rparr>)" (is "_ = Some (_, ?b')")
    and lr: "level_rep st' (s, k) l' (Q s k @ [p])"
    and stp: "map_option strip (load st' p) = Some (strip ord)"
    and sto: "\<And>q. q \<noteq> p \<Longrightarrow> map_option strip (load st' q) = map_option strip (load (mem b) q)"
    and fr: "\<And>q. q \<noteq> p \<Longrightarrow> q \<notin> set (Q s k) \<Longrightarrow> st' q = mem b q"
    by (rule add_order_eval [OF rep av sk t_def]) (rule that)
  have ok: "pool_ok (pool b)"
    using rep by (simp add: book_rep_def slots_ok_def)
  note acqS = op.acq_Some [OF ok acq] op.acq_avail [OF ok acq]
  have pn: "p \<notin> set (Q s' k')" for s' k'
    using rep_free [OF rep] acqS by blast
  have so: "keys_sorted (tree_lt s) (tree_of b s)"
    using rep by (rule rep_sorted)
  have tr: "map_of (tree_of ?b' s') k' = (if (s', k') = (s, k) then Some l' else map_of (tree_of b s') k')"
    for s' k'
    using pt.map_of_try_emplace [OF so, of k "PriceLevel_init k"]
    by (auto simp: map_of_assign t_def split: option.splits)
  have ds: "data_same b ?b' q" if "q \<noteq> p" for q
    using sto [OF that] by (simp add: data_same_def)
  have at: "order_at ?b' p = strip ord"
    using stp by (auto simp: order_at_def)
  have "keys_sorted (tree_lt s') (tree_of ?b' s')" for s'
    using pt.try_emplace_sorted [OF so] rep_sorted [OF rep] by (auto simp: t_def)
  moreover have "levels_ok ?b' (add_ptr p (s, k) Q)"
  proof (rule levels_ok_change)
    show "levels_ok b Q" using rep by (simp add: book_rep_def)
    show "others_same b ?b' Q (s, k)"
      unfolding others_same_def
    proof (intro allI impI)
      fix s' k' assume ne: "(s', k') \<noteq> (s, k)"
      then have "q \<noteq> p \<and> q \<notin> set (Q s k)" if "q \<in> set (Q s' k')" for q
        using that pn rep_disjoint [OF rep that] by blast
      then show "map_of (tree_of ?b' s') k' = map_of (tree_of b s') k' \<and>
          (\<forall>q \<in> set (Q s' k'). mem ?b' q = mem b q)"
        using ne fr unfolding tr by auto
    qed
    show "case map_of (tree_of ?b' s) k of None \<Rightarrow> add_ptr p (s, k) Q s k = []
        | Some l \<Rightarrow> add_ptr p (s, k) Q s k \<noteq> [] \<and> level_rep (mem ?b') (s, k) l (add_ptr p (s, k) Q s k)"
      using lr unfolding tr by (simp add: add_ptr_def)
  qed (simp add: add_ptr_def)
  moreover have "keyed_ok ?b' (add_ptr p (s, k) Q)"
  proof -
    have "keyed_ok ?b' Q"
    proof (rule keyed_ok_change [OF rep])
      fix s k q assume q: "q \<in> set (Q s k)"
      then have "q \<noteq> p" using pn by blast
      with q show "q \<in> set (Q s k) \<and> key_same b ?b' q"
        using data_same_key [OF ds] by blast
    qed
    moreover obtain o' where "load st' p = Some o'" "o_side o' = s" "o_price o' = k"
      using stp sk by (metis (no_types, opaque_lifting) map_option_eq_Some strip_sel(2,3))
    ultimately show ?thesis by (auto simp: keyed_ok_def add_ptr_def)
  qed
  moreover have "index_ok ?b' (add_ptr p (s, k) Q)"
    by (rule index_ok_emplace [OF rep _ pn ds at]) simp
  moreover have "slots_ok ?b' (add_ptr p (s, k) Q)"
    by (rule slots_ok_acquire [OF rep acq fr]) simp_all
  ultimately have "book_rep ?b' (add_ptr p (s, k) Q)"
    by (simp add: book_rep_def)
  then show ?thesis
    using that [OF ev, of "PriceLevel_init k"] acqS at ds by (auto simp: t_def available_def)
qed

text \<open>
  Price-time priority as an insertion into the list of a side: behind every order whose
  price is at least as good.
\<close>

definition insert_order :: "Side \<Rightarrow> Order \<Rightarrow> Order list \<Rightarrow> Order list" where
  "insert_order s ord xs =
     takeWhile (\<lambda>x. \<not> tree_lt s (o_price ord) (o_price x)) xs @ ord #
     dropWhile (\<lambda>x. \<not> tree_lt s (o_price ord) (o_price x)) xs"

lemma takeWhile_dropWhile_split:
  assumes "\<And>x. x \<in> set xs \<Longrightarrow> P x" and "\<And>y. y \<in> set ys \<Longrightarrow> \<not> P y"
  shows "takeWhile P (xs @ ys) = xs" and "dropWhile P (xs @ ys) = ys"
  using assms by (induction xs) (auto simp: takeWhile_eq_Nil_iff dropWhile_eq_self_iff)

lemma concat_try_emplace:
  assumes "keys_sorted (tree_lt s) t" and "k \<notin> fst ` set t \<Longrightarrow> f k = []"
  shows "concat (map (f(k := f k @ [p])) (map fst (try_emplace (tree_lt s) k v t)))
    = concat (map f (filter (\<lambda>k'. \<not> tree_lt s k k') (map fst t))) @ p #
      concat (map f (filter (tree_lt s k) (map fst t)))"
  using assms
proof (induction t)
  case (Cons x t)
  obtain a c where x: "x = (a, c)" by (cases x)
  have so: "keys_sorted (tree_lt s) t" and hd: "\<forall>k' \<in> fst ` set t. tree_lt s a k'"
    using Cons.prems(1) by (auto simp: x)
  have upd: "map (f(k := y)) (map fst t) = map f (map fst t)" if "k \<notin> fst ` set t" for y
    using that by (auto simp: image_iff)
  consider "tree_lt s k a" | "k = a" | "tree_lt s a k" "\<not> tree_lt s k a" "k \<noteq> a"
    using pt.lt_total pt.lt_irrefl by metis
  then show ?case
  proof cases
    case 1
    have all: "\<forall>k' \<in> fst ` set t. tree_lt s k k'"
      using hd pt.lt_trans [OF 1] by blast
    then have nk: "k \<notin> fst ` set t" and "k \<noteq> a"
      using 1 pt.lt_irrefl by auto
    moreover have "f k = []"
      using Cons.prems(2) nk \<open>k \<noteq> a\<close> by (simp add: x)
    moreover have "filter (\<lambda>k'. \<not> tree_lt s k k') (map fst t) = []"
      and "filter (tree_lt s k) (map fst t) = map fst t"
      using all by (auto simp: filter_empty_conv filter_id_conv)
    ultimately show ?thesis
      using 1 by (simp add: x upd [OF nk, unfolded fun_upd_def] fun_upd_def del: map_map)
  next
    case 2
    have nk: "k \<notin> fst ` set t"
      using hd 2 pt.lt_irrefl by blast
    moreover have "filter (\<lambda>k'. \<not> tree_lt s k k') (map fst t) = []"
      and "filter (tree_lt s k) (map fst t) = map fst t"
      using hd 2 by (auto simp: filter_empty_conv filter_id_conv)
    ultimately show ?thesis
      using 2 pt.lt_irrefl [of s a]
      by (simp add: x upd [OF nk, unfolded fun_upd_def, unfolded 2] fun_upd_def del: map_map)
  next
    case 3
    have "k \<notin> fst ` set t \<Longrightarrow> f k = []"
      using Cons.prems(2) 3 by (auto simp: x)
    from Cons.IH [OF so this] show ?thesis
      using 3 by (simp add: x del: map_map)
  qed
qed simp

lemma add_order_ptrs:
  assumes rep: "book_rep b Q" and rep': "book_rep b' (add_ptr p (s, k) Q)"
    and keys: "\<And>s'. map fst (tree_of b' s') = map fst
      (if s' = s then try_emplace (tree_lt s) k l (tree_of b s) else tree_of b s')"
  shows "resting_ptrs b' s = concat (map (Q s) (filter (\<lambda>k'. \<not> tree_lt s k k') (map fst (tree_of b s)))) @
      p # concat (map (Q s) (filter (tree_lt s k) (map fst (tree_of b s))))"
    and "s' \<noteq> s \<Longrightarrow> resting_ptrs b' s' = resting_ptrs b s'"
proof -
  have "add_ptr p (s, k) Q s = (Q s)(k := Q s k @ [p])"
    by (auto simp: add_ptr_def)
  then show "resting_ptrs b' s = concat (map (Q s) (filter (\<lambda>k'. \<not> tree_lt s k k') (map fst (tree_of b s)))) @
      p # concat (map (Q s) (filter (tree_lt s k) (map fst (tree_of b s))))"
    unfolding rep_resting_ptrs [OF rep'] keys
    using concat_try_emplace [OF rep_sorted [OF rep] rep_no_key [OF rep], where p = p and v = l] by simp
  assume ne: "s' \<noteq> s"
  then have "add_ptr p (s, k) Q s' = Q s'" by (auto simp: add_ptr_def)
  then show "resting_ptrs b' s' = resting_ptrs b s'"
    unfolding rep_resting_ptrs [OF rep'] rep_resting_ptrs [OF rep] keys using ne by simp
qed

lemma insert_order_map:
  assumes "\<And>p. p \<in> set xs \<Longrightarrow> \<not> tree_lt s (o_price ord) (o_price (f p))"
    and "\<And>p. p \<in> set ys \<Longrightarrow> tree_lt s (o_price ord) (o_price (f p))"
  shows "insert_order s ord (map f (xs @ ys)) = map f xs @ ord # map f ys"
proof -
  let ?P = "\<lambda>x. \<not> tree_lt s (o_price ord) (o_price x)"
  have xs: "?P x" if "x \<in> set (map f xs)" for x
    using that assms(1) by auto
  have ys: "\<not> ?P y" if "y \<in> set (map f ys)" for y
    using that assms(2) by auto
  show ?thesis
    unfolding insert_order_def map_append
    using takeWhile_dropWhile_split [of "map f xs" ?P "map f ys", OF xs ys] by simp
qed

lemma filter_sorted_split:
  assumes "keys_sorted (tree_lt s) t"
  shows "map fst t = filter (\<lambda>k'. \<not> tree_lt s k k') (map fst t) @ filter (tree_lt s k) (map fst t)"
  using assms
proof (induction t)
  case (Cons x t)
  obtain a c where x: "x = (a, c)" by (cases x)
  show ?case
  proof (cases "tree_lt s k a")
    case True
    then have "\<forall>k' \<in> fst ` set t. tree_lt s k k'"
      using Cons.prems pt.lt_trans [OF True] by (auto simp: x)
    then have "filter (\<lambda>k'. \<not> tree_lt s k k') (map fst t) = []"
      and "filter (tree_lt s k) (map fst t) = map fst t"
      by (auto simp: filter_empty_conv filter_id_conv)
    then show ?thesis using True by (simp add: x)
  next
    case False
    then show ?thesis using Cons by (simp add: x)
  qed
qed simp

lemma add_order_ok:
  assumes ok: "book_ok b" and av: "pool_available b \<noteq> 0"
  obtains p b' where "add_order b ord = Some (Some p, b')" and "book_ok b'"
    and "resting b' (o_side ord) = insert_order (o_side ord) (strip ord) (resting b (o_side ord))"
    and "\<And>s. s \<noteq> o_side ord \<Longrightarrow> resting b' s = resting b s"
    and "orders b' = emplace (o_id ord) p (orders b)"
    and "capacity (pool b') = capacity (pool b)"
    and "pool_available b = Suc (pool_available b')"
    and "order_count b' = order_count b + 1"
    and "order_at b' p = strip ord"
    and "\<And>q s. q \<in> set (resting_ptrs b s) \<Longrightarrow> order_at b' q = order_at b q"
    and "p \<in> set (resting_ptrs b' (o_side ord))"
proof -
  let ?s = "o_side ord" and ?k = "o_price ord"
  have rep: "book_rep b (queue b)" using ok by (simp add: book_ok_def)
  obtain p b' l where a: "add_order b ord = Some (Some p, b')" "book_rep b' (add_ptr p (?s, ?k) (queue b))"
    "p \<in> free_slots (pool b)" "order_at b' p = strip ord" "\<And>q. q \<noteq> p \<Longrightarrow> data_same b b' q"
    "orders b' = emplace (o_id ord) p (orders b)" "capacity (pool b') = capacity (pool b)"
    "available (pool b) = Suc (available (pool b'))" "order_count b' = order_count b + 1"
    "\<And>s'. map fst (tree_of b' s') = map fst
      (if s' = ?s then try_emplace (tree_lt ?s) ?k l (tree_of b ?s) else tree_of b s')"
    by (rule add_order_rep [OF rep av [unfolded pool_available_def] refl refl]) (rule that)
  have at: "order_at b' q = order_at b q" if q: "q \<in> set (queue b s k)" for q s k
  proof -
    from q a(3) have "q \<noteq> p" using rep_free [OF rep] by blast
    moreover from rep_order [OF rep q] obtain o1 where "load (mem b) q = Some o1" .
    ultimately show ?thesis using data_same_order_at [OF a(5)] by simp
  qed
  let ?lo = "filter (\<lambda>k'. \<not> tree_lt ?s ?k k') (map fst (tree_of b ?s))"
    and ?hi = "filter (tree_lt ?s ?k) (map fst (tree_of b ?s))"
  have ptrs: "resting_ptrs b ?s = concat (map (queue b ?s) ?lo) @ concat (map (queue b ?s) ?hi)"
    unfolding rep_resting_ptrs [OF rep] concat_append [symmetric] map_append [symmetric]
    using filter_sorted_split [OF rep_sorted [OF rep]] by metis
  have ptrs': "resting_ptrs b' ?s = concat (map (queue b ?s) ?lo) @ p # concat (map (queue b ?s) ?hi)"
    using add_order_ptrs(1) [OF rep a(2) a(10)] .
  have m: "map (order_at b') (concat (map (queue b ?s) ks)) = map (order_at b) (concat (map (queue b ?s) ks))" for ks
    using at by auto
  have r: "resting b' ?s = insert_order ?s (strip ord) (resting b ?s)"
    unfolding resting_def ptrs ptrs' map_append list.map(2) m a(4)
    unfolding map_append [symmetric]
    by (rule insert_order_map [symmetric]) (use rep_order_at(2) [OF rep] in auto)
  have o: "resting b' s = resting b s" if "s \<noteq> ?s" for s
    unfolding resting_def add_order_ptrs(2) [OF rep a(2) a(10) that]
    using at rep_set_resting [OF rep, of s] by auto
  show ?thesis
    by (rule that [OF a(1) book_rep_ok [OF a(2)] r o a(6,7) _ a(9,4)])
      (use a(8) ptrs' at rep_set_resting [OF rep] in \<open>auto simp: pool_available_def\<close>)
qed


section \<open>Reducing the quantity of a resting order\<close>

text \<open>
  The two writes of a partial fill: \<open>resting->quantity -= fill_qty\<close> and
  \<open>level->reduce_quantity(fill_qty)\<close>.
\<close>

definition reduce_order :: "OrderBook \<Rightarrow> order_ptr \<Rightarrow> Quantity \<Rightarrow> OrderBook option" where
  "reduce_order b p f = do {
     st \<leftarrow> mutate (mem b) p (\<lambda>x. x\<lparr>o_quantity := o_quantity x - f\<rparr>);
     Some (set_mem b st)
   }"

definition reduce_level :: "OrderBook \<Rightarrow> level_ref \<Rightarrow> Quantity \<Rightarrow> OrderBook option" where
  "reduce_level b r f = do {
     l \<leftarrow> level_at b r;
     Some (set_level b r (reduce_quantity l f))
   }"

lemma reduce_rep_book:
  assumes rep: "book_rep b Q" and p: "p \<in> set (Q s k)"
  obtains b1 b' where "reduce_order b p f = Some b1" and "reduce_level b1 (s, k) f = Some b'"
    and "book_rep b' Q"
    and "order_at b' p = (order_at b p)\<lparr>o_quantity := o_quantity (order_at b p) - f\<rparr>"
    and "\<And>q. q \<noteq> p \<Longrightarrow> mem b' q = mem b q"
    and "orders b' = orders b" and "order_count b' = order_count b"
    and "free_list_head (pool b') = free_list_head (pool b)"
    and "capacity (pool b') = capacity (pool b)" and "free_count (pool b') = free_count (pool b)"
    and "\<And>s'. map fst (tree_of b' s') = map fst (tree_of b s')"
proof -
  from p obtain xs ys where Q: "Q s k = xs @ p # ys" by (rule in_set_split)
  obtain l where l: "map_of (tree_of b s) k = Some l" and lr: "level_rep (mem b) (s, k) l (xs @ p # ys)"
    using rep_queue [OF rep, of s k] Q by auto
  obtain ord where ord: "load (mem b) p = Some ord"
    using rep_order [OF rep p] by metis
  let ?st = "(mem b)(p := LiveSlot (ord\<lparr>o_quantity := o_quantity ord - f\<rparr>))"
  let ?b1 = "set_mem b ?st"
  let ?b' = "set_level ?b1 (s, k) (reduce_quantity l f)"
  have e1: "reduce_order b p f = Some ?b1"
    using ord by (simp add: reduce_order_def heap_simps)
  have e2: "reduce_level ?b1 (s, k) f = Some ?b'"
    using l by (simp add: reduce_level_def level_at_def)
  have tr: "map_of (tree_of ?b' s') k' = (if (s', k') = (s, k) then Some (reduce_quantity l f)
      else map_of (tree_of b s') k')" for s' k'
    using l by (auto simp: map_of_set_level)
  have fr: "mem ?b' q = mem b q" if "q \<noteq> p" for q
    using that by simp
  have other: "p \<notin> set (Q s' k')" if "(s', k') \<noteq> (s, k)" for s' k'
    using that rep_disjoint [OF rep p] by blast
  have ks: "key_same b ?b' q" for q
    using ord by (cases "q = p") (auto simp: key_same_def order_key_def)
  have "levels_ok ?b' Q"
  proof (rule levels_ok_change)
    show "levels_ok b Q" using rep by (simp add: book_rep_def)
    show "others_same b ?b' Q (s, k)"
      unfolding others_same_def tr using other fr by auto
    show "case map_of (tree_of ?b' s) k of None \<Rightarrow> Q s k = []
        | Some l \<Rightarrow> Q s k \<noteq> [] \<and> level_rep (mem ?b') (s, k) l (Q s k)"
      unfolding tr Q using reduce_rep [OF lr ord, of f] by simp
  qed simp
  moreover have "keyed_ok ?b' Q"
    by (rule keyed_ok_change [OF rep]) (use ks in auto)
  moreover have "index_ok ?b' Q"
    by (rule index_ok_change [OF rep]) (use ks in auto)
  moreover have "slots_ok ?b' Q"
    using rep pool_write [of "pool b" p] ord by (auto simp: book_rep_def slots_ok_def available_def)
  ultimately have "book_rep ?b' Q"
    using rep_sorted [OF rep] by (simp add: book_rep_def)
  moreover have "order_at ?b' p = (order_at b p)\<lparr>o_quantity := o_quantity (order_at b p) - f\<rparr>"
    using ord by (simp add: order_at_def strip_def)
  ultimately show ?thesis
    using that [OF e1 e2] fr by simp
qed

lemma reduce_ok:
  assumes ok: "book_ok b" and p: "p \<in> set (resting_ptrs b s)" and k: "k = o_price (order_at b p)"
  obtains b1 b' where "reduce_order b p f = Some b1" and "reduce_level b1 (s, k) f = Some b'"
    and "book_ok b'"
    and "order_at b' p = (order_at b p)\<lparr>o_quantity := o_quantity (order_at b p) - f\<rparr>"
    and "\<And>q. q \<noteq> p \<Longrightarrow> order_at b' q = order_at b q"
    and "\<And>s. resting_ptrs b' s = resting_ptrs b s"
    and "orders b' = orders b" and "order_count b' = order_count b"
    and "capacity (pool b') = capacity (pool b)" and "pool_available b' = pool_available b"
proof -
  have rep: "book_rep b (queue b)" using ok by (simp add: book_ok_def)
  from p obtain k' where k': "p \<in> set (queue b s k')"
    unfolding rep_set_resting [OF rep] by blast
  with k have "k' = k" using rep_order_at [OF rep k'] by simp
  with k' have pk: "p \<in> set (queue b s k)" by simp
  obtain b1 b' where r: "reduce_order b p f = Some b1" "reduce_level b1 (s, k) f = Some b'"
    "book_rep b' (queue b)" "order_at b' p = (order_at b p)\<lparr>o_quantity := o_quantity (order_at b p) - f\<rparr>"
    "\<And>q. q \<noteq> p \<Longrightarrow> mem b' q = mem b q" "orders b' = orders b" "order_count b' = order_count b"
    "free_list_head (pool b') = free_list_head (pool b)"
    "capacity (pool b') = capacity (pool b)" "free_count (pool b') = free_count (pool b)"
    "\<And>s'. map fst (tree_of b' s') = map fst (tree_of b s')"
    by (rule reduce_rep_book [OF rep pk]) (rule that)
  have at: "order_at b' q = order_at b q" if "q \<noteq> p" for q
    using r(5) [OF that] by (simp add: order_at_def load_def)
  have rp: "resting_ptrs b' s = resting_ptrs b s" for s
    unfolding rep_resting_ptrs [OF rep] rep_resting_ptrs [OF r(3)] r(11) ..
  show ?thesis
    by (rule that [OF r(1,2) book_rep_ok [OF r(3)] r(4) at rp r(6,7,9)])
      (use r(10) in \<open>auto simp: pool_available_def available_def\<close>)
qed


section \<open>Queries\<close>

lemma ok_load:
  assumes "book_ok b" and "p \<in> set (resting_ptrs b s)"
  obtains ord where "load (mem b) p = Some ord" and "order_at b p = strip ord"
    and "o_side (order_at b p) = s" and "o_level ord = Some (s, o_price (order_at b p))"
proof -
  have rep: "book_rep b (queue b)" using assms(1) by (simp add: book_ok_def)
  from assms(2) obtain k where k: "p \<in> set (queue b s k)"
    unfolding rep_set_resting [OF rep] by blast
  from rep_order [OF rep k] obtain ord where ord: "load (mem b) p = Some ord" "o_side ord = s"
    "o_price ord = k" "o_level ord = Some (s, k)" .
  show ?thesis
    by (rule that [OF ord(1)]) (use ord in \<open>simp_all add: order_at_def\<close>)
qed

lemma ok_distinct: "book_ok b \<Longrightarrow> distinct (resting_ptrs b s)"
  by (auto simp: book_ok_def intro: rep_resting_distinct)

lemma ok_sides_disjoint:
  assumes "book_ok b" and "p \<in> set (resting_ptrs b s)" and "p \<in> set (resting_ptrs b s')"
  shows "s' = s"
  using ok_load [OF assms(1,2)] ok_load [OF assms(1,3)] by metis

lemma find_order_resting:
  assumes "book_ok b" and "find_order b i = Some p"
  shows "\<exists>s. p \<in> set (resting_ptrs b s)" and "o_id (order_at b p) = i"
proof -
  have rep: "book_rep b (queue b)" using assms(1) by (simp add: book_ok_def)
  with assms(2) obtain s k where "p \<in> set (queue b s k)" and "o_id (order_at b p) = i"
    unfolding find_order_def book_rep_def index_ok_def by blast
  then show "\<exists>s. p \<in> set (resting_ptrs b s)" and "o_id (order_at b p) = i"
    using rep_set_resting [OF rep] by blast+
qed

lemma level_at_resting:
  assumes ok: "book_ok b"
  shows "level_at b (s, k) = None \<longleftrightarrow> (\<forall>p \<in> set (resting_ptrs b s). o_price (order_at b p) \<noteq> k)"
proof -
  have rep: "book_rep b (queue b)" using ok by (simp add: book_ok_def)
  have "(\<forall>p \<in> set (resting_ptrs b s). o_price (order_at b p) \<noteq> k) \<longleftrightarrow> queue b s k = []"
    unfolding rep_set_resting [OF rep] using rep_order_at(2) [OF rep] hd_in_set by fastforce
  moreover have "queue b s k = [] \<longleftrightarrow> map_of (tree_of b s) k = None"
    using rep_level(1) [OF rep, of s k] by (cases "map_of (tree_of b s) k") (simp_all add: queue_def)
  ultimately show ?thesis by (simp add: level_at_def)
qed

lemma best_level:
  assumes ok: "book_ok b" and t: "tree_of b s = (k, l) # t"
  obtains p ps where "resting_ptrs b s = p # ps" and "front l = Some p" and "level_at b (s, k) = Some l"
    and "level_price l = k" and "\<not> level_empty l" and "o_price (order_at b p) = k"
    and "\<And>q. q \<in> set (resting_ptrs b s) \<Longrightarrow> \<not> tree_lt s (o_price (order_at b q)) k"
proof -
  have rep: "book_rep b (queue b)" using ok by (simp add: book_ok_def)
  have l: "map_of (tree_of b s) k = Some l" by (simp add: t)
  note lv = rep_level [OF rep l]
  then obtain p qs where q: "queue b s k = p # qs" by (cases "queue b s k") auto
  have r: "resting_ptrs b s = p # qs @ concat (map (queue b s) (map fst t))"
    unfolding rep_resting_ptrs [OF rep] t by (simp add: q)
  have best: "\<not> tree_lt s (o_price (order_at b x)) k" if x: "x \<in> set (resting_ptrs b s)" for x
  proof -
    from x obtain k' where k': "k' \<in> set (map fst ((k, l) # t))" "x \<in> set (queue b s k')"
      unfolding rep_resting_ptrs [OF rep] t by auto
    then have "k' = k \<or> tree_lt s k k'"
      using rep_sorted [OF rep, of s] unfolding t by auto
    then show ?thesis
      using rep_order_at(2) [OF rep k'(2)] pt.lt_irrefl pt.lt_trans by metis
  qed
  have "p \<in> set (queue b s k)" by (simp add: q)
  from rep_order_at(2) [OF rep this] have "o_price (order_at b p) = k" .
  moreover have "front l = Some p" "level_price l = k" "\<not> level_empty l"
    using lv(2) q by (simp add: level_rep_front, simp add: level_rep_def, simp add: level_rep_empty)
  ultimately show ?thesis
    using that [OF r] l best by (simp add: level_at_def)
qed

lemma best_level_unique:
  assumes ok: "book_ok b" and l: "level_at b (s, k) = Some l"
    and best: "\<And>q. q \<in> set (resting_ptrs b s) \<Longrightarrow> \<not> tree_lt s (o_price (order_at b q)) k"
  obtains t where "tree_of b s = (k, l) # t"
proof (cases "tree_of b s")
  case Nil
  with l show ?thesis by (simp add: level_at_def)
next
  case (Cons x t)
  obtain k0 l0 where x: "x = (k0, l0)" by (cases x)
  obtain p ps where p: "resting_ptrs b s = p # ps" "o_price (order_at b p) = k0"
    by (rule best_level [OF ok Cons [unfolded x]]) (rule that)
  have "\<not> tree_lt s k0 k"
    using best [of p] p by simp
  moreover have "k = k0 \<or> tree_lt s k0 k"
  proof (rule pt.sorted_head_least)
    show "keys_sorted (tree_lt s) ((k0, l0) # t)"
      using rep_sorted [of b "queue b" s] ok unfolding Cons x book_ok_def by simp
    show "map_of ((k0, l0) # t) k = Some l"
      using l unfolding level_at_def by (simp add: Cons x)
  qed
  ultimately have "k = k0" by blast
  with l have "l = l0" by (simp add: level_at_def Cons x)
  with \<open>k = k0\<close> show ?thesis using that Cons x by simp
qed

lemma resting_Nil_iff:
  assumes ok: "book_ok b"
  shows "resting_ptrs b s = [] \<longleftrightarrow> tree_of b s = []"
proof (cases "tree_of b s")
  case (Cons x t)
  then show ?thesis
    using best_level [OF ok, of s "fst x" "snd x" t] by fastforce
qed (simp add: resting_ptrs_def)

lemma resting_by_price:
  assumes ok: "book_ok b"
  shows "sorted_wrt (\<lambda>x y. \<not> tree_lt s (o_price y) (o_price x)) (resting b s)"
proof -
  have rep: "book_rep b (queue b)" using ok by (simp add: book_ok_def)
  have "sorted_wrt (\<lambda>p q. \<not> tree_lt s (o_price (order_at b q)) (o_price (order_at b p)))
      (concat (map (queue b s) ks))" if "sorted_wrt (tree_lt s) ks" for ks
    using that
  proof (induction ks)
    case (Cons k ks)
    have "sorted_wrt (\<lambda>p q. \<not> tree_lt s (o_price (order_at b q)) (o_price (order_at b p))) xs"
      if "set xs \<subseteq> set (queue b s k)" for xs
      using that by (induction xs) (auto simp: rep_order_at(2) [OF rep] pt.lt_irrefl)
    then show ?case
      using Cons rep_order_at(2) [OF rep] pt.lt_trans [of s] pt.lt_irrefl [of s]
      by (auto simp: sorted_wrt_append) metis
  qed simp
  then show ?thesis
    using rep_sorted [OF rep, of s]
    unfolding resting_def rep_resting_ptrs [OF rep] keys_sorted_def by (simp add: sorted_wrt_map del: map_map)
qed

lemma order_count_resting:
  assumes ok: "book_ok b"
  shows "order_count b = length (resting b Buy) + length (resting b Sell)"
proof -
  have rep: "book_rep b (queue b)" using ok by (simp add: book_ok_def)
  let ?H = "{p. \<exists>s k. p \<in> set (queue b s k)}"
  have P: "pool_ok (pool b)" and held: "?H = {..<capacity (pool b)} - free_slots (pool b)"
    and cnt: "order_count b + available (pool b) = capacity (pool b)"
    using rep by (auto simp: book_rep_def slots_ok_def)
  have "?H = set (resting_ptrs b Buy) \<union> set (resting_ptrs b Sell)"
    unfolding rep_set_resting [OF rep] by (auto, metis Side.exhaust)
  moreover have "set (resting_ptrs b Buy) \<inter> set (resting_ptrs b Sell) = {}"
    using ok_sides_disjoint [OF ok, of _ Buy Sell] by auto
  ultimately have "card ?H = length (resting b Buy) + length (resting b Sell)"
    using ok_distinct [OF ok] by (simp add: card_Un_disjoint distinct_card resting_def)
  moreover have "card ?H = capacity (pool b) - available (pool b)"
    unfolding held op.avail_free [OF P]
    using op.free_bound [OF P] finite_subset [OF op.free_bound [OF P]] by (simp add: card_Diff_subset)
  ultimately show ?thesis using cnt by linarith
qed

end
