(* ===== verification/Matching_Engine.thy ===== *)
theory Matching_Engine
  imports Order_Book
begin

text \<open>
  \<^verbatim>\<open>src/engine/matching_engine.{hpp,cpp}\<close>: validation, self-trade prevention, the matching loop
  and the per-client index of resting prices. The event sink is the log of the calls made
  on it, in order. Every function that dereferences a pointer returns an option; \<open>None\<close> is
  undefined behaviour, and for the two loops also divergence.
\<close>

section \<open>State\<close>

record ClientRestingPrices =
  crp_bids :: "(Price, u32) omap"
  crp_asks :: "(Price, u32) omap"

record MatchingEngine =
  book :: OrderBook
  last_accepted_id :: "ClientId \<Rightarrow> OrderId option"
  client_resting :: "ClientId \<Rightarrow> ClientRestingPrices option"
  next_sequence :: Sequence
  next_trade_sequence :: TradeSequence
  sink :: "SinkCall list"
  stp :: StpConfig

definition MatchingEngine_init :: "nat \<Rightarrow> StpConfig \<Rightarrow> MatchingEngine" where
  "MatchingEngine_init pool_capacity cfg =
     \<lparr>book = OrderBook_init pool_capacity, last_accepted_id = (\<lambda>_. None),
      client_resting = (\<lambda>_. None), next_sequence = Sequence 0,
      next_trade_sequence = TradeSequence 0, sink = [], stp = cfg\<rparr>"

definition emit :: "MatchingEngine \<Rightarrow> SinkCall \<Rightarrow> MatchingEngine" where
  "emit e c = e\<lparr>sink := sink e @ [c]\<rparr>"

definition set_book :: "MatchingEngine \<Rightarrow> OrderBook \<Rightarrow> MatchingEngine" where
  "set_book e b = e\<lparr>book := b\<rparr>"


section \<open>The index of resting prices\<close>

fun side_map :: "Side \<Rightarrow> ClientRestingPrices \<Rightarrow> (Price, u32) omap" where
  "side_map Buy crp = crp_bids crp"
| "side_map Sell crp = crp_asks crp"

fun set_side_map :: "Side \<Rightarrow> ClientRestingPrices \<Rightarrow> (Price, u32) omap \<Rightarrow> ClientRestingPrices" where
  "set_side_map Buy crp m = crp\<lparr>crp_bids := m\<rparr>"
| "set_side_map Sell crp m = crp\<lparr>crp_asks := m\<rparr>"

text \<open>\<open>++m[k]\<close>: a missing key starts from zero.\<close>

definition incr_key :: "Price \<Rightarrow> (Price, u32) omap \<Rightarrow> (Price, u32) omap" where
  "incr_key k m = (let m1 = try_emplace (<) k 0 m
                   in assign_key k (the (map_of m1 k) + 1) m1)"

definition index_rest :: "MatchingEngine \<Rightarrow> Order \<Rightarrow> MatchingEngine" where
  "index_rest e ord =
     (if \<not> enabled (stp e) then e
      else let crp = (case client_resting e (o_owner ord) of
                 None \<Rightarrow> \<lparr>crp_bids = [], crp_asks = []\<rparr> | Some c \<Rightarrow> c);
               crp' = set_side_map (o_side ord) crp (incr_key (o_price ord) (side_map (o_side ord) crp))
           in e\<lparr>client_resting := (client_resting e)(o_owner ord := Some crp')\<rparr>)"

definition index_unrest :: "MatchingEngine \<Rightarrow> Order \<Rightarrow> MatchingEngine" where
  "index_unrest e ord =
     (if \<not> enabled (stp e) then e
      else case client_resting e (o_owner ord) of
        None \<Rightarrow> e
      | Some crp \<Rightarrow>
          (case map_of (side_map (o_side ord) crp) (o_price ord) of
             None \<Rightarrow> e
           | Some n \<Rightarrow>
               let m1 = assign_key (o_price ord) (n - 1) (side_map (o_side ord) crp);
                   m2 = (if n - 1 = 0 then erase_key (o_price ord) m1 else m1);
                   crp' = set_side_map (o_side ord) crp m2
               in e\<lparr>client_resting := (client_resting e)(o_owner ord :=
                      if crp_bids crp' = [] \<and> crp_asks crp' = [] then None else Some crp')\<rparr>))"

definition would_self_cross :: "MatchingEngine \<Rightarrow> Side \<Rightarrow> ClientId \<Rightarrow> Price option \<Rightarrow> bool" where
  "would_self_cross e incoming_side incoming_owner limit_price =
     (case client_resting e incoming_owner of
        None \<Rightarrow> False
      | Some crp \<Rightarrow>
          (case incoming_side of
             Buy \<Rightarrow>
               (if crp_asks crp = [] then False
                else let lowest_own_ask = fst (hd (crp_asks crp))
                     in (case limit_price of None \<Rightarrow> True | Some p \<Rightarrow> lowest_own_ask \<le> p))
           | Sell \<Rightarrow>
               (if crp_bids crp = [] then False
                else let highest_own_bid = fst (last (crp_bids crp))
                     in (case limit_price of None \<Rightarrow> True | Some p \<Rightarrow> highest_own_bid \<ge> p))))"


section \<open>The matching loop\<close>

text \<open>
  The inner loop tests \<open>level->empty()\<close> after \<open>remove_order\<close> may have erased the level from
  its tree, that is, after the level was destroyed. What such a read yields is a parameter:
  \<open>Retained\<close> (the freed node still shows the null \<open>head_\<close> that \<open>PriceLevel::remove\<close> left
  there) or \<open>Trap\<close> (the read faults).
\<close>

datatype freed_node = Retained | Trap

definition read_empty :: "freed_node \<Rightarrow> OrderBook \<Rightarrow> level_ref \<Rightarrow> bool option" where
  "read_empty fr b r = (case level_at b r of
       Some l \<Rightarrow> Some (level_empty l)
     | None \<Rightarrow> (case fr of Retained \<Rightarrow> Some True | Trap \<Rightarrow> None))"

text \<open>What the loops read of the incoming order.\<close>

record Incoming =
  in_side :: Side
  in_id :: OrderId
  in_owner :: ClientId
  in_limit :: "Price option"

fun crosses :: "Side \<Rightarrow> Price option \<Rightarrow> Price \<Rightarrow> bool" where
  "crosses s None k \<longleftrightarrow> True"
| "crosses Buy (Some p) k \<longleftrightarrow> \<not> p < k"
| "crosses Sell (Some p) k \<longleftrightarrow> \<not> p > k"

definition stp_cancel_resting :: "MatchingEngine \<Rightarrow> bool" where
  "stp_cancel_resting e \<longleftrightarrow> enabled (stp e) \<and> policy (stp e) = CancelResting"

definition fill_quantity :: "Quantity \<Rightarrow> Quantity \<Rightarrow> Quantity" where
  "fill_quantity remaining q = (if remaining < q then remaining else q)"

definition make_trade :: "TradeSequence \<Rightarrow> Incoming \<Rightarrow> Order \<Rightarrow> Quantity \<Rightarrow> Trade" where
  "make_trade ts i ord fill_qty =
     \<lparr>trade_sequence = ts,
      buy_order_id = (if in_side i = Buy then in_id i else o_id ord),
      sell_order_id = (if in_side i = Sell then in_id i else o_id ord),
      t_price = o_price ord, t_quantity = fill_qty,
      resting_order_removed = (fill_qty = o_quantity ord)\<rparr>"

definition cancel_event :: "Order \<Rightarrow> SinkCall" where
  "cancel_event ord = on_order_cancelled
     \<lparr>can_id = o_id ord, can_remaining_qty = o_quantity ord, can_side = o_side ord, can_price = o_price ord\<rparr>"

text \<open>The self-trade branch of the inner loop: pull the resting order.\<close>

definition pull_resting :: "MatchingEngine \<Rightarrow> order_ptr \<Rightarrow> MatchingEngine option" where
  "pull_resting e p = do {
     ord \<leftarrow> load (mem (book e)) p;
     let e1 = index_unrest e ord;
     b \<leftarrow> remove_order (book e1) p;
     Some (emit (set_book e1 b) (cancel_event ord))
   }"

text \<open>The trading branch: the fill against the resting order, and its removal when consumed.\<close>

definition fill_resting ::
  "MatchingEngine \<Rightarrow> Incoming \<Rightarrow> level_ref \<Rightarrow> order_ptr \<Rightarrow> Quantity \<Rightarrow>
   (Quantity \<times> Trade \<times> MatchingEngine) option" where
  "fill_resting e i level p remaining = do {
     ord \<leftarrow> load (mem (book e)) p;
     let fill_qty = fill_quantity remaining (o_quantity ord);
     let fully_consumed = (fill_qty = o_quantity ord);
     let trade = make_trade (next_trade_sequence e) i ord fill_qty;
     let e1 = emit (e\<lparr>next_trade_sequence := next_trade_seq (next_trade_sequence e)\<rparr>) (on_trade trade);
     let remaining' = remaining - fill_qty;
     b1 \<leftarrow> reduce_order (book e1) p fill_qty;
     b2 \<leftarrow> reduce_level b1 level fill_qty;
     let e2 = set_book e1 b2;
     if fully_consumed then do {
       ord' \<leftarrow> load (mem (book e2)) p;
       let e3 = index_unrest e2 ord';
       b3 \<leftarrow> remove_order (book e3) p;
       Some (remaining', trade, set_book e3 b3)
     } else Some (remaining', trade, e2)
   }"

partial_function (option) match_level ::
  "freed_node \<Rightarrow> Incoming \<Rightarrow> level_ref \<Rightarrow> Quantity \<Rightarrow> Trade list \<Rightarrow> MatchingEngine \<Rightarrow>
   (Quantity \<times> Trade list \<times> MatchingEngine) option" where
  "match_level fr i level remaining trs e =
     (if remaining > 0 then do {
        empty \<leftarrow> read_empty fr (book e) level;
        if empty then Some (remaining, trs, e)
        else do {
          l \<leftarrow> level_at (book e) level;
          p \<leftarrow> front l;
          ord \<leftarrow> load (mem (book e)) p;
          if stp_cancel_resting e \<and> o_owner ord = in_owner i then do {
            e' \<leftarrow> pull_resting e p;
            Some (remaining, trs, e')
          } else do {
            (remaining', trade, e') \<leftarrow> fill_resting e i level p remaining;
            match_level fr i level remaining' (trs @ [trade]) e'
          }
        }
      } else Some (remaining, trs, e))"

definition best_opposite :: "MatchingEngine \<Rightarrow> Side \<Rightarrow> level_ref option" where
  "best_opposite e incoming_side =
     (case incoming_side of Buy \<Rightarrow> best_ask (book e) | Sell \<Rightarrow> best_bid (book e))"

partial_function (option) match_loop ::
  "freed_node \<Rightarrow> Incoming \<Rightarrow> Quantity \<Rightarrow> Trade list \<Rightarrow> MatchingEngine \<Rightarrow>
   (Quantity \<times> Trade list \<times> MatchingEngine) option" where
  "match_loop fr i remaining trs e =
     (if remaining > 0 then
        (case best_opposite e (in_side i) of
           None \<Rightarrow> Some (remaining, trs, e)
         | Some level \<Rightarrow> do {
             l \<leftarrow> level_at (book e) level;
             if \<not> crosses (in_side i) (in_limit i) (level_price l) then Some (remaining, trs, e)
             else do {
               (remaining', trs', e') \<leftarrow> match_level fr i level remaining trs e;
               match_loop fr i remaining' trs' e'
             }
           })
      else Some (remaining, trs, e))"

declare match_level.simps [code] match_loop.simps [code]

definition match_against_book ::
  "freed_node \<Rightarrow> MatchingEngine \<Rightarrow> Incoming \<Rightarrow> Quantity \<Rightarrow>
   (Quantity \<times> Trade list \<times> MatchingEngine) option" where
  "match_against_book fr e i remaining = match_loop fr i remaining [] e"


section \<open>Submitting and cancelling\<close>

definition reject :: "EngineResult \<Rightarrow> OrderId \<Rightarrow> EngineResponse" where
  "reject r i = \<lparr>status = r, trades = [], remaining_qty = 0, r_order_id = i\<rparr>"

definition watermark_rejects :: "MatchingEngine \<Rightarrow> ClientId \<Rightarrow> OrderId \<Rightarrow> bool" where
  "watermark_rejects e c i = (case last_accepted_id e c of None \<Rightarrow> False | Some w \<Rightarrow> oid i \<le> oid w)"

definition stp_reject_incoming :: "MatchingEngine \<Rightarrow> bool" where
  "stp_reject_incoming e \<longleftrightarrow> enabled (stp e) \<and> policy (stp e) = RejectIncoming"

definition accept_id :: "MatchingEngine \<Rightarrow> ClientId \<Rightarrow> OrderId \<Rightarrow> MatchingEngine" where
  "accept_id e c i = e\<lparr>last_accepted_id := (last_accepted_id e)(c := Some i)\<rparr>"

definition rest_order :: "LimitOrder \<Rightarrow> Quantity \<Rightarrow> Sequence \<Rightarrow> Order" where
  "rest_order lo remaining sq =
     \<lparr>o_id = lo_id lo, o_side = lo_side lo, o_price = lo_price lo, o_quantity = remaining,
      o_sequence = sq, o_owner = lo_owner lo, o_prev = None, o_next = None, o_level = None\<rparr>"

definition submit_limit ::
  "freed_node \<Rightarrow> MatchingEngine \<Rightarrow> LimitOrder \<Rightarrow> (EngineResponse \<times> MatchingEngine) option" where
  "submit_limit fr e order =
     (if lo_quantity order = 0 then Some (reject InvalidQuantity (lo_id order), e)
      else if lo_price order \<le> 0 then Some (reject InvalidPrice (lo_id order), e)
      else if watermark_rejects e (lo_owner order) (lo_id order)
        then Some (reject DuplicateOrderId (lo_id order), e)
      else if stp_reject_incoming e \<and>
          would_self_cross e (lo_side order) (lo_owner order) (Some (lo_price order))
        then Some (reject SelfTradePrevented (lo_id order), e)
      else if pool_available (book e) = 0 then Some (reject PoolExhausted (lo_id order), e)
      else do {
        let e1 = accept_id e (lo_owner order) (lo_id order);
        let e2 = emit e1 (on_order_accepted
          \<lparr>acc_id = lo_id order, acc_side = lo_side order, acc_quantity = lo_quantity order,
           acc_price = lo_price order\<rparr>);
        (remaining, trs, e3) \<leftarrow> match_against_book fr e2
          \<lparr>in_side = lo_side order, in_id = lo_id order, in_owner = lo_owner order,
           in_limit = Some (lo_price order)\<rparr> (lo_quantity order);
        e5 \<leftarrow> (if remaining > 0 then do {
            let order_data = rest_order order remaining (next_sequence e3);
            let e4 = e3\<lparr>next_sequence := next_seq (next_sequence e3)\<rparr>;
            (p, b) \<leftarrow> add_order (book e4) order_data;
            Some (index_rest (set_book e4 b) order_data)
          } else Some e3);
        Some (\<lparr>status = Accepted, trades = trs, remaining_qty = remaining, r_order_id = lo_id order\<rparr>, e5)
      })"

definition submit_market ::
  "freed_node \<Rightarrow> MatchingEngine \<Rightarrow> MarketOrder \<Rightarrow> (EngineResponse \<times> MatchingEngine) option" where
  "submit_market fr e order =
     (if mo_quantity order = 0 then Some (reject InvalidQuantity (mo_id order), e)
      else if watermark_rejects e (mo_owner order) (mo_id order)
        then Some (reject DuplicateOrderId (mo_id order), e)
      else if stp_reject_incoming e \<and> would_self_cross e (mo_side order) (mo_owner order) None
        then Some (reject SelfTradePrevented (mo_id order), e)
      else do {
        let e1 = accept_id e (mo_owner order) (mo_id order);
        let e2 = emit e1 (on_order_accepted
          \<lparr>acc_id = mo_id order, acc_side = mo_side order, acc_quantity = mo_quantity order,
           acc_price = Price 0\<rparr>);
        (remaining, trs, e3) \<leftarrow> match_against_book fr e2
          \<lparr>in_side = mo_side order, in_id = mo_id order, in_owner = mo_owner order, in_limit = None\<rparr>
          (mo_quantity order);
        Some (\<lparr>status = Accepted, trades = trs, remaining_qty = remaining, r_order_id = mo_id order\<rparr>, e3)
      })"

fun submit :: "freed_node \<Rightarrow> MatchingEngine \<Rightarrow> NewOrder \<Rightarrow> (EngineResponse \<times> MatchingEngine) option" where
  "submit fr e (NewLimit o') = submit_limit fr e o'"
| "submit fr e (NewMarket o') = submit_market fr e o'"

definition cancel :: "MatchingEngine \<Rightarrow> OrderId \<Rightarrow> (EngineResponse \<times> MatchingEngine) option" where
  "cancel e i =
     (case find_order (book e) i of
        None \<Rightarrow> Some (\<lparr>status = UnknownOrderId, trades = [], remaining_qty = 0, r_order_id = i\<rparr>, e)
      | Some p \<Rightarrow> do {
          ord \<leftarrow> load (mem (book e)) p;
          let remaining = o_quantity ord;
          let side = o_side ord;
          let price = o_price ord;
          let e1 = index_unrest e ord;
          b \<leftarrow> remove_order (book e1) p;
          let e2 = emit (set_book e1 b) (on_order_cancelled
            \<lparr>can_id = i, can_remaining_qty = remaining, can_side = side, can_price = price\<rparr>);
          Some (\<lparr>status = Accepted, trades = [], remaining_qty = remaining, r_order_id = i\<rparr>, e2)
        })"

end
