(* ===== verification/Engine_Spec.thy ===== *)
theory Engine_Spec
  imports Matching_Engine
begin

text \<open>
  The abstract exchange: each side of the book is a list of orders in priority order, and an
  accepted order is matched against the head of the opposite list until it is filled or no
  longer crosses. Pointers, levels, trees and the pool are gone; what is left of the pool is
  the number of free slots, and of the id index the owner of the order an id finds.
\<close>

section \<open>State\<close>

record Spec =
  sp_side :: "Side \<Rightarrow> Order list"
  sp_index :: "OrderId \<Rightarrow> ClientId option"
  sp_watermark :: "ClientId \<Rightarrow> OrderId option"
  sp_next_seq :: Sequence
  sp_next_trade :: TradeSequence
  sp_log :: "SinkCall list"
  sp_stp :: StpConfig
  sp_free :: nat

definition sp_drop :: "Side \<Rightarrow> Order \<Rightarrow> Spec \<Rightarrow> Spec" where
  "sp_drop s x S = S\<lparr>sp_side := (sp_side S)(s := remove1 x (sp_side S s)),
     sp_index := (sp_index S)(o_id x := None), sp_free := sp_free S + 1\<rparr>"

definition sp_emit :: "SinkCall \<Rightarrow> Spec \<Rightarrow> Spec" where
  "sp_emit c S = S\<lparr>sp_log := sp_log S @ [c]\<rparr>"

definition sp_trade :: "Trade \<Rightarrow> Spec \<Rightarrow> Spec" where
  "sp_trade t S = (sp_emit (on_trade t) S)\<lparr>sp_next_trade := next_trade_seq (sp_next_trade S)\<rparr>"

definition sp_reduce :: "Side \<Rightarrow> Order \<Rightarrow> Quantity \<Rightarrow> Spec \<Rightarrow> Spec" where
  "sp_reduce s x f S = S\<lparr>sp_side := (sp_side S)(s :=
     x\<lparr>o_quantity := o_quantity x - f\<rparr> # tl (sp_side S s))\<rparr>"

definition sp_rest :: "Order \<Rightarrow> Spec \<Rightarrow> Spec" where
  "sp_rest x S = S\<lparr>sp_side := (sp_side S)(o_side x := insert_order (o_side x) x (sp_side S (o_side x))),
     sp_index := (case sp_index S (o_id x) of None \<Rightarrow> (sp_index S)(o_id x := Some (o_owner x))
                  | Some _ \<Rightarrow> sp_index S),
     sp_next_seq := next_seq (sp_next_seq S), sp_free := sp_free S - 1\<rparr>"

definition sp_cancel_resting :: "Spec \<Rightarrow> bool" where
  "sp_cancel_resting S \<longleftrightarrow> enabled (sp_stp S) \<and> policy (sp_stp S) = CancelResting"

definition sp_reject_incoming :: "Spec \<Rightarrow> bool" where
  "sp_reject_incoming S \<longleftrightarrow> enabled (sp_stp S) \<and> policy (sp_stp S) = RejectIncoming"

lemma sp_drop_sel [simp]:
  "sp_side (sp_drop s x S) = (sp_side S)(s := remove1 x (sp_side S s))"
  "sp_index (sp_drop s x S) = (sp_index S)(o_id x := None)"
  "sp_watermark (sp_drop s x S) = sp_watermark S" "sp_next_seq (sp_drop s x S) = sp_next_seq S"
  "sp_next_trade (sp_drop s x S) = sp_next_trade S" "sp_log (sp_drop s x S) = sp_log S"
  "sp_stp (sp_drop s x S) = sp_stp S" "sp_free (sp_drop s x S) = sp_free S + 1"
  by (simp_all add: sp_drop_def)

lemma sp_emit_sel [simp]:
  "sp_side (sp_emit c S) = sp_side S" "sp_index (sp_emit c S) = sp_index S"
  "sp_watermark (sp_emit c S) = sp_watermark S" "sp_next_seq (sp_emit c S) = sp_next_seq S"
  "sp_next_trade (sp_emit c S) = sp_next_trade S" "sp_log (sp_emit c S) = sp_log S @ [c]"
  "sp_stp (sp_emit c S) = sp_stp S" "sp_free (sp_emit c S) = sp_free S"
  by (simp_all add: sp_emit_def)

lemma sp_trade_sel [simp]:
  "sp_side (sp_trade t S) = sp_side S" "sp_index (sp_trade t S) = sp_index S"
  "sp_watermark (sp_trade t S) = sp_watermark S" "sp_next_seq (sp_trade t S) = sp_next_seq S"
  "sp_next_trade (sp_trade t S) = next_trade_seq (sp_next_trade S)"
  "sp_log (sp_trade t S) = sp_log S @ [on_trade t]"
  "sp_stp (sp_trade t S) = sp_stp S" "sp_free (sp_trade t S) = sp_free S"
  by (simp_all add: sp_trade_def)

lemma sp_reduce_sel [simp]:
  "sp_side (sp_reduce s x f S) = (sp_side S)(s := x\<lparr>o_quantity := o_quantity x - f\<rparr> # tl (sp_side S s))"
  "sp_index (sp_reduce s x f S) = sp_index S" "sp_watermark (sp_reduce s x f S) = sp_watermark S"
  "sp_next_seq (sp_reduce s x f S) = sp_next_seq S"
  "sp_next_trade (sp_reduce s x f S) = sp_next_trade S" "sp_log (sp_reduce s x f S) = sp_log S"
  "sp_stp (sp_reduce s x f S) = sp_stp S" "sp_free (sp_reduce s x f S) = sp_free S"
  by (simp_all add: sp_reduce_def)

lemma sp_stp_sel [simp]:
  "sp_cancel_resting (sp_drop s x S) = sp_cancel_resting S"
  "sp_cancel_resting (sp_emit c S) = sp_cancel_resting S"
  "sp_cancel_resting (sp_trade t S) = sp_cancel_resting S"
  by (simp_all add: sp_cancel_resting_def)


section \<open>Matching\<close>

function spec_match :: "Incoming \<Rightarrow> Quantity \<Rightarrow> Trade list \<Rightarrow> Spec \<Rightarrow> Quantity \<times> Trade list \<times> Spec" where
  "spec_match i remaining trs S =
     (let s = opposite (in_side i) in
      case sp_side S s of
        [] \<Rightarrow> (remaining, trs, S)
      | x # xs \<Rightarrow>
          if remaining = 0 \<or> \<not> crosses (in_side i) (in_limit i) (o_price x) then (remaining, trs, S)
          else if sp_cancel_resting S \<and> o_owner x = in_owner i
            then spec_match i remaining trs (sp_emit (cancel_event x) (sp_drop s x S))
          else let f = fill_quantity remaining (o_quantity x);
                   t = make_trade (sp_next_trade S) i x f
               in if f = o_quantity x
                  then spec_match i (remaining - f) (trs @ [t]) (sp_drop s x (sp_trade t S))
                  else (remaining - f, trs @ [t], sp_reduce s x f (sp_trade t S)))"
  by pat_completeness auto
termination
  by (relation "measure (\<lambda>(i, _, _, S). length (sp_side S (opposite (in_side i))))") auto

declare spec_match.simps [simp del]


section \<open>Requests\<close>

definition spec_self_cross :: "Spec \<Rightarrow> Side \<Rightarrow> ClientId \<Rightarrow> Price option \<Rightarrow> bool" where
  "spec_self_cross S side owner lim \<longleftrightarrow>
     (\<exists>x \<in> set (sp_side S (opposite side)). o_owner x = owner \<and> crosses side lim (o_price x))"

definition spec_stale :: "Spec \<Rightarrow> ClientId \<Rightarrow> OrderId \<Rightarrow> bool" where
  "spec_stale S c i = (case sp_watermark S c of None \<Rightarrow> False | Some w \<Rightarrow> oid i \<le> oid w)"

definition sp_accept :: "ClientId \<Rightarrow> OrderAccepted \<Rightarrow> Spec \<Rightarrow> Spec" where
  "sp_accept c a S = sp_emit (on_order_accepted a)
     (S\<lparr>sp_watermark := (sp_watermark S)(c := Some (acc_id a))\<rparr>)"

lemma sp_accept_sel [simp]:
  "sp_side (sp_accept c a S) = sp_side S" "sp_index (sp_accept c a S) = sp_index S"
  "sp_watermark (sp_accept c a S) = (sp_watermark S)(c := Some (acc_id a))"
  "sp_next_seq (sp_accept c a S) = sp_next_seq S"
  "sp_next_trade (sp_accept c a S) = sp_next_trade S"
  "sp_log (sp_accept c a S) = sp_log S @ [on_order_accepted a]"
  "sp_stp (sp_accept c a S) = sp_stp S" "sp_free (sp_accept c a S) = sp_free S"
  by (simp_all add: sp_accept_def)

definition spec_limit :: "LimitOrder \<Rightarrow> Spec \<Rightarrow> EngineResponse \<times> Spec" where
  "spec_limit lo S =
     (if lo_quantity lo = 0 then (reject InvalidQuantity (lo_id lo), S)
      else if lo_price lo \<le> 0 then (reject InvalidPrice (lo_id lo), S)
      else if spec_stale S (lo_owner lo) (lo_id lo) then (reject DuplicateOrderId (lo_id lo), S)
      else if sp_reject_incoming S \<and> spec_self_cross S (lo_side lo) (lo_owner lo) (Some (lo_price lo))
        then (reject SelfTradePrevented (lo_id lo), S)
      else if sp_free S = 0 then (reject PoolExhausted (lo_id lo), S)
      else let (remaining, trs, S1) = spec_match
                 \<lparr>in_side = lo_side lo, in_id = lo_id lo, in_owner = lo_owner lo,
                  in_limit = Some (lo_price lo)\<rparr> (lo_quantity lo) []
                 (sp_accept (lo_owner lo) \<lparr>acc_id = lo_id lo, acc_side = lo_side lo,
                   acc_quantity = lo_quantity lo, acc_price = lo_price lo\<rparr> S);
               S2 = (if remaining > 0 then sp_rest (rest_order lo remaining (sp_next_seq S1)) S1 else S1)
           in (\<lparr>status = Accepted, trades = trs, remaining_qty = remaining, r_order_id = lo_id lo\<rparr>, S2))"

definition spec_market :: "MarketOrder \<Rightarrow> Spec \<Rightarrow> EngineResponse \<times> Spec" where
  "spec_market mo S =
     (if mo_quantity mo = 0 then (reject InvalidQuantity (mo_id mo), S)
      else if spec_stale S (mo_owner mo) (mo_id mo) then (reject DuplicateOrderId (mo_id mo), S)
      else if sp_reject_incoming S \<and> spec_self_cross S (mo_side mo) (mo_owner mo) None
        then (reject SelfTradePrevented (mo_id mo), S)
      else let (remaining, trs, S1) = spec_match
                 \<lparr>in_side = mo_side mo, in_id = mo_id mo, in_owner = mo_owner mo, in_limit = None\<rparr>
                 (mo_quantity mo) []
                 (sp_accept (mo_owner mo) \<lparr>acc_id = mo_id mo, acc_side = mo_side mo,
                   acc_quantity = mo_quantity mo, acc_price = Price 0\<rparr> S)
           in (\<lparr>status = Accepted, trades = trs, remaining_qty = remaining, r_order_id = mo_id mo\<rparr>, S1))"

fun spec_submit :: "NewOrder \<Rightarrow> Spec \<Rightarrow> EngineResponse \<times> Spec" where
  "spec_submit (NewLimit lo) S = spec_limit lo S"
| "spec_submit (NewMarket mo) S = spec_market mo S"

definition spec_find :: "Spec \<Rightarrow> OrderId \<Rightarrow> Order option" where
  "spec_find S i = (case sp_index S i of None \<Rightarrow> None
     | Some c \<Rightarrow> find (\<lambda>x. o_id x = i \<and> o_owner x = c) (sp_side S Buy @ sp_side S Sell))"

definition spec_cancel :: "OrderId \<Rightarrow> Spec \<Rightarrow> EngineResponse \<times> Spec" where
  "spec_cancel i S = (case spec_find S i of
       None \<Rightarrow> (reject UnknownOrderId i, S)
     | Some x \<Rightarrow> (\<lparr>status = Accepted, trades = [], remaining_qty = o_quantity x, r_order_id = i\<rparr>,
                  sp_emit (cancel_event x) (sp_drop (o_side x) x S)))"


section \<open>Invariant\<close>

definition order_ident :: "Order \<Rightarrow> ClientId \<times> OrderId" where
  "order_ident x = (o_owner x, o_id x)"

definition spec_orders :: "Spec \<Rightarrow> Order list" where
  "spec_orders S = sp_side S Buy @ sp_side S Sell"

definition side_ok :: "Side \<Rightarrow> Order list \<Rightarrow> bool" where
  "side_ok s xs \<longleftrightarrow>
     sorted_wrt (\<lambda>x y. \<not> tree_lt s (o_price y) (o_price x)) xs \<and>
     (\<forall>x \<in> set xs. o_side x = s \<and> 0 < o_quantity x \<and> 0 < o_price x)"

definition uncrossed :: "Spec \<Rightarrow> bool" where
  "uncrossed S \<longleftrightarrow> (\<forall>x \<in> set (sp_side S Buy). \<forall>y \<in> set (sp_side S Sell). o_price x < o_price y)"

definition idents_ok :: "Spec \<Rightarrow> bool" where
  "idents_ok S \<longleftrightarrow> distinct (map order_ident (spec_orders S)) \<and>
     (\<forall>x \<in> set (spec_orders S). \<exists>w. sp_watermark S (o_owner x) = Some w \<and> oid (o_id x) \<le> oid w)"

definition index_sound :: "Spec \<Rightarrow> bool" where
  "index_sound S \<longleftrightarrow> (\<forall>i c. sp_index S i = Some c \<longrightarrow> (c, i) \<in> order_ident ` set (spec_orders S))"

definition spec_ok :: "Spec \<Rightarrow> bool" where
  "spec_ok S \<longleftrightarrow> (\<forall>s. side_ok s (sp_side S s)) \<and> uncrossed S \<and> idents_ok S \<and> index_sound S"

end
