(* ===== verification/Spec_Invariant.thy ===== *)
theory Spec_Invariant
  imports Engine_Spec
begin

text \<open>
  The invariant \<open>spec_ok\<close> of the abstract exchange is kept by every request, and the facts
  about \<open>spec_match\<close> that the properties of the engine rest on: what it leaves unchanged,
  why it stops, and that quantity is neither created nor lost.
\<close>

section \<open>Building blocks\<close>

lemma in_set_remove1_D: "y \<in> set (remove1 x xs) \<Longrightarrow> y \<in> set xs"
  by (rule subsetD [OF set_remove1_subset])

lemma sorted_wrt_remove1: "sorted_wrt P xs \<Longrightarrow> sorted_wrt P (remove1 x xs)"
  by (induction xs) (auto dest: in_set_remove1_D)

lemma side_ok_remove1: "side_ok s xs \<Longrightarrow> side_ok s (remove1 x xs)"
  using set_remove1_subset [of x xs] by (auto simp: side_ok_def sorted_wrt_remove1)

lemma insert_order_split:
  obtains a c where "xs = a @ c" and "insert_order s x xs = a @ x # c"
proof
  let ?P = "\<lambda>y. \<not> tree_lt s (o_price x) (o_price y)"
  show "xs = takeWhile ?P xs @ dropWhile ?P xs" by simp
  show "insert_order s x xs = takeWhile ?P xs @ x # dropWhile ?P xs" by (simp add: insert_order_def)
qed

lemma set_insert_order [simp]: "set (insert_order s x xs) = insert x (set xs)"
  by (rule insert_order_split [of xs s x]) auto

lemma distinct_insert_order:
  "distinct (map f (insert_order s x xs)) \<longleftrightarrow> distinct (map f (x # xs))"
  by (rule insert_order_split [of xs s x]) auto

lemma dropWhile_sorted_price:
  assumes "sorted_wrt (\<lambda>x y. \<not> tree_lt s (o_price y) (o_price x)) xs"
    and "y \<in> set (dropWhile (\<lambda>y. \<not> tree_lt s k (o_price y)) xs)"
  shows "tree_lt s k (o_price y)"
  using assms
proof (induction xs)
  case (Cons x xs)
  show ?case
  proof (cases "tree_lt s k (o_price x)")
    case True
    with Cons.prems have "y = x \<or> y \<in> set xs" by auto
    then have "y = x \<or> o_price x = o_price y \<or> tree_lt s (o_price x) (o_price y)"
      using Cons.prems(1) pt.lt_total [of "o_price x" "o_price y" s] by auto
    then show ?thesis
      using True pt.lt_trans by metis
  next
    case False
    then show ?thesis using Cons by auto
  qed
qed simp

lemma side_ok_insert:
  assumes "side_ok s xs" and "o_side x = s" and "0 < o_quantity x" and "0 < o_price x"
  shows "side_ok s (insert_order s x xs)"
proof -
  let ?R = "\<lambda>x y. \<not> tree_lt s (o_price y) (o_price x)"
  let ?P = "\<lambda>y. \<not> tree_lt s (o_price x) (o_price y)"
  define a c where "a = takeWhile ?P xs" and "c = dropWhile ?P xs"
  have xs: "xs = a @ c" and ins: "insert_order s x xs = a @ x # c"
    by (simp_all add: a_def c_def insert_order_def)
  have so: "sorted_wrt ?R (a @ c)"
    using assms(1) xs by (simp add: side_ok_def)
  have "?R x y" if "y \<in> set c" for y
  proof -
    have "tree_lt s (o_price x) (o_price y)"
      using that assms(1) unfolding c_def by (intro dropWhile_sorted_price) (auto simp: side_ok_def)
    then show ?thesis
      using pt.lt_trans [of s "o_price x" "o_price y" "o_price x"] pt.lt_irrefl [of s "o_price x"] by blast
  qed
  moreover have "?R y x" if "y \<in> set a" for y
    using that set_takeWhileD unfolding a_def by fast
  ultimately have "sorted_wrt ?R (insert_order s x xs)"
    using so unfolding ins sorted_wrt_append sorted_wrt.simps by auto
  then show ?thesis
    using assms by (auto simp: side_ok_def)
qed

lemma spec_orders_side: "x \<in> set (spec_orders S) \<longleftrightarrow> (\<exists>s. x \<in> set (sp_side S s))"
  unfolding spec_orders_def by (auto, metis Side.exhaust)

lemma spec_ok_cong:
  assumes "spec_ok S" and "sp_side S' = sp_side S" and "sp_index S' = sp_index S"
    and "sp_watermark S' = sp_watermark S"
  shows "spec_ok S'"
  using assms by (simp add: spec_ok_def uncrossed_def idents_ok_def index_sound_def spec_orders_def)

lemma spec_ok_emit [intro]: "spec_ok S \<Longrightarrow> spec_ok (sp_emit c S)"
  by (erule spec_ok_cong) simp_all

lemma spec_ok_trade [intro]: "spec_ok S \<Longrightarrow> spec_ok (sp_trade t S)"
  by (erule spec_ok_cong) simp_all

lemma spec_orders_drop_subset: "set (spec_orders (sp_drop s x S)) \<subseteq> set (spec_orders S)"
  by (auto simp: spec_orders_def dest: in_set_remove1_D split: if_splits)

lemma distinct_map_remove1: "distinct (map f xs) \<Longrightarrow> distinct (map f (remove1 x xs))"
  by (induction xs) (auto dest: in_set_remove1_D)

lemma distinct_sides_mono:
  assumes "distinct (map f (spec_orders S))"
    and "\<And>s. distinct (map f (sp_side S s)) \<Longrightarrow> distinct (map f (sp_side S' s))"
    and "\<And>s x. x \<in> set (sp_side S' s) \<Longrightarrow> f x \<in> f ` set (sp_side S s)"
  shows "distinct (map f (spec_orders S'))"
proof -
  have "f ` set (sp_side S' s) \<subseteq> f ` set (sp_side S s)" for s
    using assms(3) by auto
  from this [of Buy] this [of Sell] show ?thesis
    using assms(1,2) unfolding spec_orders_def map_append distinct_append set_map by blast
qed

lemma spec_ok_drop:
  assumes ok: "spec_ok S" and x: "x \<in> set (sp_side S s)"
  shows "spec_ok (sp_drop s x S)"
proof -
  have d: "distinct (map order_ident (spec_orders S))"
    using ok by (simp add: spec_ok_def idents_ok_def)
  have "distinct (map order_ident (spec_orders (sp_drop s x S)))"
    by (rule distinct_sides_mono [OF d]) (auto simp: distinct_map_remove1 dest: in_set_remove1_D split: if_splits)
  then have "idents_ok (sp_drop s x S)"
    using ok spec_orders_drop_subset [of s x S] by (auto simp: spec_ok_def idents_ok_def)
  moreover have "index_sound (sp_drop s x S)"
    unfolding index_sound_def
  proof (intro allI impI)
    fix i c assume "sp_index (sp_drop s x S) i = Some c"
    then have i: "i \<noteq> o_id x" "sp_index S i = Some c" by (auto split: if_splits)
    then obtain y s' where y: "y \<in> set (sp_side S s')" "order_ident y = (c, i)"
      using ok spec_orders_side [of _ S] unfolding spec_ok_def index_sound_def by force
    with i have "y \<noteq> x" by (auto simp: order_ident_def)
    with y have "y \<in> set (sp_side (sp_drop s x S) s')" by auto
    then have "y \<in> set (spec_orders (sp_drop s x S))" unfolding spec_orders_side by blast
    with y(2) show "(c, i) \<in> order_ident ` set (spec_orders (sp_drop s x S))" by force
  qed
  moreover have "uncrossed (sp_drop s x S)"
    using ok by (auto simp: spec_ok_def uncrossed_def dest: in_set_remove1_D)
  ultimately show ?thesis
    using ok by (auto simp: spec_ok_def side_ok_remove1)
qed

lemma spec_ok_reduce:
  assumes ok: "spec_ok S" and x: "sp_side S s = x # xs" and f: "f < o_quantity x"
  shows "spec_ok (sp_reduce s x f S)"
proof -
  let ?x = "x\<lparr>o_quantity := o_quantity x - f\<rparr>"
  have q: "0 < o_quantity x - f"
    using f qty_nat_minus [OF less_imp_le [OF f]] by (simp add: qty_less_iff)
  have id: "order_ident ?x = order_ident x" by (simp add: order_ident_def)
  have idents: "map order_ident (spec_orders (sp_reduce s x f S)) = map order_ident (spec_orders S)"
    using x id by (cases s) (simp_all add: spec_orders_def)
  have "side_ok s' (sp_side (sp_reduce s x f S) s')" for s'
  proof -
    have "side_ok s' (sp_side S s')" using ok by (simp add: spec_ok_def)
    then show ?thesis using x q by (auto simp: side_ok_def)
  qed
  moreover have "uncrossed (sp_reduce s x f S)"
    using ok x by (cases s) (auto simp: spec_ok_def uncrossed_def)
  moreover have "idents_ok (sp_reduce s x f S)"
  proof -
    have "\<exists>w. sp_watermark S (o_owner y) = Some w \<and> oid (o_id y) \<le> oid w"
      if "y \<in> set (spec_orders (sp_reduce s x f S))" for y
    proof -
      have "order_ident y \<in> set (map order_ident (spec_orders S))"
        using that unfolding idents [symmetric] by simp
      then obtain z where "z \<in> set (spec_orders S)" "o_owner z = o_owner y" "o_id z = o_id y"
        by (auto simp: order_ident_def)
      then show ?thesis using ok by (metis idents_ok_def spec_ok_def)
    qed
    then show ?thesis
      using ok idents by (simp add: idents_ok_def spec_ok_def)
  qed
  moreover have "index_sound (sp_reduce s x f S)"
    using ok unfolding spec_ok_def index_sound_def set_map [symmetric] idents by simp
  ultimately show ?thesis by (simp add: spec_ok_def)
qed

lemma spec_ok_accept:
  assumes ok: "spec_ok S" and fresh: "\<not> spec_stale S c (acc_id a)"
  shows "spec_ok (sp_accept c a S)"
    and "\<And>x. x \<in> set (spec_orders S) \<Longrightarrow> o_owner x = c \<Longrightarrow> oid (o_id x) < oid (acc_id a)"
proof -
  show lt: "oid (o_id x) < oid (acc_id a)" if x: "x \<in> set (spec_orders S)" "o_owner x = c" for x
  proof -
    obtain w where "sp_watermark S c = Some w" and "oid (o_id x) \<le> oid w"
      using ok x by (auto simp: spec_ok_def idents_ok_def)
    then show ?thesis using fresh by (simp add: spec_stale_def)
  qed
  have "idents_ok (sp_accept c a S)"
    using ok lt by (auto simp: spec_ok_def idents_ok_def spec_orders_def intro: less_imp_le)
  then show "spec_ok (sp_accept c a S)"
    using ok by (simp add: spec_ok_def uncrossed_def index_sound_def spec_orders_def)
qed


section \<open>Matching\<close>

text \<open>
  Induction for \<open>spec_match\<close>: what holds at the start and is kept by pulling a resting
  order, by a full fill and by a partial fill, holds at the end; and the reason it ended.
\<close>

lemma spec_match_rule:
  fixes P :: "Quantity \<Rightarrow> Trade list \<Rightarrow> Spec \<Rightarrow> bool"
  assumes run: "spec_match i rem trs S = (r, trs', S')" and init: "P rem trs S"
    and s: "s = opposite (in_side i)"
    and pull: "\<And>rem trs S x xs. P rem trs S \<Longrightarrow> sp_side S s = x # xs \<Longrightarrow> rem \<noteq> 0 \<Longrightarrow>
      crosses (in_side i) (in_limit i) (o_price x) \<Longrightarrow> sp_cancel_resting S \<Longrightarrow> o_owner x = in_owner i \<Longrightarrow>
      P rem trs (sp_emit (cancel_event x) (sp_drop s x S))"
    and full: "\<And>rem trs S x xs t. P rem trs S \<Longrightarrow> sp_side S s = x # xs \<Longrightarrow> rem \<noteq> 0 \<Longrightarrow>
      crosses (in_side i) (in_limit i) (o_price x) \<Longrightarrow> \<not> (sp_cancel_resting S \<and> o_owner x = in_owner i) \<Longrightarrow>
      o_quantity x \<le> rem \<Longrightarrow> t = make_trade (sp_next_trade S) i x (o_quantity x) \<Longrightarrow>
      P (rem - o_quantity x) (trs @ [t]) (sp_drop s x (sp_trade t S))"
    and part: "\<And>rem trs S x xs t. P rem trs S \<Longrightarrow> sp_side S s = x # xs \<Longrightarrow> rem \<noteq> 0 \<Longrightarrow>
      crosses (in_side i) (in_limit i) (o_price x) \<Longrightarrow> \<not> (sp_cancel_resting S \<and> o_owner x = in_owner i) \<Longrightarrow>
      rem < o_quantity x \<Longrightarrow> t = make_trade (sp_next_trade S) i x rem \<Longrightarrow>
      P 0 (trs @ [t]) (sp_reduce s x rem (sp_trade t S))"
  shows "P r trs' S'"
    and "r = 0 \<or> sp_side S' s = [] \<or> \<not> crosses (in_side i) (in_limit i) (o_price (hd (sp_side S' s)))"
proof -
  have "P r trs' S' \<and>
      (r = 0 \<or> sp_side S' s = [] \<or> \<not> crosses (in_side i) (in_limit i) (o_price (hd (sp_side S' s))))"
    using run init pull full part unfolding s
  proof (induction i rem trs S rule: spec_match.induct)
    case (1 i rem trs S)
    let ?s = "opposite (in_side i)"
    show ?case
    proof (cases "sp_side S ?s")
      case Nil
      then show ?thesis using 1(3,4) by (simp add: spec_match.simps)
    next
      case (Cons x xs)
      let ?f = "fill_quantity rem (o_quantity x)"
      let ?t = "make_trade (sp_next_trade S) i x ?f"
      note run = 1(3) [unfolded spec_match.simps [of i rem trs S] Let_def Cons, simplified]
      consider (stop) "rem = 0 \<or> \<not> crosses (in_side i) (in_limit i) (o_price x)"
        | (pull) "rem \<noteq> 0" "crosses (in_side i) (in_limit i) (o_price x)" "sp_cancel_resting S \<and> o_owner x = in_owner i"
        | (full) "rem \<noteq> 0" "crosses (in_side i) (in_limit i) (o_price x)"
            "\<not> (sp_cancel_resting S \<and> o_owner x = in_owner i)" "o_quantity x \<le> rem"
        | (part) "rem \<noteq> 0" "crosses (in_side i) (in_limit i) (o_price x)"
            "\<not> (sp_cancel_resting S \<and> o_owner x = in_owner i)" "rem < o_quantity x"
        using not_le by blast
      then show ?thesis
      proof cases
        case stop
        then show ?thesis using run 1(4) Cons by auto
      next
        case pull
        then show ?thesis
          using run 1(1) [OF refl Cons _ pull(3)] 1(4-7) 1(5) [OF 1(4) Cons] by simp
      next
        case full
        then have f: "?f = o_quantity x" by (auto simp: fill_quantity_def)
        show ?thesis
          using run full f 1(2) [OF refl Cons _ full(3) refl refl] 1(4-7) 1(6) [OF 1(4) Cons full refl]
          by simp
      next
        case part
        then have f: "?f = rem" "?f \<noteq> o_quantity x" by (auto simp: fill_quantity_def)
        then show ?thesis
          using run part 1(7) [OF 1(4) Cons part refl] by auto
      qed
    qed
  qed
  then show "P r trs' S'"
    and "r = 0 \<or> sp_side S' s = [] \<or> \<not> crosses (in_side i) (in_limit i) (o_price (hd (sp_side S' s)))"
    by auto
qed

lemma spec_match_ok:
  assumes "spec_match i rem trs S = (r, trs', S')" and "spec_ok S"
  shows "spec_ok S'"
  by (rule spec_match_rule(1) [OF assms(1), where P = "\<lambda>_ _. spec_ok"])
    (auto intro!: assms(2) spec_ok_emit spec_ok_drop spec_ok_trade spec_ok_reduce)

lemma spec_match_frame:
  assumes "spec_match i rem trs S = (r, trs', S')"
  shows "sp_side S' (in_side i) = sp_side S (in_side i)" and "sp_watermark S' = sp_watermark S"
    and "sp_next_seq S' = sp_next_seq S" and "sp_stp S' = sp_stp S" and "sp_free S \<le> sp_free S'"
proof -
  have "sp_side S' (in_side i) = sp_side S (in_side i) \<and> sp_watermark S' = sp_watermark S \<and>
      sp_next_seq S' = sp_next_seq S \<and> sp_stp S' = sp_stp S \<and> sp_free S \<le> sp_free S'"
    by (rule spec_match_rule(1) [OF assms, where P = "\<lambda>_ _ T. sp_side T (in_side i) = sp_side S (in_side i) \<and>
        sp_watermark T = sp_watermark S \<and> sp_next_seq T = sp_next_seq S \<and> sp_stp T = sp_stp S \<and>
        sp_free S \<le> sp_free T"]) auto
  then show "sp_side S' (in_side i) = sp_side S (in_side i)" and "sp_watermark S' = sp_watermark S"
    and "sp_next_seq S' = sp_next_seq S" and "sp_stp S' = sp_stp S" and "sp_free S \<le> sp_free S'"
    by auto
qed

lemma spec_match_idents:
  assumes "spec_match i rem trs S = (r, trs', S')"
  shows "order_ident ` set (spec_orders S') \<subseteq> order_ident ` set (spec_orders S)"
proof (rule spec_match_rule(1) [OF assms, where P = "\<lambda>_ _ T.
    order_ident ` set (spec_orders T) \<subseteq> order_ident ` set (spec_orders S)"])
  fix rem trs T x xs t
  assume P: "order_ident ` set (spec_orders T) \<subseteq> order_ident ` set (spec_orders S)"
    and x: "sp_side T (opposite (in_side i)) = x # xs"
  have o: "spec_orders (sp_emit c U) = spec_orders U" "spec_orders (sp_trade t U) = spec_orders U" for c U
    by (simp_all add: spec_orders_def)
  show "order_ident ` set (spec_orders (sp_emit (cancel_event x) (sp_drop (opposite (in_side i)) x T)))
      \<subseteq> order_ident ` set (spec_orders S)"
    using P spec_orders_drop_subset [of "opposite (in_side i)" x T] unfolding o by blast
  show "order_ident ` set (spec_orders (sp_drop (opposite (in_side i)) x (sp_trade t T)))
      \<subseteq> order_ident ` set (spec_orders S)"
    using P spec_orders_drop_subset [of "opposite (in_side i)" x "sp_trade t T"] unfolding o by blast
  have "map order_ident (spec_orders (sp_reduce (opposite (in_side i)) x rem (sp_trade t T)))
      = map order_ident (spec_orders T)"
    using x by (cases "in_side i") (simp_all add: spec_orders_def order_ident_def)
  then show "order_ident ` set (spec_orders (sp_reduce (opposite (in_side i)) x rem (sp_trade t T)))
      \<subseteq> order_ident ` set (spec_orders S)"
    using P by (metis set_map)
qed auto

lemma crosses_worse:
  assumes "\<not> crosses side lim k" and "\<not> tree_lt (opposite side) k' k"
  shows "\<not> crosses side lim k'"
  using assms by (cases side; cases lim) auto

lemma spec_match_stop:
  assumes run: "spec_match i rem trs S = (r, trs', S')" and ok: "spec_ok S" and r: "r \<noteq> 0"
    and x: "x \<in> set (sp_side S' (opposite (in_side i)))"
  shows "\<not> crosses (in_side i) (in_limit i) (o_price x)"
proof -
  let ?s = "opposite (in_side i)"
  obtain y ys where y: "sp_side S' ?s = y # ys"
    using x by (cases "sp_side S' ?s") auto
  have "\<not> crosses (in_side i) (in_limit i) (o_price y)"
    using spec_match_rule(2) [OF run, where P = "\<lambda>_ _ _. True"] r y by auto
  moreover have "side_ok ?s (sp_side S' ?s)"
    using spec_match_ok [OF run ok] by (simp add: spec_ok_def)
  then have "\<not> tree_lt ?s (o_price x) (o_price y)"
    using x pt.lt_irrefl by (auto simp: side_ok_def y)
  ultimately show ?thesis
    by (rule crosses_worse)
qed

definition traded :: "Trade list \<Rightarrow> nat" where
  "traded trs = sum_list (map (qty_nat \<circ> t_quantity) trs)"

lemma traded_append [simp]: "traded (xs @ ys) = traded xs + traded ys"
  by (simp add: traded_def)

lemma traded_single [simp]: "traded [t] = qty_nat (t_quantity t)"
  by (simp add: traded_def)

lemma make_trade_quantity [simp]: "t_quantity (make_trade ts i x f) = f"
  by (simp add: make_trade_def)

lemma spec_match_conserve:
  assumes "spec_match i rem trs S = (r, trs', S')"
  shows "qty_nat rem + traded trs = qty_nat r + traded trs'"
  by (rule spec_match_rule(1) [OF assms, where P = "\<lambda>q ts _. qty_nat rem + traded trs = qty_nat q + traded ts"])
    (auto simp: qty_nat_minus qty_le_iff)


section \<open>Requests keep the invariant\<close>

lemma spec_ok_rest:
  assumes ok: "spec_ok S" and x: "0 < o_quantity x" "0 < o_price x"
    and wm: "sp_watermark S (o_owner x) = Some (o_id x)"
    and fresh: "order_ident x \<notin> order_ident ` set (spec_orders S)"
    and nc: "\<And>y. y \<in> set (sp_side S (opposite (o_side x))) \<Longrightarrow> \<not> crosses (o_side x) (Some (o_price x)) (o_price y)"
  shows "spec_ok (sp_rest x S)"
proof -
  let ?S = "sp_rest x S"
  have sd: "sp_side ?S = (sp_side S)(o_side x := insert_order (o_side x) x (sp_side S (o_side x)))"
    by (simp add: sp_rest_def)
  have so: "set (spec_orders ?S) = insert x (set (spec_orders S))"
    unfolding spec_orders_def sd by (cases "o_side x") auto
  have "side_ok s (sp_side ?S s)" for s
    using ok x side_ok_insert unfolding sd spec_ok_def by simp
  moreover have "uncrossed ?S"
    using ok nc unfolding uncrossed_def sd spec_ok_def by (cases "o_side x") auto
  moreover have "idents_ok ?S"
  proof -
    have "distinct (map order_ident (spec_orders ?S))"
      using ok fresh distinct_insert_order [of order_ident "o_side x" x "sp_side S (o_side x)"]
      unfolding spec_orders_def sd spec_ok_def idents_ok_def by (cases "o_side x") auto
    moreover have "sp_watermark ?S = sp_watermark S" by (simp add: sp_rest_def)
    ultimately show ?thesis
      using ok wm so unfolding spec_ok_def idents_ok_def by auto
  qed
  moreover have "index_sound ?S"
    using ok so unfolding index_sound_def spec_ok_def
    by (auto simp: sp_rest_def order_ident_def split: option.splits if_splits)
  ultimately show ?thesis by (simp add: spec_ok_def)
qed

lemma spec_limit_accepted:
  assumes run: "spec_limit lo S = (resp, S')" and acc: "status resp = Accepted"
  obtains i a remaining trs S1 where
    "i = \<lparr>in_side = lo_side lo, in_id = lo_id lo, in_owner = lo_owner lo, in_limit = Some (lo_price lo)\<rparr>"
    and "a = \<lparr>acc_id = lo_id lo, acc_side = lo_side lo, acc_quantity = lo_quantity lo, acc_price = lo_price lo\<rparr>"
    and "spec_match i (lo_quantity lo) [] (sp_accept (lo_owner lo) a S) = (remaining, trs, S1)"
    and "S' = (if remaining > 0 then sp_rest (rest_order lo remaining (sp_next_seq S1)) S1 else S1)"
    and "resp = \<lparr>status = Accepted, trades = trs, remaining_qty = remaining, r_order_id = lo_id lo\<rparr>"
    and "lo_quantity lo \<noteq> 0" and "0 < lo_price lo" and "\<not> spec_stale S (lo_owner lo) (lo_id lo)"
    and "sp_reject_incoming S \<Longrightarrow> \<not> spec_self_cross S (lo_side lo) (lo_owner lo) (Some (lo_price lo))"
    and "sp_free S \<noteq> 0"
proof -
  let ?i = "\<lparr>in_side = lo_side lo, in_id = lo_id lo, in_owner = lo_owner lo, in_limit = Some (lo_price lo)\<rparr>"
  let ?a = "\<lparr>acc_id = lo_id lo, acc_side = lo_side lo, acc_quantity = lo_quantity lo, acc_price = lo_price lo\<rparr>"
  have g1: "lo_quantity lo \<noteq> 0"
    using run acc by (auto simp: spec_limit_def reject_def)
  have g2: "\<not> lo_price lo \<le> 0"
    using run acc g1 by (auto simp: spec_limit_def reject_def)
  have g3: "\<not> spec_stale S (lo_owner lo) (lo_id lo)"
    using run acc g1 g2 by (auto simp: spec_limit_def reject_def)
  have g4: "\<not> (sp_reject_incoming S \<and> spec_self_cross S (lo_side lo) (lo_owner lo) (Some (lo_price lo)))"
    using run acc g1 g2 g3 by (auto simp: spec_limit_def reject_def)
  have g5: "sp_free S \<noteq> 0"
    by (rule notI) (use run acc g1 g2 g3 g4 in \<open>auto simp: spec_limit_def reject_def\<close>)
  obtain remaining trs S1 where m: "spec_match ?i (lo_quantity lo) [] (sp_accept (lo_owner lo) ?a S) = (remaining, trs, S1)"
    by (rule prod_cases3)
  show ?thesis
    by (rule that [OF refl refl m _ _ g1 _ g3 _ g5])
      (use run g1 g2 g3 g4 g5 in \<open>simp_all add: spec_limit_def m not_le\<close>)
qed

lemma spec_market_accepted:
  assumes run: "spec_market mo S = (resp, S')" and acc: "status resp = Accepted"
  obtains i a remaining trs where
    "i = \<lparr>in_side = mo_side mo, in_id = mo_id mo, in_owner = mo_owner mo, in_limit = None\<rparr>"
    and "a = \<lparr>acc_id = mo_id mo, acc_side = mo_side mo, acc_quantity = mo_quantity mo, acc_price = Price 0\<rparr>"
    and "spec_match i (mo_quantity mo) [] (sp_accept (mo_owner mo) a S) = (remaining, trs, S')"
    and "resp = \<lparr>status = Accepted, trades = trs, remaining_qty = remaining, r_order_id = mo_id mo\<rparr>"
    and "mo_quantity mo \<noteq> 0" and "\<not> spec_stale S (mo_owner mo) (mo_id mo)"
    and "sp_reject_incoming S \<Longrightarrow> \<not> spec_self_cross S (mo_side mo) (mo_owner mo) None"
proof -
  let ?i = "\<lparr>in_side = mo_side mo, in_id = mo_id mo, in_owner = mo_owner mo, in_limit = None\<rparr>"
  let ?a = "\<lparr>acc_id = mo_id mo, acc_side = mo_side mo, acc_quantity = mo_quantity mo, acc_price = Price 0\<rparr>"
  have g1: "mo_quantity mo \<noteq> 0"
    using run acc by (auto simp: spec_market_def reject_def)
  have g2: "\<not> spec_stale S (mo_owner mo) (mo_id mo)"
    using run acc g1 by (auto simp: spec_market_def reject_def)
  have g3: "\<not> (sp_reject_incoming S \<and> spec_self_cross S (mo_side mo) (mo_owner mo) None)"
    using run acc g1 g2 by (auto simp: spec_market_def reject_def)
  obtain remaining trs S1 where m: "spec_match ?i (mo_quantity mo) [] (sp_accept (mo_owner mo) ?a S) = (remaining, trs, S1)"
    by (rule prod_cases3)
  have "S1 = S'"
    using run g1 g2 g3 by (simp add: spec_market_def m)
  with m have m': "spec_match ?i (mo_quantity mo) [] (sp_accept (mo_owner mo) ?a S) = (remaining, trs, S')" by simp
  show ?thesis
    by (rule that [OF refl refl m' _ g1 g2])
      (use run g1 g2 g3 in \<open>simp_all add: spec_market_def m\<close>)
qed

lemma spec_limit_rejected:
  assumes "spec_limit lo S = (resp, S')" and "status resp \<noteq> Accepted"
  shows "S' = S" and "resp = reject (status resp) (lo_id lo)"
  using assms unfolding spec_limit_def
  by (auto simp: reject_def Let_def split: if_splits prod.splits)

lemma spec_market_rejected:
  assumes "spec_market mo S = (resp, S')" and "status resp \<noteq> Accepted"
  shows "S' = S" and "resp = reject (status resp) (mo_id mo)"
  using assms unfolding spec_market_def
  by (auto simp: reject_def Let_def split: if_splits prod.splits)

lemma spec_limit_ok:
  assumes run: "spec_limit lo S = (resp, S')" and ok: "spec_ok S"
  shows "spec_ok S'"
proof (cases "status resp = Accepted")
  case False
  then show ?thesis using spec_limit_rejected [OF run] ok by simp
next
  case True
  obtain i a remaining trs S1 where i: "i = \<lparr>in_side = lo_side lo, in_id = lo_id lo,
      in_owner = lo_owner lo, in_limit = Some (lo_price lo)\<rparr>"
    and a: "a = \<lparr>acc_id = lo_id lo, acc_side = lo_side lo, acc_quantity = lo_quantity lo, acc_price = lo_price lo\<rparr>"
    and m: "spec_match i (lo_quantity lo) [] (sp_accept (lo_owner lo) a S) = (remaining, trs, S1)"
    and S': "S' = (if remaining > 0 then sp_rest (rest_order lo remaining (sp_next_seq S1)) S1 else S1)"
    and p: "0 < lo_price lo" and st: "\<not> spec_stale S (lo_owner lo) (lo_id lo)"
    by (rule spec_limit_accepted [OF run True]) (rule that)
  note acc = spec_ok_accept [OF ok, of "lo_owner lo" a]
  have ok1: "spec_ok S1"
    using spec_match_ok [OF m] acc(1) st a by simp
  show ?thesis
  proof (cases "remaining > 0")
    case True
    let ?x = "rest_order lo remaining (sp_next_seq S1)"
    have "order_ident ?x \<notin> order_ident ` set (spec_orders (sp_accept (lo_owner lo) a S))"
      using acc(2) st a by (fastforce simp: order_ident_def rest_order_def spec_orders_def)
    then have fresh: "order_ident ?x \<notin> order_ident ` set (spec_orders S1)"
      using spec_match_idents [OF m] by blast
    have "spec_ok (sp_rest ?x S1)"
    proof (rule spec_ok_rest [OF ok1 _ _ _ fresh])
      show "sp_watermark S1 (o_owner ?x) = Some (o_id ?x)"
        using spec_match_frame(2) [OF m] by (simp add: rest_order_def a)
      fix y assume "y \<in> set (sp_side S1 (opposite (o_side ?x)))"
      then show "\<not> crosses (o_side ?x) (Some (o_price ?x)) (o_price y)"
        using spec_match_stop [OF m, of y] acc(1) st a i True by (simp add: rest_order_def)
    qed (use True p in \<open>simp_all add: rest_order_def\<close>)
    with True S' show ?thesis by simp
  qed (use ok1 S' in simp)
qed

lemma spec_market_ok:
  assumes run: "spec_market mo S = (resp, S')" and ok: "spec_ok S"
  shows "spec_ok S'"
proof (cases "status resp = Accepted")
  case False
  then show ?thesis using spec_market_rejected [OF run] ok by simp
next
  case True
  obtain i a remaining trs where
    a: "a = \<lparr>acc_id = mo_id mo, acc_side = mo_side mo, acc_quantity = mo_quantity mo, acc_price = Price 0\<rparr>"
    and m: "spec_match i (mo_quantity mo) [] (sp_accept (mo_owner mo) a S) = (remaining, trs, S')"
    and st: "\<not> spec_stale S (mo_owner mo) (mo_id mo)"
    by (rule spec_market_accepted [OF run True]) (rule that)
  show ?thesis
    using spec_match_ok [OF m] spec_ok_accept(1) [OF ok, of "mo_owner mo" a] st a by simp
qed

lemma find_SomeD: "find P xs = Some x \<Longrightarrow> x \<in> set xs \<and> P x"
  by (induction xs) (auto split: if_splits)

lemma spec_find_Some:
  assumes "spec_find S i = Some x"
  shows "x \<in> set (spec_orders S)" and "o_id x = i" and "sp_index S i = Some (o_owner x)"
  using assms by (auto simp: spec_find_def spec_orders_def split: option.splits dest!: find_SomeD)

lemma spec_cancel_ok:
  assumes run: "spec_cancel i S = (resp, S')" and ok: "spec_ok S"
  shows "spec_ok S'"
proof (cases "spec_find S i")
  case None
  then show ?thesis using run ok by (simp add: spec_cancel_def)
next
  case (Some x)
  then have "x \<in> set (sp_side S (o_side x))"
    using spec_find_Some(1) [OF Some] ok by (auto simp: spec_orders_side spec_ok_def side_ok_def)
  then show ?thesis
    using run Some ok by (auto simp: spec_cancel_def intro: spec_ok_drop)
qed

end
