(* ===== verification/Resting_Index.thy ===== *)
theory Resting_Index
  imports Spec_Invariant
begin

text \<open>
  The per-client index of resting prices (\<open>client_resting_\<close>, \<open>index_rest\<close>, \<open>index_unrest\<close>):
  it counts exactly the client's resting orders at each price, so that \<open>would_self_cross\<close>,
  a look at one end of one map, answers the question a scan of the opposite side would.
\<close>

section \<open>Counting\<close>

definition key_count :: "Price \<Rightarrow> (Price, u32) omap \<Rightarrow> nat" where
  "key_count k m = (case map_of m k of None \<Rightarrow> 0 | Some n \<Rightarrow> unat n)"

definition index_count :: "MatchingEngine \<Rightarrow> ClientId \<Rightarrow> Side \<Rightarrow> Price \<Rightarrow> nat" where
  "index_count e c s k =
     (case client_resting e c of None \<Rightarrow> 0 | Some crp \<Rightarrow> key_count k (side_map s crp))"

definition own_count :: "Order list \<Rightarrow> ClientId \<Rightarrow> Price \<Rightarrow> nat" where
  "own_count xs c k = length (filter (\<lambda>x. o_owner x = c \<and> o_price x = k) xs)"

definition omap_ok :: "(Price, u32) omap \<Rightarrow> bool" where
  "omap_ok m \<longleftrightarrow> keys_sorted (<) m \<and> (\<forall>k n. map_of m k = Some n \<longrightarrow> n \<noteq> 0)"

definition index_shape :: "MatchingEngine \<Rightarrow> bool" where
  "index_shape e \<longleftrightarrow> (\<forall>c crp. client_resting e c = Some crp \<longrightarrow>
     (\<exists>s. side_map s crp \<noteq> []) \<and> (\<forall>s. omap_ok (side_map s crp)))"

definition index_exact :: "MatchingEngine \<Rightarrow> bool" where
  "index_exact e \<longleftrightarrow> (enabled (stp e) \<longrightarrow> index_shape e \<and>
     (\<forall>c s k. index_count e c s k = own_count (resting (book e) s) c k))"

lemma side_map_set [simp]: "side_map s' (set_side_map s crp m) = (if s' = s then m else side_map s' crp)"
  by (cases s; cases s') auto

lemma side_map_init [simp]: "side_map s \<lparr>crp_bids = [], crp_asks = []\<rparr> = []"
  by (cases s) auto

lemma omap_ok_Nil [simp]: "omap_ok []"
  by (simp add: omap_ok_def)

lemma unat_incr: "unat (n :: u32) + 1 < 2 ^ 32 \<Longrightarrow> unat (n + 1) = unat n + 1"
  by (simp add: unat_word_ariths)

lemma incr_key_spec:
  assumes ok: "omap_ok m" and small: "key_count k m + 1 < 2 ^ 32"
  shows "omap_ok (incr_key k m)"
    and "key_count k' (incr_key k m) = key_count k' m + (if k' = k then 1 else 0)"
proof -
  have so: "keys_sorted (<) m" using ok by (simp add: omap_ok_def)
  let ?m = "try_emplace (<) k 0 m"
  define n :: u32 where "n = (case map_of m k of None \<Rightarrow> 0 | Some n \<Rightarrow> n)"
  have mo: "map_of ?m k' = (if k' = k then Some n else map_of m k')" for k'
    using pl.map_of_try_emplace [OF so, of k 0 k'] by (simp add: n_def split: option.splits)
  have un: "unat n = key_count k m"
    by (simp add: n_def key_count_def split: option.split)
  then have inc: "unat (n + 1) = unat n + 1"
    using small by (intro unat_incr) simp
  have mi: "map_of (incr_key k m) k' = (if k' = k then Some (n + 1) else map_of m k')" for k'
    by (simp add: incr_key_def Let_def map_of_assign mo)
  have "n + 1 \<noteq> 0"
    using inc by (metis Suc_eq_plus1 nat.simps(3) unat_0)
  then show "omap_ok (incr_key k m)"
    using ok pl.try_emplace_sorted [OF so] unfolding omap_ok_def mi
    by (auto simp: incr_key_def Let_def)
  show "key_count k' (incr_key k m) = key_count k' m + (if k' = k then 1 else 0)"
    using inc un by (simp add: key_count_def mi)
qed

definition decr_key :: "Price \<Rightarrow> u32 \<Rightarrow> (Price, u32) omap \<Rightarrow> (Price, u32) omap" where
  "decr_key k n m = (let m1 = assign_key k (n - 1) m in if n - 1 = 0 then erase_key k m1 else m1)"

lemma decr_key_spec:
  assumes ok: "omap_ok m" and n: "map_of m k = Some n"
  shows "omap_ok (decr_key k n m)"
    and "key_count k' (decr_key k n m) = key_count k' m - (if k' = k then 1 else 0)"
proof -
  have n0: "n \<noteq> 0" using ok n by (auto simp: omap_ok_def)
  then have dec: "unat (n - 1) = unat n - 1"
    by (simp add: unat_minus_one)
  have mo: "map_of (decr_key k n m) k' = (if k' = k then (if n - 1 = 0 then None else Some (n - 1))
      else map_of m k')" for k'
    using n by (simp add: decr_key_def Let_def map_of_assign map_of_erase)
  show "omap_ok (decr_key k n m)"
    using ok unfolding omap_ok_def mo
    by (auto simp: decr_key_def Let_def intro: keys_sorted_erase)
  show "key_count k' (decr_key k n m) = key_count k' m - (if k' = k then 1 else 0)"
    using dec n by (auto simp: key_count_def mo)
qed


section \<open>The two updates\<close>

lemma side_map_empty: "crp_bids crp = [] \<and> crp_asks crp = [] \<longleftrightarrow> (\<forall>s. side_map s crp = [])"
  by (metis Side.exhaust side_map.simps)

lemma index_rest_spec:
  assumes en: "enabled (stp e)" and sh: "index_shape e"
    and small: "index_count e (o_owner x) (o_side x) (o_price x) + 1 < 2 ^ 32"
  shows "index_shape (index_rest e x)"
    and "index_count (index_rest e x) c s k = index_count e c s k +
      (if (c, s, k) = (o_owner x, o_side x, o_price x) then 1 else 0)"
proof -
  define crp where "crp = (case client_resting e (o_owner x) of
      None \<Rightarrow> \<lparr>crp_bids = [], crp_asks = []\<rparr> | Some c \<Rightarrow> c)"
  let ?m = "side_map (o_side x) crp"
  let ?crp = "set_side_map (o_side x) crp (incr_key (o_price x) ?m)"
  have ev: "client_resting (index_rest e x) = (client_resting e)(o_owner x := Some ?crp)"
    using en by (simp add: index_rest_def Let_def crp_def)
  have ok: "omap_ok (side_map s crp)" for s
    using sh by (auto simp: crp_def index_shape_def split: option.split)
  have cnt: "index_count e (o_owner x) s k = key_count k (side_map s crp)" for s k
    by (simp add: index_count_def crp_def key_count_def split: option.split)
  note inc = incr_key_spec [OF ok small [unfolded cnt]]
  have "incr_key (o_price x) ?m \<noteq> []"
  proof
    assume "incr_key (o_price x) ?m = []"
    then have "key_count (o_price x) (incr_key (o_price x) ?m) = 0" by (simp add: key_count_def)
    then show False using inc(2) by simp
  qed
  then have "side_map (o_side x) ?crp \<noteq> []" by simp
  then show "index_shape (index_rest e x)"
    using sh ok inc(1) unfolding index_shape_def ev by auto
  show "index_count (index_rest e x) c s k = index_count e c s k +
      (if (c, s, k) = (o_owner x, o_side x, o_price x) then 1 else 0)"
    using cnt inc(2) by (auto simp: index_count_def ev)
qed

lemma index_unrest_spec:
  assumes en: "enabled (stp e)" and sh: "index_shape e"
    and pos: "0 < index_count e (o_owner x) (o_side x) (o_price x)"
  shows "index_shape (index_unrest e x)"
    and "index_count (index_unrest e x) c s k = index_count e c s k -
      (if (c, s, k) = (o_owner x, o_side x, o_price x) then 1 else 0)"
proof -
  obtain crp where crp: "client_resting e (o_owner x) = Some crp"
    using pos by (auto simp: index_count_def split: option.splits)
  let ?m = "side_map (o_side x) crp"
  obtain n where n: "map_of ?m (o_price x) = Some n"
    using pos by (auto simp: index_count_def crp key_count_def split: option.splits)
  let ?crp = "set_side_map (o_side x) crp (decr_key (o_price x) n ?m)"
  have ev: "client_resting (index_unrest e x) = (client_resting e)(o_owner x :=
      if \<forall>s. side_map s ?crp = [] then None else Some ?crp)"
    using en crp n unfolding side_map_empty [symmetric]
    by (simp add: index_unrest_def Let_def decr_key_def)
  have ok: "omap_ok (side_map s crp)" for s
    using sh crp by (auto simp: index_shape_def)
  note dec = decr_key_spec [OF ok n]
  show "index_shape (index_unrest e x)"
    using sh ok dec(1) unfolding index_shape_def ev by auto
  have new: "index_count (index_unrest e x) (o_owner x) s k = key_count k (side_map s ?crp)"
    unfolding index_count_def ev by (auto simp: key_count_def)
  show "index_count (index_unrest e x) c s k = index_count e c s k -
      (if (c, s, k) = (o_owner x, o_side x, o_price x) then 1 else 0)"
  proof (cases "c = o_owner x")
    case True
    then show ?thesis
      using new dec(2) crp by (simp add: index_count_def [of e])
  next
    case False
    then show ?thesis by (simp add: index_count_def ev)
  qed
qed

lemma index_rest_sel [simp]:
  "book (index_rest e x) = book e" "last_accepted_id (index_rest e x) = last_accepted_id e"
  "next_sequence (index_rest e x) = next_sequence e" "stp (index_rest e x) = stp e"
  "next_trade_sequence (index_rest e x) = next_trade_sequence e" "sink (index_rest e x) = sink e"
  by (simp_all add: index_rest_def Let_def)

lemma index_unrest_sel [simp]:
  "book (index_unrest e x) = book e" "last_accepted_id (index_unrest e x) = last_accepted_id e"
  "next_sequence (index_unrest e x) = next_sequence e" "stp (index_unrest e x) = stp e"
  "next_trade_sequence (index_unrest e x) = next_trade_sequence e" "sink (index_unrest e x) = sink e"
  by (simp_all add: index_unrest_def Let_def split: option.split)


section \<open>Exactness\<close>

lemma own_count_remove1:
  "x \<in> set xs \<Longrightarrow> own_count (remove1 x xs) c k =
     own_count xs c k - (if o_owner x = c \<and> o_price x = k then 1 else 0)"
  by (simp add: own_count_def filter_remove1 length_remove1)

lemma own_count_insert:
  "own_count (insert_order s x xs) c k = own_count xs c k + (if o_owner x = c \<and> o_price x = k then 1 else 0)"
  by (rule insert_order_split [of xs s x]) (auto simp: own_count_def)

lemma own_count_le: "own_count xs c k \<le> length xs"
  by (simp add: own_count_def)

lemma own_count_pos: "0 < own_count xs c k \<longleftrightarrow> (\<exists>x \<in> set xs. o_owner x = c \<and> o_price x = k)"
  by (auto simp: own_count_def filter_empty_conv)

lemma index_exact_drop:
  assumes ex: "index_exact e" and x: "x \<in> set (resting (book e) s)" "o_side x = s"
    and e': "stp e' = stp e" "client_resting e' = client_resting (index_unrest e x)"
      "resting (book e') = (resting (book e))(s := remove1 x (resting (book e) s))"
  shows "index_exact e'"
  unfolding index_exact_def
proof (intro impI conjI allI)
  assume en: "enabled (stp e')"
  then have en: "enabled (stp e)" and sh: "index_shape e"
    and cnt: "\<And>c s k. index_count e c s k = own_count (resting (book e) s) c k"
    using ex e' by (auto simp: index_exact_def)
  have "0 < index_count e (o_owner x) (o_side x) (o_price x)"
    using x unfolding cnt own_count_pos by auto
  note un = index_unrest_spec [OF en sh this]
  show "index_shape e'"
    using un(1) e' by (simp add: index_shape_def)
  fix c s' k
  have "index_count e' c s' k = index_count (index_unrest e x) c s' k"
    using e' by (simp add: index_count_def)
  then show "index_count e' c s' k = own_count (resting (book e') s') c k"
    using un(2) own_count_remove1 [OF x(1)] x(2) e' cnt by auto
qed

lemma index_exact_add:
  assumes ex: "index_exact e" and small: "length (resting (book e) (o_side x)) + 1 < 2 ^ 32"
    and e': "stp e' = stp e" "client_resting e' = client_resting (index_rest e x)"
      "resting (book e') = (resting (book e))(o_side x := insert_order (o_side x) x (resting (book e) (o_side x)))"
  shows "index_exact e'"
  unfolding index_exact_def
proof (intro impI conjI allI)
  assume en: "enabled (stp e')"
  then have en: "enabled (stp e)" and sh: "index_shape e"
    and cnt: "\<And>c s k. index_count e c s k = own_count (resting (book e) s) c k"
    using ex e' by (auto simp: index_exact_def)
  have "index_count e (o_owner x) (o_side x) (o_price x) + 1 < 2 ^ 32"
    using small own_count_le [of "resting (book e) (o_side x)" "o_owner x" "o_price x"] unfolding cnt by linarith
  note re = index_rest_spec [OF en sh this]
  show "index_shape e'"
    using re(1) e' by (simp add: index_shape_def)
  fix c s' k
  have "index_count e' c s' k = index_count (index_rest e x) c s' k"
    using e' by (simp add: index_count_def)
  then show "index_count e' c s' k = own_count (resting (book e') s') c k"
    using re(2) own_count_insert [of "o_side x" x] e' cnt by auto
qed

lemma sorted_ends:
  assumes "keys_sorted (<) (m :: (Price, 'v) omap)" and "k \<in> fst ` set m"
  shows "fst (hd m) \<le> k" and "k \<le> fst (last m)"
proof -
  obtain x m' where m: "m = x # m'" using assms(2) by (cases m) auto
  then show "fst (hd m) \<le> k"
    using assms by (cases x) (auto intro: less_imp_le)
  show "k \<le> fst (last m)"
    using assms
  proof (induction m)
    case (Cons x m)
    then show ?case
      using last_in_set [of m] by (cases x; cases "m = []") (auto intro: less_imp_le)
  qed simp
qed

lemma would_self_cross_exact:
  assumes ex: "index_exact e" and en: "enabled (stp e)"
  shows "would_self_cross e side c lim \<longleftrightarrow>
    (\<exists>x \<in> set (resting (book e) (opposite side)). o_owner x = c \<and> crosses side lim (o_price x))"
proof -
  let ?R = "resting (book e) (opposite side)"
  have sh: "index_shape e" and cnt: "index_count e c s k = own_count (resting (book e) s) c k" for s k
    using ex en by (auto simp: index_exact_def)
  show ?thesis
  proof (cases "client_resting e c")
    case None
    then have "own_count ?R c k = 0" for k
      using cnt [of "opposite side" k] by (simp add: index_count_def)
    then have "\<not> (\<exists>x \<in> set ?R. o_owner x = c \<and> o_price x = k)" for k
      unfolding own_count_pos [symmetric] by simp
    then show ?thesis by (auto simp: would_self_cross_def None)
  next
    case (Some crp)
    let ?m = "side_map (opposite side) crp"
    have ok: "omap_ok ?m" using sh Some by (auto simp: index_shape_def)
    have key: "k \<in> fst ` set ?m \<longleftrightarrow> (\<exists>x \<in> set ?R. o_owner x = c \<and> o_price x = k)" for k
    proof -
      have "k \<in> fst ` set ?m \<longleftrightarrow> map_of ?m k \<noteq> None"
        by (simp add: map_of_eq_None_iff)
      also have "\<dots> \<longleftrightarrow> 0 < key_count k ?m"
        using ok by (cases "map_of ?m k") (auto simp: omap_ok_def key_count_def unat_gt_0)
      also have "key_count k ?m = own_count ?R c k"
        using cnt [of "opposite side" k] Some by (simp add: index_count_def)
      finally show ?thesis by (simp add: own_count_pos)
    qed
    have so: "keys_sorted (<) ?m" using ok by (simp add: omap_ok_def)
    have ends: "?m \<noteq> [] \<Longrightarrow> fst (hd ?m) \<in> fst ` set ?m \<and> fst (last ?m) \<in> fst ` set ?m"
      by simp
    have "would_self_cross e side c lim \<longleftrightarrow> (\<exists>k \<in> fst ` set ?m. crosses side lim k)"
    proof (cases "?m = []")
      case True
      then show ?thesis by (cases side) (simp_all add: would_self_cross_def Some)
    next
      case False
      show ?thesis
      proof (cases side)
        case Buy
        have "would_self_cross e side c lim \<longleftrightarrow> crosses side lim (fst (hd ?m))"
          using False by (cases lim) (simp_all add: would_self_cross_def Some Buy not_less)
        moreover have "crosses side lim (fst (hd ?m))" if "k \<in> fst ` set ?m" "crosses side lim k" for k
          using sorted_ends(1) [OF so that(1)] that(2) by (cases lim) (auto simp: Buy)
        ultimately show ?thesis using ends [OF False] by blast
      next
        case Sell
        have "would_self_cross e side c lim \<longleftrightarrow> crosses side lim (fst (last ?m))"
          using False by (cases lim) (simp_all add: would_self_cross_def Some Sell not_less)
        moreover have "crosses side lim (fst (last ?m))" if "k \<in> fst ` set ?m" "crosses side lim k" for k
          using sorted_ends(2) [OF so that(1)] that(2) by (cases lim) (auto simp: Sell)
        ultimately show ?thesis using ends [OF False] by blast
      qed
    qed
    moreover have "fst ` set ?m = o_price ` {x \<in> set ?R. o_owner x = c}"
      using key by (intro set_eqI) (simp add: image_iff, metis)
    ultimately show ?thesis by auto
  qed
qed

end
