(* ===== verification/Engine_Refinement.thy ===== *)
theory Engine_Refinement
  imports Resting_Index
begin

text \<open>
  The matching engine implements the abstract exchange. \<open>spec_of\<close> forgets the heap;
  \<open>engine_ok\<close> is the engine's invariant. Under it no step dereferences a bad pointer, both
  loops end, and each request takes \<open>spec_of\<close> of the state to the state the abstract
  request gives, with the same response.
\<close>

section \<open>Abstraction\<close>

definition spec_of :: "MatchingEngine \<Rightarrow> Spec" where
  "spec_of e = \<lparr>sp_side = resting (book e),
     sp_index = (\<lambda>i. map_option (\<lambda>p. o_owner (order_at (book e) p)) (orders (book e) i)),
     sp_watermark = last_accepted_id e, sp_next_seq = next_sequence e,
     sp_next_trade = next_trade_sequence e, sp_log = sink e, sp_stp = stp e,
     sp_free = pool_available (book e)\<rparr>"

definition engine_ok :: "MatchingEngine \<Rightarrow> bool" where
  "engine_ok e \<longleftrightarrow> book_ok (book e) \<and> capacity (pool (book e)) < 2 ^ 32 \<and> index_exact e \<and>
     spec_ok (spec_of e)"

lemma spec_of_sel [simp]:
  "sp_side (spec_of e) = resting (book e)" "sp_watermark (spec_of e) = last_accepted_id e"
  "sp_next_seq (spec_of e) = next_sequence e" "sp_next_trade (spec_of e) = next_trade_sequence e"
  "sp_log (spec_of e) = sink e" "sp_stp (spec_of e) = stp e"
  "sp_free (spec_of e) = pool_available (book e)"
  "sp_index (spec_of e) = (\<lambda>i. map_option (\<lambda>p. o_owner (order_at (book e) p)) (orders (book e) i))"
  by (simp_all add: spec_of_def)

lemma set_book_sel [simp]:
  "book (set_book e b) = b" "last_accepted_id (set_book e b) = last_accepted_id e"
  "client_resting (set_book e b) = client_resting e" "next_sequence (set_book e b) = next_sequence e"
  "next_trade_sequence (set_book e b) = next_trade_sequence e" "sink (set_book e b) = sink e"
  "stp (set_book e b) = stp e"
  by (simp_all add: set_book_def)

lemma emit_sel [simp]:
  "book (emit e c) = book e" "last_accepted_id (emit e c) = last_accepted_id e"
  "client_resting (emit e c) = client_resting e" "next_sequence (emit e c) = next_sequence e"
  "next_trade_sequence (emit e c) = next_trade_sequence e" "sink (emit e c) = sink e @ [c]"
  "stp (emit e c) = stp e"
  by (simp_all add: emit_def)

lemma spec_eqI:
  fixes S T :: Spec
  assumes "sp_side S = sp_side T" "sp_index S = sp_index T" "sp_watermark S = sp_watermark T"
    "sp_next_seq S = sp_next_seq T" "sp_next_trade S = sp_next_trade T" "sp_log S = sp_log T"
    "sp_stp S = sp_stp T" "sp_free S = sp_free T"
  shows "S = T"
  using assms by simp

lemma index_exact_cong:
  assumes "index_exact e" and "stp e' = stp e" and "client_resting e' = client_resting e"
    and "\<And>s c k. own_count (resting (book e') s) c k = own_count (resting (book e) s) c k"
  shows "index_exact e'"
  using assms by (simp add: index_exact_def index_shape_def index_count_def)


section \<open>The initial engine\<close>

lemma tree_of_init [simp]: "tree_of (OrderBook_init cap) s = []"
  by (cases s) (simp_all add: OrderBook_init_def)

lemma resting_init [simp]: "resting (OrderBook_init cap) s = []"
  by (simp add: resting_def resting_ptrs_def)

lemma engine_ok_init:
  assumes "cap < 2 ^ 32"
  shows "engine_ok (MatchingEngine_init cap cfg)"
proof -
  have "book_ok (OrderBook_init cap)"
    using book_rep_init by (rule book_rep_ok)
  moreover have "capacity (pool (OrderBook_init cap)) = cap" and "orders (OrderBook_init cap) = (\<lambda>_. None)"
    by (simp_all add: OrderBook_init_def OrderPool_init_def)
  ultimately show ?thesis
    using assms
    by (simp add: engine_ok_def MatchingEngine_init_def index_exact_def index_shape_def index_count_def
      own_count_def spec_ok_def side_ok_def uncrossed_def idents_ok_def index_sound_def spec_orders_def)
qed


section \<open>Removing a resting order\<close>

lemma map_filter_remove1:
  assumes "distinct (map f ps)" and "p \<in> set ps"
  shows "map f (filter (\<lambda>q. q \<noteq> p) ps) = remove1 (f p) (map f ps)"
  using assms
proof (induction ps)
  case (Cons q ps)
  show ?case
  proof (cases "q = p")
    case True
    then have "p \<notin> set ps" using Cons.prems by auto
    then show ?thesis using True by simp
  next
    case False
    then have "p \<in> set ps" and "f q \<noteq> f p" using Cons.prems by (auto simp: image_iff)
    then show ?thesis using Cons False by simp
  qed
qed simp

text \<open>
  The part of the invariant that also holds between the two writes of a fill, when the
  resting order may have quantity zero.
\<close>

definition engine_wf :: "MatchingEngine \<Rightarrow> bool" where
  "engine_wf e \<longleftrightarrow> book_ok (book e) \<and> capacity (pool (book e)) < 2 ^ 32 \<and> index_exact e \<and>
     distinct (map order_ident (spec_orders (spec_of e)))"

lemma engine_ok_wf: "engine_ok e \<Longrightarrow> engine_wf e"
  by (simp add: engine_ok_def engine_wf_def spec_ok_def idents_ok_def)

lemma engine_okI: "engine_wf e \<Longrightarrow> spec_ok (spec_of e) \<Longrightarrow> engine_ok e"
  by (simp add: engine_ok_def engine_wf_def)

lemma engine_ok_resting:
  assumes "engine_ok e" and "x \<in> set (resting (book e) s)"
  shows "o_side x = s" and "0 < o_quantity x" and "0 < o_price x"
proof -
  have "side_ok s (resting (book e) s)"
    using assms(1) by (simp add: engine_ok_def spec_ok_def)
  then show "o_side x = s" and "0 < o_quantity x" and "0 < o_price x"
    using assms(2) by (auto simp: side_ok_def)
qed

lemma resting_distinct:
  assumes "engine_wf e"
  shows "distinct (resting (book e) s)"
proof -
  have "distinct (map order_ident (resting (book e) Buy @ resting (book e) Sell))"
    using assms by (simp add: engine_wf_def spec_orders_def)
  then have "distinct (map order_ident (resting (book e) s))"
    by (cases s) auto
  then show ?thesis by (simp add: distinct_map)
qed

lemma resting_ptrs_in: "p \<in> set (resting_ptrs b s) \<Longrightarrow> order_at b p \<in> set (resting b s)"
  by (simp add: resting_def)

lemma remove_order_spec:
  assumes ok: "engine_wf e" and p: "p \<in> set (resting_ptrs (book e) s)" and x: "x = order_at (book e) p"
  obtains b where "remove_order (book e) p = Some b" and "book_ok b"
    and "capacity (pool b) = capacity (pool (book e))"
    and "spec_of (e\<lparr>book := b\<rparr>) = sp_drop s x (spec_of e)"
proof -
  have bo: "book_ok (book e)" using ok by (simp add: engine_wf_def)
  obtain b where b: "remove_order (book e) p = Some b" "book_ok b"
    "\<And>s. resting_ptrs b s = filter (\<lambda>q. q \<noteq> p) (resting_ptrs (book e) s)"
    "\<And>s q. q \<in> set (resting_ptrs b s) \<Longrightarrow> order_at b q = order_at (book e) q"
    "orders b = (orders (book e))(o_id (order_at (book e) p) := None)"
    "capacity (pool b) = capacity (pool (book e))"
    "pool_available b = Suc (pool_available (book e))"
    by (rule remove_order_ok [OF bo p]) (rule that)
  have r: "resting b s' = map (order_at (book e)) (filter (\<lambda>q. q \<noteq> p) (resting_ptrs (book e) s'))" for s'
  proof -
    have "map (order_at b) (resting_ptrs b s') = map (order_at (book e)) (resting_ptrs b s')"
      using b(4) by (intro map_cong) auto
    then show ?thesis unfolding resting_def b(3) .
  qed
  have sides: "resting b = (resting (book e))(s := remove1 x (resting (book e) s))"
  proof
    fix s'
    show "resting b s' = ((resting (book e))(s := remove1 x (resting (book e) s))) s'"
    proof (cases "s' = s")
      case True
      then show ?thesis
        using map_filter_remove1 [OF _ p, of "order_at (book e)"] resting_distinct [OF ok, of s] x
        unfolding r by (simp add: resting_def)
    next
      case False
      then have "p \<notin> set (resting_ptrs (book e) s')"
        using ok_sides_disjoint [OF bo p] by blast
      then show ?thesis using False unfolding r by (simp add: resting_def)
    qed
  qed
  have idx: "map_option (\<lambda>p. o_owner (order_at b p)) (orders b i) =
      ((\<lambda>i. map_option (\<lambda>p. o_owner (order_at (book e) p)) (orders (book e) i))(o_id x := None)) i" for i
  proof (cases "orders b i")
    case None
    then show ?thesis using b(5) x by (auto split: if_splits)
  next
    case (Some q)
    then obtain s' where "q \<in> set (resting_ptrs b s')"
      using find_order_resting(1) [OF b(2)] by (auto simp: find_order_def)
    then have "order_at b q = order_at (book e) q" by (rule b(4))
    then show ?thesis using Some b(5) x by (auto split: if_splits)
  qed
  have "spec_of (e\<lparr>book := b\<rparr>) = sp_drop s x (spec_of e)"
    by (rule spec_eqI) (use sides idx b(7) in auto)
  then show ?thesis by (rule that [OF b(1,2,6)])
qed

text \<open>The index is told about the removal first, then the book.\<close>

lemma unrest_remove_spec:
  assumes ok: "engine_wf e" and p: "p \<in> set (resting_ptrs (book e) s)"
    and ld: "load (mem (book e)) p = Some ord"
  obtains b where "remove_order (book (index_unrest e ord)) p = Some b"
    and "engine_wf (set_book (index_unrest e ord) b)"
    and "spec_of (set_book (index_unrest e ord) b) = sp_drop s (strip ord) (spec_of e)"
proof -
  have x: "strip ord = order_at (book e) p" using ld by (simp add: order_at_def)
  have xs: "strip ord \<in> set (resting (book e) s)"
    using resting_ptrs_in [OF p] x by simp
  obtain b where b: "remove_order (book e) p = Some b" "book_ok b"
    "capacity (pool b) = capacity (pool (book e))"
    "spec_of (e\<lparr>book := b\<rparr>) = sp_drop s (strip ord) (spec_of e)"
    by (rule remove_order_spec [OF ok p x]) (rule that)
  let ?e = "set_book (index_unrest e ord) b"
  have sp: "spec_of ?e = sp_drop s (strip ord) (spec_of e)"
    unfolding b(4) [symmetric] by (rule spec_eqI) simp_all
  have bo: "book_ok (book e)" using ok by (simp add: engine_wf_def)
  have side: "o_side (strip ord) = s"
    unfolding x by (rule ok_load [OF bo p])
  have un: "index_unrest e (strip ord) = index_unrest e ord"
    by (simp only: index_unrest_def strip_sel)
  have "index_exact ?e"
  proof (rule index_exact_drop)
    show "index_exact e" using ok by (simp add: engine_wf_def)
    show "resting (book ?e) = (resting (book e))(s := remove1 (strip ord) (resting (book e) s))"
      using arg_cong [OF b(4), of sp_side] by simp
  qed (use xs side in \<open>simp_all add: un\<close>)
  moreover have "distinct (map order_ident (spec_orders (spec_of ?e)))"
    unfolding sp
    by (rule distinct_sides_mono [of _ "spec_of e"]) (use ok in \<open>auto simp: engine_wf_def
      distinct_map_remove1 dest: in_set_remove1_D split: if_splits\<close>)
  ultimately have "engine_wf ?e"
    using ok b(2,3) by (simp add: engine_wf_def)
  then show ?thesis
    using that b(1) sp by simp
qed

lemma engine_ok_emit: "engine_ok e \<Longrightarrow> engine_ok (emit e c)"
  unfolding engine_ok_def
  by (auto intro: index_exact_cong [of e] spec_ok_cong [of "spec_of e"])

lemma spec_of_emit: "spec_of (emit e c) = sp_emit c (spec_of e)"
  by (rule spec_eqI) simp_all

lemma cancel_event_strip [simp]: "cancel_event (strip ord) = cancel_event ord"
  by (simp add: cancel_event_def)

lemma make_trade_strip [simp]: "make_trade ts i (strip ord) f = make_trade ts i ord f"
  by (simp add: make_trade_def)

lemma pull_resting_spec:
  assumes ok: "engine_ok e" and p: "p \<in> set (resting_ptrs (book e) s)"
    and x: "x = order_at (book e) p"
  obtains e' where "pull_resting e p = Some e'" and "engine_ok e'"
    and "spec_of e' = sp_emit (cancel_event x) (sp_drop s x (spec_of e))"
proof -
  have bo: "book_ok (book e)" using ok by (simp add: engine_ok_def)
  obtain ord where ord: "load (mem (book e)) p = Some ord" "order_at (book e) p = strip ord"
    by (rule ok_load [OF bo p]) (rule that)
  obtain b where b: "remove_order (book (index_unrest e ord)) p = Some b"
    "engine_wf (set_book (index_unrest e ord) b)"
    "spec_of (set_book (index_unrest e ord) b) = sp_drop s (strip ord) (spec_of e)"
    by (rule unrest_remove_spec [OF engine_ok_wf [OF ok] p ord(1)]) (rule that)
  have "spec_ok (sp_drop s x (spec_of e))"
    using ok resting_ptrs_in [OF p] x by (intro spec_ok_drop) (auto simp: engine_ok_def)
  then have "engine_ok (set_book (index_unrest e ord) b)"
    using b(2,3) ord x by (intro engine_okI) auto
  then show ?thesis
    by (intro that [of "emit (set_book (index_unrest e ord) b) (cancel_event ord)"])
      (use b ord x in \<open>auto simp: pull_resting_def spec_of_emit intro: engine_ok_emit\<close>)
qed


section \<open>Filling against the best resting order\<close>

definition count_trade :: "MatchingEngine \<Rightarrow> Trade \<Rightarrow> MatchingEngine" where
  "count_trade e t = emit (e\<lparr>next_trade_sequence := next_trade_seq (next_trade_sequence e)\<rparr>) (on_trade t)"

lemma count_trade_sel [simp]:
  "book (count_trade e t) = book e" "stp (count_trade e t) = stp e"
  "client_resting (count_trade e t) = client_resting e"
  by (simp_all add: count_trade_def)

lemma spec_of_count_trade: "spec_of (count_trade e t) = sp_trade t (spec_of e)"
  by (rule spec_eqI) (simp_all add: count_trade_def)

lemma reduce_spec:
  assumes ok: "engine_wf e" and ps: "resting_ptrs (book e) s = p # ps" and x: "x = order_at (book e) p"
  obtains b1 b2 where "reduce_order (book e) p f = Some b1"
    and "reduce_level b1 (s, o_price x) f = Some b2"
    and "engine_wf (set_book e b2)" and "resting_ptrs b2 s = p # ps"
    and "order_at b2 p = x\<lparr>o_quantity := o_quantity x - f\<rparr>"
    and "spec_of (set_book e b2) = sp_reduce s x f (spec_of e)"
proof -
  have bo: "book_ok (book e)" using ok by (simp add: engine_wf_def)
  have p: "p \<in> set (resting_ptrs (book e) s)" using ps by simp
  obtain b1 b2 where b: "reduce_order (book e) p f = Some b1"
    "reduce_level b1 (s, o_price x) f = Some b2" "book_ok b2"
    "order_at b2 p = (order_at (book e) p)\<lparr>o_quantity := o_quantity (order_at (book e) p) - f\<rparr>"
    "\<And>q. q \<noteq> p \<Longrightarrow> order_at b2 q = order_at (book e) q"
    "\<And>s. resting_ptrs b2 s = resting_ptrs (book e) s"
    "orders b2 = orders (book e)" "capacity (pool b2) = capacity (pool (book e))"
    "pool_available b2 = pool_available (book e)"
    by (rule reduce_ok [OF bo p, of "o_price x"]) (simp add: x, rule that)
  let ?x = "x\<lparr>o_quantity := o_quantity x - f\<rparr>"
  have pn: "p \<notin> set ps" using ok_distinct [OF bo, of s] ps by simp
  have po: "p \<notin> set (resting_ptrs (book e) s')" if "s' \<noteq> s" for s'
    using ok_sides_disjoint [OF bo p] that by blast
  have sides: "resting b2 = (resting (book e))(s := ?x # tl (resting (book e) s))"
  proof
    fix s'
    have "map (order_at b2) qs = map (order_at (book e)) qs" if "p \<notin> set qs" for qs
    proof (rule map_cong [OF refl])
      fix q assume "q \<in> set qs"
      then have "q \<noteq> p" using that by auto
      then show "order_at b2 q = order_at (book e) q" by (rule b(5))
    qed
    note m = this
    show "resting b2 s' = ((resting (book e))(s := ?x # tl (resting (book e) s))) s'"
    proof (cases "s' = s")
      case True
      then show ?thesis using m [OF pn] b(4) by (simp add: resting_def b(6) ps x)
    next
      case False
      then show ?thesis using m [OF po [OF False]] by (simp add: resting_def b(6))
    qed
  qed
  have own: "o_owner (order_at b2 q) = o_owner (order_at (book e) q)" for q
    using b(4) b(5) [of q] by (cases "q = p") simp_all
  have sp: "spec_of (set_book e b2) = sp_reduce s x f (spec_of e)"
    by (rule spec_eqI) (simp_all add: sides own b(7,9))
  obtain xs where hd: "resting (book e) s = x # xs"
    using ps x by (simp add: resting_def)
  have oc: "own_count (resting b2 s') c k = own_count (resting (book e) s') c k" for s' c k
  proof (cases "s' = s")
    case True
    then show ?thesis unfolding sides by (simp add: own_count_def hd)
  qed (simp add: sides)
  have ie: "index_exact (set_book e b2)"
  proof (rule index_exact_cong)
    show "index_exact e" using ok by (simp add: engine_wf_def)
  qed (simp_all add: oc)
  have "map order_ident (spec_orders (spec_of (set_book e b2))) = map order_ident (spec_orders (spec_of e))"
    using hd unfolding spec_orders_def spec_of_sel set_book_sel sides
    by (cases s) (simp_all add: order_ident_def)
  then have "engine_wf (set_book e b2)"
    using ok b(3,8) ie by (simp add: engine_wf_def)
  moreover have "resting_ptrs b2 s = p # ps"
    unfolding b(6) by (rule ps)
  moreover have "order_at b2 p = ?x"
    unfolding x by (rule b(4))
  ultimately show ?thesis
    using sp by (rule that [OF b(1,2)])
qed

lemma engine_wf_count_trade:
  assumes "engine_wf e"
  shows "engine_wf (count_trade e t)"
proof -
  have "index_exact (count_trade e t)"
    by (rule index_exact_cong [of e]) (use assms in \<open>simp_all add: engine_wf_def\<close>)
  moreover have "spec_orders (spec_of (count_trade e t)) = spec_orders (spec_of e)"
    by (simp add: spec_orders_def)
  ultimately show ?thesis
    using assms by (simp add: engine_wf_def)
qed

lemma fill_resting_eval:
  assumes ok: "engine_ok e" and ps: "resting_ptrs (book e) s = p # ps" and x: "x = order_at (book e) p"
    and f: "f = fill_quantity remaining (o_quantity x)"
    and t: "t = make_trade (next_trade_sequence e) i x f"
  obtains b2 where "engine_wf (set_book (count_trade e t) b2)" and "resting_ptrs b2 s = p # ps"
    and "order_at b2 p = x\<lparr>o_quantity := o_quantity x - f\<rparr>"
    and "spec_of (set_book (count_trade e t) b2) = sp_reduce s x f (sp_trade t (spec_of e))"
    and "fill_resting e i (s, o_price x) p remaining =
      (let e2 = set_book (count_trade e t) b2 in
       if f = o_quantity x then do {
         ord' \<leftarrow> load (mem b2) p;
         b3 \<leftarrow> remove_order (book (index_unrest e2 ord')) p;
         Some (remaining - f, t, set_book (index_unrest e2 ord') b3)
       } else Some (remaining - f, t, e2))"
proof -
  have bo: "book_ok (book e)" using ok by (simp add: engine_ok_def)
  have p: "p \<in> set (resting_ptrs (book e) s)" using ps by simp
  obtain ord where ord: "load (mem (book e)) p = Some ord" "order_at (book e) p = strip ord"
    by (rule ok_load [OF bo p]) (rule that)
  have wf: "engine_wf (count_trade e t)"
    by (rule engine_wf_count_trade [OF engine_ok_wf [OF ok]])
  have ps': "resting_ptrs (book (count_trade e t)) s = p # ps"
    and x': "x = order_at (book (count_trade e t)) p"
    using ps x by simp_all
  obtain b1 b2 where b: "reduce_order (book (count_trade e t)) p f = Some b1"
    "reduce_level b1 (s, o_price x) f = Some b2"
    "engine_wf (set_book (count_trade e t) b2)" "resting_ptrs b2 s = p # ps"
    "order_at b2 p = x\<lparr>o_quantity := o_quantity x - f\<rparr>"
    "spec_of (set_book (count_trade e t) b2) = sp_reduce s x f (spec_of (count_trade e t))"
    by (rule reduce_spec [OF wf ps' x', of f]) (rule that)
  have q: "o_quantity ord = o_quantity x" and pr: "o_price ord = o_price x"
    and mk: "make_trade ts i ord f = make_trade ts i x f" for ts
    using x ord(2) by (simp_all add: make_trade_def)
  have "fill_resting e i (s, o_price x) p remaining =
      (let e2 = set_book (count_trade e t) b2 in
       if f = o_quantity x then do {
         ord' \<leftarrow> load (mem b2) p;
         b3 \<leftarrow> remove_order (book (index_unrest e2 ord')) p;
         Some (remaining - f, t, set_book (index_unrest e2 ord') b3)
       } else Some (remaining - f, t, e2))"
  proof (cases "f = o_quantity x")
    case True
    then have "make_trade (next_trade_sequence e) i ord (o_quantity x) = t"
      using mk [of "next_trade_sequence e"] t by simp
    then show ?thesis
      using b(1,2) True unfolding fill_resting_def
      by (simp add: ord(1) q Let_def f [symmetric] count_trade_def [symmetric])
  next
    case False
    then show ?thesis
      using b(1,2) unfolding fill_resting_def
      by (simp add: ord(1) q Let_def f [symmetric] mk t [symmetric] count_trade_def [symmetric])
  qed
  then show ?thesis
    using b(6) by (intro that [OF b(3-5)]) (simp_all add: spec_of_count_trade)
qed

lemma fill_resting_full:
  assumes ok: "engine_ok e" and ps: "resting_ptrs (book e) s = p # ps" and x: "x = order_at (book e) p"
    and le: "o_quantity x \<le> remaining"
    and t: "t = make_trade (next_trade_sequence e) i x (o_quantity x)"
  obtains e' where "fill_resting e i (s, o_price x) p remaining = Some (remaining - o_quantity x, t, e')"
    and "engine_ok e'" and "spec_of e' = sp_drop s x (sp_trade t (spec_of e))"
proof -
  have f: "o_quantity x = fill_quantity remaining (o_quantity x)"
    using le by (auto simp: fill_quantity_def)
  obtain b2 where b: "engine_wf (set_book (count_trade e t) b2)" "resting_ptrs b2 s = p # ps"
    "order_at b2 p = x\<lparr>o_quantity := o_quantity x - o_quantity x\<rparr>"
    "spec_of (set_book (count_trade e t) b2) = sp_reduce s x (o_quantity x) (sp_trade t (spec_of e))"
    "fill_resting e i (s, o_price x) p remaining =
      (let e2 = set_book (count_trade e t) b2 in
       if o_quantity x = o_quantity x then do {
         ord' \<leftarrow> load (mem b2) p;
         b3 \<leftarrow> remove_order (book (index_unrest e2 ord')) p;
         Some (remaining - o_quantity x, t, set_book (index_unrest e2 ord') b3)
       } else Some (remaining - o_quantity x, t, e2))"
    by (rule fill_resting_eval [OF ok ps x f t]) (rule that)
  let ?e2 = "set_book (count_trade e t) b2"
  have bo: "book_ok (book ?e2)" using b(1) by (simp only: engine_wf_def)
  have p: "p \<in> set (resting_ptrs (book ?e2) s)" using b(2) by simp
  obtain ord where ord: "load (mem (book ?e2)) p = Some ord" "order_at (book ?e2) p = strip ord"
    by (rule ok_load [OF bo p]) (rule that)
  obtain b3 where b3: "remove_order (book (index_unrest ?e2 ord)) p = Some b3"
    "engine_wf (set_book (index_unrest ?e2 ord) b3)"
    "spec_of (set_book (index_unrest ?e2 ord) b3) = sp_drop s (strip ord) (spec_of ?e2)"
    by (rule unrest_remove_spec [OF b(1) p ord(1)]) (rule that)
  obtain xs where xs: "resting (book e) s = x # xs"
    using ps x by (simp add: resting_def)
  have so: "strip ord = x\<lparr>o_quantity := o_quantity x - o_quantity x\<rparr>"
    using ord(2) b(3) by simp
  have sp: "spec_of (set_book (index_unrest ?e2 ord) b3) = sp_drop s x (sp_trade t (spec_of e))"
    unfolding b3(3) b(4) so by (rule spec_eqI) (simp_all add: xs)
  have "spec_ok (sp_drop s x (sp_trade t (spec_of e)))"
    by (rule spec_ok_drop) (use ok xs in \<open>auto simp: engine_ok_def\<close>)
  then have "engine_ok (set_book (index_unrest ?e2 ord) b3)"
    by (intro engine_okI [OF b3(2)]) (simp only: sp)
  then show ?thesis
    using sp b3(1) ord(1) by (intro that) (simp_all add: b(5) Let_def)
qed

lemma fill_resting_part:
  assumes ok: "engine_ok e" and ps: "resting_ptrs (book e) s = p # ps" and x: "x = order_at (book e) p"
    and lt: "remaining < o_quantity x"
    and t: "t = make_trade (next_trade_sequence e) i x remaining"
  obtains e' where "fill_resting e i (s, o_price x) p remaining = Some (0, t, e')"
    and "engine_ok e'" and "spec_of e' = sp_reduce s x remaining (sp_trade t (spec_of e))"
proof -
  have f: "remaining = fill_quantity remaining (o_quantity x)"
    using lt by (simp add: fill_quantity_def)
  obtain b2 where b: "engine_wf (set_book (count_trade e t) b2)"
    "spec_of (set_book (count_trade e t) b2) = sp_reduce s x remaining (sp_trade t (spec_of e))"
    "fill_resting e i (s, o_price x) p remaining =
      (let e2 = set_book (count_trade e t) b2 in
       if remaining = o_quantity x then do {
         ord' \<leftarrow> load (mem b2) p;
         b3 \<leftarrow> remove_order (book (index_unrest e2 ord')) p;
         Some (remaining - remaining, t, set_book (index_unrest e2 ord') b3)
       } else Some (remaining - remaining, t, e2))"
    by (rule fill_resting_eval [OF ok ps x f t]) (rule that)
  obtain xs where xs: "resting (book e) s = x # xs"
    using ps x by (simp add: resting_def)
  have "spec_ok (sp_reduce s x remaining (sp_trade t (spec_of e)))"
    by (rule spec_ok_reduce) (use ok xs lt in \<open>auto simp: engine_ok_def\<close>)
  then have "engine_ok (set_book (count_trade e t) b2)"
    by (intro engine_okI [OF b(1)]) (simp only: b(2))
  then show ?thesis
    using b(2,3) less_imp_neq [OF lt] by (intro that) (simp_all add: Let_def)
qed


section \<open>The two loops\<close>

lemma stp_cancel_resting_spec: "stp_cancel_resting e = sp_cancel_resting (spec_of e)"
  by (simp add: stp_cancel_resting_def sp_cancel_resting_def)

lemma stp_reject_incoming_spec: "stp_reject_incoming e = sp_reject_incoming (spec_of e)"
  by (simp add: stp_reject_incoming_def sp_reject_incoming_def)

lemma spec_match_head:
  assumes "sp_side S (opposite (in_side i)) = x # xs" and "rem \<noteq> 0"
    and "crosses (in_side i) (in_limit i) (o_price x)"
  shows "sp_cancel_resting S \<Longrightarrow> o_owner x = in_owner i \<Longrightarrow> spec_match i rem trs S =
      spec_match i rem trs (sp_emit (cancel_event x) (sp_drop (opposite (in_side i)) x S))"
    and "\<not> (sp_cancel_resting S \<and> o_owner x = in_owner i) \<Longrightarrow> o_quantity x \<le> rem \<Longrightarrow>
      t = make_trade (sp_next_trade S) i x (o_quantity x) \<Longrightarrow> spec_match i rem trs S =
      spec_match i (rem - o_quantity x) (trs @ [t]) (sp_drop (opposite (in_side i)) x (sp_trade t S))"
    and "\<not> (sp_cancel_resting S \<and> o_owner x = in_owner i) \<Longrightarrow> rem < o_quantity x \<Longrightarrow>
      t = make_trade (sp_next_trade S) i x rem \<Longrightarrow> spec_match i rem trs S =
      (0, trs @ [t], sp_reduce (opposite (in_side i)) x rem (sp_trade t S))"
  using assms by (subst spec_match.simps; auto simp: Let_def fill_quantity_def)+

lemma spec_match_zero: "spec_match i 0 trs S = (0, trs, S)"
  by (subst spec_match.simps) (simp add: Let_def split: list.split)

text \<open>What is at the front of the best level.\<close>

lemma best_front:
  assumes ok: "engine_ok e" and l: "level_at (book e) (s, k) = Some l"
    and best: "\<And>x. x \<in> set (resting (book e) s) \<Longrightarrow> \<not> tree_lt s (o_price x) k"
  obtains p ps ord xs where "resting_ptrs (book e) s = p # ps" and "front l = Some p"
    and "\<not> level_empty l" and "load (mem (book e)) p = Some ord" and "o_price ord = k"
    and "order_at (book e) p = strip ord" and "resting (book e) s = strip ord # xs"
proof -
  have bo: "book_ok (book e)" using ok by (simp add: engine_ok_def)
  obtain t where t: "tree_of (book e) s = (k, l) # t"
    by (rule best_level_unique [OF bo l]) (use best resting_ptrs_in in blast, rule that)
  obtain p ps where p: "resting_ptrs (book e) s = p # ps" "front l = Some p" "\<not> level_empty l"
    "o_price (order_at (book e) p) = k"
    by (rule best_level [OF bo t]) (rule that)
  then have "p \<in> set (resting_ptrs (book e) s)" by simp
  from ok_load [OF bo this] obtain ord where ord: "load (mem (book e)) p = Some ord"
    "order_at (book e) p = strip ord" .
  show ?thesis
    by (rule that [OF p(1-3) ord(1) _ ord(2)]) (use p ord in \<open>simp_all add: resting_def\<close>)
qed

lemma match_level_spec:
  assumes "engine_ok e" and s: "s = opposite (in_side i)"
    and "\<And>x. x \<in> set (resting (book e) s) \<Longrightarrow> \<not> tree_lt s (o_price x) k"
    and cr: "crosses (in_side i) (in_limit i) k"
  shows "\<exists>r trs' e'. match_level Retained i (s, k) rem trs e = Some (r, trs', e') \<and> engine_ok e' \<and>
    spec_match i r trs' (spec_of e') = spec_match i rem trs (spec_of e) \<and>
    length (resting (book e') s) \<le> length (resting (book e) s) \<and>
    (rem \<noteq> 0 \<longrightarrow> level_at (book e) (s, k) \<noteq> None \<longrightarrow>
      r = 0 \<or> length (resting (book e') s) < length (resting (book e) s))"
  using assms(1,3)
proof (induction "length (resting (book e) s)" arbitrary: e rem trs rule: less_induct)
  case less
  note ok = less.prems(1) and best = less.prems(2)
  show ?case
  proof (cases "rem = 0 \<or> level_at (book e) (s, k) = None")
    case True
    then have "match_level Retained i (s, k) rem trs e = Some (rem, trs, e)"
      by (subst match_level.simps) (auto simp: qty_pos_iff read_empty_def)
    then show ?thesis using ok True by auto
  next
    case False
    then obtain l where l: "level_at (book e) (s, k) = Some l" and rem: "rem \<noteq> 0" "0 < rem"
      by (auto simp: qty_pos_iff)
    obtain p ps ord xs where p: "resting_ptrs (book e) s = p # ps" "front l = Some p" "\<not> level_empty l"
      "load (mem (book e)) p = Some ord" "o_price ord = k" "order_at (book e) p = strip ord"
      "resting (book e) s = strip ord # xs"
      by (rule best_front [OF ok l best]) (assumption, rule that)
    have pin: "p \<in> set (resting_ptrs (book e) s)" using p(1) by simp
    let ?x = "strip ord"
    have crx: "crosses (in_side i) (in_limit i) (o_price ?x)" using cr p(5) by simp
    have px: "o_price ?x = k" and xe: "?x = order_at (book e) p" using p(5,6) by simp_all
    note head = spec_match_head [of "spec_of e" i ?x xs rem, OF p(7) [folded spec_of_sel(1), unfolded s] rem(1) crx,
        folded s, unfolded spec_of_sel(4)]
    have ev: "match_level Retained i (s, k) rem trs e =
        (if stp_cancel_resting e \<and> o_owner ord = in_owner i then do {
            e' \<leftarrow> pull_resting e p; Some (rem, trs, e') }
         else do {
            (remaining', trade, e') \<leftarrow> fill_resting e i (s, k) p rem;
            match_level Retained i (s, k) remaining' (trs @ [trade]) e' })"
      using l p rem by (subst match_level.simps) (simp add: read_empty_def)
    consider (pull) "stp_cancel_resting e" "o_owner ord = in_owner i"
      | (full) "\<not> (stp_cancel_resting e \<and> o_owner ord = in_owner i)" "o_quantity ?x \<le> rem"
      | (part) "\<not> (stp_cancel_resting e \<and> o_owner ord = in_owner i)" "rem < o_quantity ?x"
      using not_le by blast
    then show ?thesis
    proof cases
      case pull
      obtain e' where e': "pull_resting e p = Some e'" "engine_ok e'"
        "spec_of e' = sp_emit (cancel_event ?x) (sp_drop s ?x (spec_of e))"
        by (rule pull_resting_spec [OF ok pin xe]) (rule that)
      have "length (resting (book e') s) < length (resting (book e) s)"
        using arg_cong [OF e'(3), of "\<lambda>S. length (sp_side S s)"] p(7) by simp
      then show ?thesis
        using ev pull e' head(1) by (auto simp: stp_cancel_resting_spec [symmetric])
    next
      case full
      let ?t = "make_trade (next_trade_sequence e) i ?x (o_quantity ?x)"
      obtain e' where e': "fill_resting e i (s, o_price ?x) p rem = Some (rem - o_quantity ?x, ?t, e')"
        "engine_ok e'" "spec_of e' = sp_drop s ?x (sp_trade ?t (spec_of e))"
        by (rule fill_resting_full [OF ok p(1) xe full(2) refl]) (rule that)
      have r': "resting (book e') s = xs"
        using arg_cong [OF e'(3), of "\<lambda>S. sp_side S s"] p(7) by simp
      then have lt: "length (resting (book e') s) < length (resting (book e) s)" using p(7) by simp
      have best': "\<not> tree_lt s (o_price y) k" if "y \<in> set (resting (book e') s)" for y
        using best that p(7) r' by simp
      obtain r trs' e'' where ih: "match_level Retained i (s, k) (rem - o_quantity ?x) (trs @ [?t]) e' = Some (r, trs', e'')"
        "engine_ok e''" "spec_match i r trs' (spec_of e'') =
          spec_match i (rem - o_quantity ?x) (trs @ [?t]) (spec_of e')"
        "length (resting (book e'') s) \<le> length (resting (book e') s)"
        using less.hyps [OF lt e'(2) best'] by blast
      have "match_level Retained i (s, k) rem trs e = Some (r, trs', e'')"
        using ev full(1) e'(1) ih(1) px by auto
      moreover have "spec_match i r trs' (spec_of e'') = spec_match i rem trs (spec_of e)"
        using head(2) [OF _ full(2) refl] full(1) ih(3) e'(3) by (simp add: stp_cancel_resting_spec)
      ultimately show ?thesis using ih(2,4) lt by auto
    next
      case part
      let ?t = "make_trade (next_trade_sequence e) i ?x rem"
      obtain e' where e': "fill_resting e i (s, o_price ?x) p rem = Some (0, ?t, e')"
        "engine_ok e'" "spec_of e' = sp_reduce s ?x rem (sp_trade ?t (spec_of e))"
        by (rule fill_resting_part [OF ok p(1) xe part(2) refl]) (rule that)
      have "match_level Retained i (s, k) 0 (trs @ [?t]) e' = Some (0, trs @ [?t], e')"
        by (subst match_level.simps) simp
      then have "match_level Retained i (s, k) rem trs e = Some (0, trs @ [?t], e')"
        using ev part(1) e'(1) px by auto
      moreover have "spec_match i 0 (trs @ [?t]) (spec_of e') = spec_match i rem trs (spec_of e)"
        using head(3) [OF _ part(2) refl] part(1) e'(3) by (simp add: stp_cancel_resting_spec spec_match_zero)
      moreover have "length (resting (book e') s) = length (resting (book e) s)"
        using arg_cong [OF e'(3), of "\<lambda>S. length (sp_side S s)"] p(7) by simp
      ultimately show ?thesis using e'(2) by auto
    qed
  qed
qed

lemma best_opposite_tree:
  "best_opposite e side = (case tree_of (book e) (opposite side) of
     [] \<Rightarrow> None | (k, l) # _ \<Rightarrow> Some (opposite side, k))"
  by (cases side) (simp_all add: best_opposite_def best_ask_def best_bid_def split: list.split)

lemma match_loop_spec:
  assumes "engine_ok e"
  shows "\<exists>r trs' e'. match_loop Retained i rem trs e = Some (r, trs', e') \<and> engine_ok e' \<and>
    spec_match i rem trs (spec_of e) = (r, trs', spec_of e')"
  using assms
proof (induction "length (resting (book e) (opposite (in_side i)))" arbitrary: e rem trs rule: less_induct)
  case less
  let ?s = "opposite (in_side i)"
  note ok = less.prems
  have bo: "book_ok (book e)" using ok by (simp add: engine_ok_def)
  show ?case
  proof (cases "rem = 0")
    case True
    then have "match_loop Retained i rem trs e = Some (rem, trs, e)"
      by (subst match_loop.simps) simp
    then show ?thesis using ok True by (simp add: spec_match_zero)
  next
    case False
    then have pos: "0 < rem" by (simp add: qty_pos_iff)
    show ?thesis
    proof (cases "tree_of (book e) ?s")
      case Nil
      then have "match_loop Retained i rem trs e = Some (rem, trs, e)"
        by (subst match_loop.simps) (simp add: best_opposite_tree)
      moreover have "resting (book e) ?s = []"
        using Nil by (simp add: resting_def resting_ptrs_def)
      then have "spec_match i rem trs (spec_of e) = (rem, trs, spec_of e)"
        by (subst spec_match.simps) simp
      ultimately show ?thesis using ok by simp
    next
      case (Cons kl t)
      obtain k l where kl: "tree_of (book e) ?s = (k, l) # t" using Cons by (cases kl) simp
      obtain p ps where p: "resting_ptrs (book e) ?s = p # ps" "level_at (book e) (?s, k) = Some l"
        "level_price l = k" "o_price (order_at (book e) p) = k"
        "\<And>q. q \<in> set (resting_ptrs (book e) ?s) \<Longrightarrow> \<not> tree_lt ?s (o_price (order_at (book e) q)) k"
        by (rule best_level [OF bo kl]) (rule that)
      show ?thesis
      proof (cases "crosses (in_side i) (in_limit i) k")
        case False
        then have "match_loop Retained i rem trs e = Some (rem, trs, e)"
          using kl p by (subst match_loop.simps) (simp add: best_opposite_tree)
        moreover have "spec_match i rem trs (spec_of e) = (rem, trs, spec_of e)"
          using False p(1,4) by (subst spec_match.simps) (simp add: Let_def resting_def)
        ultimately show ?thesis using ok by simp
      next
        case True
        have best: "\<not> tree_lt ?s (o_price x) k" if "x \<in> set (resting (book e) ?s)" for x
          using p(5) that by (auto simp: resting_def)
        obtain r trs' e' where m: "match_level Retained i (?s, k) rem trs e = Some (r, trs', e')" "engine_ok e'"
          "spec_match i r trs' (spec_of e') = spec_match i rem trs (spec_of e)"
          "r = 0 \<or> length (resting (book e') ?s) < length (resting (book e) ?s)"
          using match_level_spec [OF ok refl best True, of rem trs] False p(2) by auto
        have ev: "match_loop Retained i rem trs e = match_loop Retained i r trs' e'"
          using pos kl p True m(1) by (subst match_loop.simps) (simp add: best_opposite_tree)
        show ?thesis
        proof (cases "r = 0")
          case True
          then have "match_loop Retained i r trs' e' = Some (r, trs', e')"
            by (subst match_loop.simps) simp
          then show ?thesis using ev m(2,3) True by (simp add: spec_match_zero)
        next
          case False
          then show ?thesis using less.hyps [OF _ m(2), of r trs'] ev m(3,4) by simp
        qed
      qed
    qed
  qed
qed


section \<open>Requests\<close>

lemma match_against_book_spec:
  assumes "engine_ok e"
  obtains r trs e' where "match_against_book Retained e i rem = Some (r, trs, e')" and "engine_ok e'"
    and "spec_match i rem [] (spec_of e) = (r, trs, spec_of e')"
  using match_loop_spec [OF assms, of i rem "[]"] unfolding match_against_book_def by blast

lemma accept_spec:
  assumes ok: "engine_ok e" and fresh: "\<not> watermark_rejects e c (acc_id a)"
  shows "engine_ok (emit (accept_id e c (acc_id a)) (on_order_accepted a))"
    and "spec_of (emit (accept_id e c (acc_id a)) (on_order_accepted a)) = sp_accept c a (spec_of e)"
proof -
  let ?e = "emit (accept_id e c (acc_id a)) (on_order_accepted a)"
  have fr: "\<not> spec_stale (spec_of e) c (acc_id a)"
    using fresh by (simp add: watermark_rejects_def spec_stale_def)
  show sp: "spec_of ?e = sp_accept c a (spec_of e)"
    by (rule spec_eqI) (simp_all add: accept_id_def)
  have "index_exact ?e"
    by (rule index_exact_cong [of e]) (use ok in \<open>simp_all add: engine_ok_def accept_id_def\<close>)
  moreover have "spec_ok (spec_of ?e)"
    unfolding sp using ok fr by (intro spec_ok_accept) (simp_all add: engine_ok_def)
  ultimately show "engine_ok ?e"
    using ok by (simp add: engine_ok_def accept_id_def)
qed

lemma resting_length_bound:
  assumes ok: "engine_ok e" and av: "pool_available (book e) \<noteq> 0"
  shows "length (resting (book e) s) + 1 < 2 ^ 32"
proof -
  have bo: "book_ok (book e)" and cap: "capacity (pool (book e)) < 2 ^ 32"
    using ok by (simp_all add: engine_ok_def)
  have "order_count (book e) + pool_available (book e) = capacity (pool (book e))"
    using bo by (simp add: book_ok_def book_rep_def slots_ok_def pool_available_def)
  moreover have "length (resting (book e) s) \<le> order_count (book e)"
    unfolding order_count_resting [OF bo] by (cases s) auto
  ultimately show ?thesis using cap av by linarith
qed

text \<open>Resting a remainder: the book takes the order, then the index is told.\<close>

lemma rest_spec:
  assumes ok: "engine_ok e" and av: "pool_available (book e) \<noteq> 0" and x: "strip x = x"
    and spok: "spec_ok (sp_rest x (spec_of e))"
  obtains p b where "add_order (book e) x = Some (Some p, b)"
    and "engine_ok (index_rest (set_book (e\<lparr>next_sequence := next_seq (next_sequence e)\<rparr>) b) x)"
    and "spec_of (index_rest (set_book (e\<lparr>next_sequence := next_seq (next_sequence e)\<rparr>) b) x)
      = sp_rest x (spec_of e)"
proof -
  have bo: "book_ok (book e)" using ok by (simp add: engine_ok_def)
  obtain p b where b: "add_order (book e) x = Some (Some p, b)" "book_ok b"
    "resting b (o_side x) = insert_order (o_side x) (strip x) (resting (book e) (o_side x))"
    "\<And>s. s \<noteq> o_side x \<Longrightarrow> resting b s = resting (book e) s"
    "orders b = emplace (o_id x) p (orders (book e))"
    "capacity (pool b) = capacity (pool (book e))"
    "pool_available (book e) = Suc (pool_available b)"
    "order_at b p = strip x"
    "\<And>q s. q \<in> set (resting_ptrs (book e) s) \<Longrightarrow> order_at b q = order_at (book e) q"
    by (rule add_order_ok [OF bo av]) (rule that)
  let ?e = "index_rest (set_book (e\<lparr>next_sequence := next_seq (next_sequence e)\<rparr>) b) x"
  have sides: "resting b = (resting (book e))(o_side x := insert_order (o_side x) x (resting (book e) (o_side x)))"
    using b(3,4) x by (auto simp: fun_eq_iff)
  have at: "order_at b q = order_at (book e) q" if "orders (book e) i = Some q" for i q
    using find_order_resting(1) [OF bo, of i q] that b(9) by (auto simp: find_order_def)
  have idx: "(\<lambda>i. map_option (\<lambda>p. o_owner (order_at b p)) (orders b i)) = sp_index (sp_rest x (spec_of e))"
    unfolding b(5) emplace_def sp_rest_def
    using at b(8) by (auto simp: fun_eq_iff map_option_case split: option.splits)
  have sp: "spec_of ?e = sp_rest x (spec_of e)"
    by (rule spec_eqI) (use sides idx b(7) in \<open>simp_all add: sp_rest_def\<close>)
  have "index_exact ?e"
  proof (rule index_exact_add)
    show "index_exact e" using ok by (simp add: engine_ok_def)
    show "length (resting (book e) (o_side x)) + 1 < 2 ^ 32"
      using ok av by (rule resting_length_bound)
    show "resting (book ?e) = (resting (book e))(o_side x := insert_order (o_side x) x (resting (book e) (o_side x)))"
      using sides by simp
  qed (simp_all add: index_rest_def Let_def)
  then have "engine_ok ?e"
    using ok b(2,6) spok sp by (simp add: engine_ok_def)
  then show ?thesis using that b(1) sp by blast
qed

lemma watermark_spec: "watermark_rejects e c i = spec_stale (spec_of e) c i"
  by (simp add: watermark_rejects_def spec_stale_def)

lemma self_cross_spec:
  assumes "engine_ok e"
  shows "(stp_reject_incoming e \<and> would_self_cross e side c lim) =
    (sp_reject_incoming (spec_of e) \<and> spec_self_cross (spec_of e) side c lim)"
  using would_self_cross_exact [of e side c lim] assms
  by (auto simp: engine_ok_def sp_reject_incoming_def stp_reject_incoming_def spec_self_cross_def)

lemma submit_limit_spec:
  assumes ok: "engine_ok e"
  shows "\<exists>resp e'. submit_limit Retained e lo = Some (resp, e') \<and> engine_ok e' \<and>
    spec_limit lo (spec_of e) = (resp, spec_of e')"
proof -
  let ?S = "spec_of e"
  let ?i = "\<lparr>in_side = lo_side lo, in_id = lo_id lo, in_owner = lo_owner lo, in_limit = Some (lo_price lo)\<rparr>"
  let ?a = "\<lparr>acc_id = lo_id lo, acc_side = lo_side lo, acc_quantity = lo_quantity lo, acc_price = lo_price lo\<rparr>"
  let ?e2 = "emit (accept_id e (lo_owner lo) (lo_id lo)) (on_order_accepted ?a)"
  show ?thesis
  proof (cases "lo_quantity lo = 0 \<or> lo_price lo \<le> 0 \<or> spec_stale ?S (lo_owner lo) (lo_id lo) \<or>
      sp_reject_incoming ?S \<and> spec_self_cross ?S (lo_side lo) (lo_owner lo) (Some (lo_price lo)) \<or>
      sp_free ?S = 0")
    case True
    then show ?thesis
      unfolding submit_limit_def spec_limit_def self_cross_spec [OF ok] watermark_spec
      using ok by auto
  next
    case False
    have acc: "engine_ok ?e2" "spec_of ?e2 = sp_accept (lo_owner lo) ?a ?S"
      using accept_spec [OF ok, of "lo_owner lo" ?a] False by (simp_all add: watermark_spec)
    obtain r trs e3 where m: "match_against_book Retained ?e2 ?i (lo_quantity lo) = Some (r, trs, e3)"
      "engine_ok e3" "spec_match ?i (lo_quantity lo) [] (spec_of ?e2) = (r, trs, spec_of e3)"
      by (rule match_against_book_spec [OF acc(1)]) (rule that)
    note fr = spec_match_frame [OF m(3)]
    let ?x = "rest_order lo r (next_sequence e3)"
    have sl: "spec_limit lo ?S = (\<lparr>status = Accepted, trades = trs, remaining_qty = r, r_order_id = lo_id lo\<rparr>,
        if r > 0 then sp_rest ?x (spec_of e3) else spec_of e3)"
      using False m(3) unfolding spec_limit_def acc(2) by auto
    show ?thesis
    proof (cases "r > 0")
      case True
      have "spec_ok (sp_rest ?x (spec_of e3))"
        using spec_limit_ok [OF sl] ok True by (simp add: engine_ok_def)
      moreover have "pool_available (book e3) \<noteq> 0"
        using fr(5) False by (simp add: accept_id_def)
      moreover have "strip ?x = ?x" by (simp add: strip_def rest_order_def)
      ultimately obtain p b where b: "add_order (book e3) ?x = Some (Some p, b)"
        "engine_ok (index_rest (set_book (e3\<lparr>next_sequence := next_seq (next_sequence e3)\<rparr>) b) ?x)"
        "spec_of (index_rest (set_book (e3\<lparr>next_sequence := next_seq (next_sequence e3)\<rparr>) b) ?x)
          = sp_rest ?x (spec_of e3)"
        using rest_spec [OF m(2)] by metis
      then show ?thesis
        using False m(1) sl True unfolding submit_limit_def self_cross_spec [OF ok] watermark_spec
        by (auto simp: Let_def)
    next
      case r0: False
      then show ?thesis
        using False m sl unfolding submit_limit_def self_cross_spec [OF ok] watermark_spec
        by (auto simp: Let_def)
    qed
  qed
qed

lemma submit_market_spec:
  assumes ok: "engine_ok e"
  shows "\<exists>resp e'. submit_market Retained e mo = Some (resp, e') \<and> engine_ok e' \<and>
    spec_market mo (spec_of e) = (resp, spec_of e')"
proof -
  let ?S = "spec_of e"
  let ?i = "\<lparr>in_side = mo_side mo, in_id = mo_id mo, in_owner = mo_owner mo, in_limit = None\<rparr>"
  let ?a = "\<lparr>acc_id = mo_id mo, acc_side = mo_side mo, acc_quantity = mo_quantity mo, acc_price = Price 0\<rparr>"
  let ?e2 = "emit (accept_id e (mo_owner mo) (mo_id mo)) (on_order_accepted ?a)"
  show ?thesis
  proof (cases "mo_quantity mo = 0 \<or> spec_stale ?S (mo_owner mo) (mo_id mo) \<or>
      sp_reject_incoming ?S \<and> spec_self_cross ?S (mo_side mo) (mo_owner mo) None")
    case True
    then show ?thesis
      unfolding submit_market_def spec_market_def self_cross_spec [OF ok] watermark_spec
      using ok by auto
  next
    case False
    have acc: "engine_ok ?e2" "spec_of ?e2 = sp_accept (mo_owner mo) ?a ?S"
      using accept_spec [OF ok, of "mo_owner mo" ?a] False by (simp_all add: watermark_spec)
    obtain r trs e3 where m: "match_against_book Retained ?e2 ?i (mo_quantity mo) = Some (r, trs, e3)"
      "engine_ok e3" "spec_match ?i (mo_quantity mo) [] (spec_of ?e2) = (r, trs, spec_of e3)"
      by (rule match_against_book_spec [OF acc(1)]) (rule that)
    show ?thesis
      using False m unfolding submit_market_def spec_market_def self_cross_spec [OF ok] watermark_spec acc(2)
      by (auto simp: Let_def)
  qed
qed

lemma submit_spec:
  assumes "engine_ok e"
  obtains resp e' where "submit Retained e ord = Some (resp, e')" and "engine_ok e'"
    and "spec_submit ord (spec_of e) = (resp, spec_of e')"
  using submit_limit_spec [OF assms] submit_market_spec [OF assms] by (cases ord) (auto, metis+)

lemma ident_unique:
  assumes "spec_ok S" and "x \<in> set (spec_orders S)" and "y \<in> set (spec_orders S)"
    and "order_ident x = order_ident y"
  shows "x = y"
  using assms by (auto simp: spec_ok_def idents_ok_def distinct_map dest: inj_onD)

lemma spec_find_of:
  assumes ok: "engine_ok e"
  shows "spec_find (spec_of e) i = map_option (order_at (book e)) (find_order (book e) i)"
proof (cases "find_order (book e) i")
  case None
  then show ?thesis by (simp add: spec_find_def find_order_def)
next
  case (Some p)
  have bo: "book_ok (book e)" and so: "spec_ok (spec_of e)" using ok by (simp_all add: engine_ok_def)
  let ?x = "order_at (book e) p"
  obtain s where s: "p \<in> set (resting_ptrs (book e) s)" and oi: "o_id ?x = i"
    using find_order_resting [OF bo Some] by blast
  have x: "?x \<in> set (spec_orders (spec_of e))"
    unfolding spec_orders_side using resting_ptrs_in [OF s] by auto
  have ix: "sp_index (spec_of e) i = Some (o_owner ?x)"
    using Some by (simp add: find_order_def)
  let ?P = "\<lambda>y. o_id y = i \<and> o_owner y = o_owner ?x"
  have "find ?P (spec_orders (spec_of e)) \<noteq> None"
    using x oi by (auto simp: find_None_iff)
  then obtain y where y: "find ?P (spec_orders (spec_of e)) = Some y" by blast
  then have "y = ?x"
    using find_SomeD [OF y] ident_unique [OF so _ x] oi by (auto simp: order_ident_def)
  then show ?thesis
    using y Some unfolding spec_find_def ix spec_orders_def by simp
qed

lemma cancel_spec:
  assumes ok: "engine_ok e"
  obtains resp e' where "cancel e i = Some (resp, e')" and "engine_ok e'"
    and "spec_cancel i (spec_of e) = (resp, spec_of e')"
proof (cases "find_order (book e) i")
  case None
  then have "spec_find (spec_of e) i = None" using spec_find_of [OF ok] by simp
  then show ?thesis
    using that [of "reject UnknownOrderId i" e] None ok by (simp add: cancel_def spec_cancel_def reject_def)
next
  case (Some p)
  have bo: "book_ok (book e)" using ok by (simp add: engine_ok_def)
  let ?x = "order_at (book e) p"
  obtain s where s: "p \<in> set (resting_ptrs (book e) s)" and oi: "o_id ?x = i"
    using find_order_resting [OF bo Some] by blast
  have side: "o_side ?x = s" using engine_ok_resting(1) [OF ok resting_ptrs_in [OF s]] .
  obtain ord where ord: "load (mem (book e)) p = Some ord" "?x = strip ord"
    by (rule ok_load [OF bo s]) (rule that)
  obtain e' where e': "pull_resting e p = Some e'" "engine_ok e'"
    "spec_of e' = sp_emit (cancel_event ?x) (sp_drop s ?x (spec_of e))"
    by (rule pull_resting_spec [OF ok s refl]) (rule that)
  have "cancel e i = Some (\<lparr>status = Accepted, trades = [], remaining_qty = o_quantity ?x, r_order_id = i\<rparr>, e')"
    using e'(1) Some ord oi
    by (auto simp: cancel_def pull_resting_def cancel_event_def Let_def elim!: bind_SomeE)
  moreover have "spec_cancel i (spec_of e) =
      (\<lparr>status = Accepted, trades = [], remaining_qty = o_quantity ?x, r_order_id = i\<rparr>, spec_of e')"
    using spec_find_of [OF ok, of i] Some e'(3) side by (simp add: spec_cancel_def)
  ultimately show ?thesis using that e'(2) by blast
qed

end
