(* ===== verification/Spec_Trades.thy ===== *)
theory Spec_Trades
  imports Spec_Invariant
begin

text \<open>
  The trades of one accepted order: which resting orders they hit and in which order, at
  which price, with which sequence numbers, and what the event log shows of them.
\<close>

definition resting_id :: "Incoming \<Rightarrow> Trade \<Rightarrow> OrderId" where
  "resting_id i t = (if in_side i = Buy then sell_order_id t else buy_order_id t)"

definition aggressor_id :: "Incoming \<Rightarrow> Trade \<Rightarrow> OrderId" where
  "aggressor_id i t = (if in_side i = Buy then buy_order_id t else sell_order_id t)"

lemma make_trade_sel [simp]:
  "trade_sequence (make_trade ts i x f) = ts" "t_price (make_trade ts i x f) = o_price x"
  "resting_id i (make_trade ts i x f) = o_id x" "aggressor_id i (make_trade ts i x f) = in_id i"
  "resting_order_removed (make_trade ts i x f) = (f = o_quantity x)"
  by (cases "in_side i"; simp add: make_trade_def resting_id_def aggressor_id_def)+

section \<open>Price-time priority\<close>

text \<open>
  The resting orders an incoming order may trade with, in priority order: under
  \<open>CancelResting\<close> the owner's own orders are not among them.
\<close>

definition eligible :: "Spec \<Rightarrow> Incoming \<Rightarrow> Order list" where
  "eligible S i = filter (\<lambda>x. \<not> (sp_cancel_resting S \<and> o_owner x = in_owner i)) (sp_side S (opposite (in_side i)))"

text \<open>A trade that takes the whole of a resting order.\<close>

definition takes :: "Incoming \<Rightarrow> Order \<Rightarrow> Trade \<Rightarrow> bool" where
  "takes i x t \<longleftrightarrow> resting_id i t = o_id x \<and> aggressor_id i t = in_id i \<and> t_price t = o_price x \<and>
     t_quantity t = o_quantity x \<and> resting_order_removed t \<and> crosses (in_side i) (in_limit i) (o_price x)"

text \<open>A trade that takes a part of it.\<close>

definition takes_part :: "Incoming \<Rightarrow> Order \<Rightarrow> Trade \<Rightarrow> bool" where
  "takes_part i x t \<longleftrightarrow> resting_id i t = o_id x \<and> aggressor_id i t = in_id i \<and> t_price t = o_price x \<and>
     0 < t_quantity t \<and> t_quantity t < o_quantity x \<and> \<not> resting_order_removed t \<and>
     crosses (in_side i) (in_limit i) (o_price x)"

text \<open>
  The trades consume a prefix of the eligible orders, each entirely except possibly the last,
  and only when that exhausts the incoming order.
\<close>

definition in_priority :: "Incoming \<Rightarrow> Order list \<Rightarrow> Quantity \<Rightarrow> Trade list \<Rightarrow> bool" where
  "in_priority i xs remaining new \<longleftrightarrow>
     (\<exists>ys zs. xs = ys @ zs \<and> list_all2 (takes i) ys new) \<or>
     (remaining = 0 \<and> (\<exists>ys x zs ts t. xs = ys @ x # zs \<and> new = ts @ [t] \<and>
        list_all2 (takes i) ys ts \<and> takes_part i x t))"

lemma spec_match_priority:
  assumes run: "spec_match i rem trs S = (r, trs', S')"
  shows "\<exists>new. trs' = trs @ new \<and> in_priority i (eligible S i) r new"
proof -
  let ?s = "opposite (in_side i)"
  let ?P = "\<lambda>(q :: Quantity) cur T. sp_stp T = sp_stp S \<and> ((\<exists>new ys. cur = trs @ new \<and>
      eligible S i = ys @ eligible T i \<and> list_all2 (takes i) ys new) \<or>
      (q = 0 \<and> (\<exists>ys x zs ts t. eligible S i = ys @ x # zs \<and> cur = trs @ ts @ [t] \<and>
        list_all2 (takes i) ys ts \<and> takes_part i x t)))"
  have "?P r trs' S'"
  proof (rule spec_match_rule(1) [OF run, where P = ?P])
    fix q cur T x xs
    assume P: "?P q cur T" and x: "sp_side T ?s = x # xs" and q: "q \<noteq> 0"
      and cr: "crosses (in_side i) (in_limit i) (o_price x)"
    from P q obtain new ys where stp: "sp_stp T = sp_stp S" and new: "cur = trs @ new"
      "eligible S i = ys @ eligible T i" "list_all2 (takes i) ys new" by auto
    show "?P q cur (sp_emit (cancel_event x) (sp_drop ?s x T))"
      if "sp_cancel_resting T" "o_owner x = in_owner i"
      using new stp x that by (auto simp: eligible_def)
    fix t
    assume ne: "\<not> (sp_cancel_resting T \<and> o_owner x = in_owner i)"
    have el: "eligible T i = x # eligible (sp_drop ?s x (sp_trade t T)) i"
      using x ne by (simp add: eligible_def)
    show "?P (q - o_quantity x) (cur @ [t]) (sp_drop ?s x (sp_trade t T))"
      if "t = make_trade (sp_next_trade T) i x (o_quantity x)"
    proof -
      have "takes i x t" using that cr by (simp add: takes_def)
      then have "list_all2 (takes i) (ys @ [x]) (new @ [t])"
        using new(3) by (simp add: list_all2_appendI)
      then show ?thesis
        using new(1,2) el stp by (intro conjI disjI1 exI [of _ "new @ [t]"] exI [of _ "ys @ [x]"]) simp_all
    qed
    show "?P 0 (cur @ [t]) (sp_reduce ?s x q (sp_trade t T))"
      if "q < o_quantity x" "t = make_trade (sp_next_trade T) i x q"
    proof -
      have "takes_part i x t" using that cr q by (auto simp: takes_part_def qty_pos_iff)
      then show ?thesis
        using new el stp
        by (intro conjI disjI2 exI [of _ ys] exI [of _ x] exI [of _ "eligible (sp_drop ?s x (sp_trade t T)) i"]
          exI [of _ new] exI [of _ t]) simp_all
    qed
  qed (auto intro: exI [of _ "[]"])
  then show ?thesis
  proof (elim conjE disjE exE)
    fix new ys
    assume "trs' = trs @ new" "eligible S i = ys @ eligible S' i" "list_all2 (takes i) ys new"
    then show ?thesis by (auto simp: in_priority_def)
  next
    fix ys x zs ts t
    assume "r = 0" "eligible S i = ys @ x # zs" "trs' = trs @ ts @ [t]"
      "list_all2 (takes i) ys ts" "takes_part i x t"
    then show ?thesis
      by (intro exI [of _ "ts @ [t]"]) (auto simp: in_priority_def)
  qed
qed


lemma list_all2_in1: "list_all2 P xs ys \<Longrightarrow> x \<in> set xs \<Longrightarrow> \<exists>y. P x y"
  by (induction rule: list_all2_induct) auto

text \<open>
  When no crossing order is the owner's own, dropping the owner's orders from the list
  changes nothing of the prefix that is consumed.
\<close>

lemma in_priority_filter:
  assumes pr: "in_priority i xs r new"
    and no: "\<And>x. x \<in> set xs \<Longrightarrow> crosses (in_side i) (in_limit i) (o_price x) \<Longrightarrow> Q x"
  shows "in_priority i (filter Q xs) r new"
proof -
  have id: "filter Q ys = ys" if l2: "list_all2 (takes i) ys ts" and sub: "set ys \<subseteq> set xs" for ys ts
  proof (rule filter_True, rule ballI)
    fix x assume x: "x \<in> set ys"
    then obtain t where "takes i x t"
      using list_all2_in1 [OF l2] by blast
    then show "Q x" using x sub no by (auto simp: takes_def)
  qed
  from pr consider (full) ys zs where "xs = ys @ zs" "list_all2 (takes i) ys new"
    | (part) ys x zs ts t where "r = 0" "xs = ys @ x # zs" "new = ts @ [t]"
        "list_all2 (takes i) ys ts" "takes_part i x t"
    unfolding in_priority_def by blast
  then show ?thesis
  proof cases
    case full
    then have "filter Q xs = ys @ filter Q zs" using id [OF full(2)] by simp
    then show ?thesis
      unfolding in_priority_def by (intro disjI1 exI [of _ ys] exI [of _ "filter Q zs"] conjI full(2))
  next
    case part
    have "Q x" using part(2,5) no by (simp add: takes_part_def)
    then have "filter Q xs = ys @ x # filter Q zs" using id [OF part(4)] part(2) by auto
    then show ?thesis
      unfolding in_priority_def
      by (intro disjI2 conjI part(1) exI [of _ ys] exI [of _ x] exI [of _ "filter Q zs"] exI [of _ ts]
        exI [of _ t] part(3-5))
  qed
qed


section \<open>Sequence numbers and the event log\<close>

definition seq_from :: "TradeSequence \<Rightarrow> nat \<Rightarrow> TradeSequence" where
  "seq_from ts n = TradeSequence (tseq_value ts + of_nat n)"

lemma seq_from_0 [simp]: "seq_from ts 0 = ts"
  by (simp add: seq_from_def)

lemma next_seq_from: "next_trade_seq (seq_from ts n) = seq_from ts (Suc n)"
  by (simp add: next_trade_seq_def seq_from_def algebra_simps)

lemma spec_match_sequence:
  assumes "spec_match i rem trs S = (r, trs', S')"
  shows "\<exists>new. trs' = trs @ new \<and> map trade_sequence new = map (seq_from (sp_next_trade S)) [0..<length new] \<and>
    sp_next_trade S' = seq_from (sp_next_trade S) (length new)"
  by (rule spec_match_rule(1) [OF assms, where P = "\<lambda>_ cur T. \<exists>new. cur = trs @ new \<and>
      map trade_sequence new = map (seq_from (sp_next_trade S)) [0..<length new] \<and>
      sp_next_trade T = seq_from (sp_next_trade S) (length new)"])
    (auto simp: next_seq_from)

fun logged_trades :: "SinkCall list \<Rightarrow> Trade list" where
  "logged_trades [] = []"
| "logged_trades (on_trade t # cs) = t # logged_trades cs"
| "logged_trades (_ # cs) = logged_trades cs"

fun logged_cancels :: "SinkCall list \<Rightarrow> OrderCancelled list" where
  "logged_cancels [] = []"
| "logged_cancels (on_order_cancelled c # cs) = c # logged_cancels cs"
| "logged_cancels (_ # cs) = logged_cancels cs"

lemma logged_trades_append [simp]: "logged_trades (xs @ ys) = logged_trades xs @ logged_trades ys"
  by (induction xs rule: logged_trades.induct) auto

lemma logged_cancels_append [simp]: "logged_cancels (xs @ ys) = logged_cancels xs @ logged_cancels ys"
  by (induction xs rule: logged_cancels.induct) auto

text \<open>The log grows by the trades and by one cancel per order the match pulled.\<close>

lemma spec_match_log:
  assumes "spec_match i rem trs S = (r, trs', S')"
  shows "\<exists>new evs. trs' = trs @ new \<and> sp_log S' = sp_log S @ evs \<and> logged_trades evs = new \<and>
    (\<forall>c \<in> set (logged_cancels evs). sp_cancel_resting S)"
proof -
  let ?P = "\<lambda>_ cur T. sp_stp T = sp_stp S \<and> (\<exists>new evs. cur = trs @ new \<and> sp_log T = sp_log S @ evs \<and>
    logged_trades evs = new \<and> (\<forall>c \<in> set (logged_cancels evs). sp_cancel_resting S))"
  have "?P r trs' S'"
  proof (rule spec_match_rule(1) [OF assms, where P = ?P])
    show "?P rem trs S" by (auto intro: exI [of _ "[]"])
  next
    fix rem trs T x xs
    assume "?P rem trs T" "sp_cancel_resting T"
    then show "?P rem trs (sp_emit (cancel_event x) (sp_drop (opposite (in_side i)) x T))"
      by (auto simp: cancel_event_def sp_cancel_resting_def)
  qed auto
  then show ?thesis by blast
qed

end
