(* ===== verification/Engine_Properties.thy ===== *)
theory Engine_Properties
  imports Engine_Refinement Spec_Trades
begin

text \<open>
  The properties of the matching engine, stated over its own operations. Most are read off
  the abstract exchange through the refinement. The example states at the start are used by
  the witnesses.
\<close>

section \<open>Requests and reachable states\<close>

text \<open>The two operations of the \<open>EngineAPI\<close> port that change state.\<close>

datatype Request = Submit NewOrder | CancelOrder OrderId

fun engine_step :: "freed_node \<Rightarrow> MatchingEngine \<Rightarrow> Request \<Rightarrow> (EngineResponse \<times> MatchingEngine) option" where
  "engine_step fr e (Submit ord) = submit fr e ord"
| "engine_step fr e (CancelOrder i) = cancel e i"

inductive reachable :: "nat \<Rightarrow> StpConfig \<Rightarrow> MatchingEngine \<Rightarrow> bool" for cap cfg where
  init: "reachable cap cfg (MatchingEngine_init cap cfg)"
| step: "reachable cap cfg e \<Longrightarrow> engine_step Retained e rq = Some (resp, e') \<Longrightarrow> reachable cap cfg e'"

lemma submit_refined:
  assumes "engine_ok e" and "submit Retained e ord = Some (resp, e')"
  shows "engine_ok e'" and "spec_submit ord (spec_of e) = (resp, spec_of e')"
  using submit_spec [OF assms(1), of ord] assms(2) by auto

lemma cancel_refined:
  assumes "engine_ok e" and "cancel e i = Some (resp, e')"
  shows "engine_ok e'" and "spec_cancel i (spec_of e) = (resp, spec_of e')"
  using cancel_spec [OF assms(1), of i] assms(2) by auto

lemma engine_step_ok:
  assumes "engine_ok e"
  obtains resp e' where "engine_step Retained e rq = Some (resp, e')" and "engine_ok e'"
proof (cases rq)
  case (Submit ord)
  show ?thesis by (rule submit_spec [OF assms, of ord]) (use that Submit in simp)
next
  case (CancelOrder i)
  show ?thesis by (rule cancel_spec [OF assms, of i]) (use that CancelOrder in simp)
qed

lemma reachable_ok:
  assumes "reachable cap cfg e" and "cap < 2 ^ 32"
  shows "engine_ok e"
  using assms
proof induction
  case init
  then show ?case by (intro engine_ok_init)
next
  case (step e rq resp e')
  then show ?case using engine_step_ok [of e rq] by (metis option.inject prod.inject)
qed


section \<open>Example states\<close>

definition demo_stp :: StpConfig where
  "demo_stp = \<lparr>enabled = True, policy = CancelResting\<rparr>"

definition limit_of :: "nat \<Rightarrow> nat \<Rightarrow> Side \<Rightarrow> nat \<Rightarrow> nat \<Rightarrow> NewOrder" where
  "limit_of c i s p q = NewLimit \<lparr>lo_id = OrderId (of_nat i), lo_side = s, lo_price = Price (of_nat p),
     lo_quantity = Quantity (of_nat q), lo_owner = ClientId (of_nat c)\<rparr>"

fun run :: "MatchingEngine \<Rightarrow> Request list \<Rightarrow> MatchingEngine" where
  "run e [] = e"
| "run e (rq # rqs) = (case engine_step Retained e rq of None \<Rightarrow> e | Some (_, e') \<Rightarrow> run e' rqs)"

lemma run_ok: "engine_ok e \<Longrightarrow> engine_ok (run e rqs)"
proof (induction rqs arbitrary: e)
  case (Cons rq rqs)
  obtain resp e' where "engine_step Retained e rq = Some (resp, e')" "engine_ok e'"
    by (rule engine_step_ok [OF Cons.prems])
  then show ?case using Cons.IH by simp
qed simp

lemma run_reachable: "reachable cap cfg e \<Longrightarrow> reachable cap cfg (run e rqs)"
  by (induction rqs arbitrary: e) (auto split: option.split intro: reachable.step)

text \<open>Client 1 offers 5 at 100 and 5 at 102, client 2 offers 4 at 101.\<close>

definition demo :: MatchingEngine where
  "demo = run (MatchingEngine_init 8 demo_stp)
     [Submit (limit_of 1 1 Sell 100 5), Submit (limit_of 2 7 Sell 101 4), Submit (limit_of 1 2 Sell 102 5)]"

lemma demo_reachable: "reachable 8 demo_stp demo"
  unfolding demo_def by (rule run_reachable [OF reachable.init])

lemma demo_ok: "engine_ok demo"
  by (rule reachable_ok [OF demo_reachable]) simp


section \<open>Safety, termination and refinement\<close>



text \<open>
  C2. \<open>submit\<close> implements the abstract exchange: it answers what price-time matching on
  two flat priority lists answers, leaves the state that matching leaves, and keeps the
  engine's invariant.
\<close>

theorem submit_refines_spec:
  assumes "engine_ok e"
  shows "\<exists>resp e'. submit Retained e ord = Some (resp, e') \<and> engine_ok e' \<and>
    spec_submit ord (spec_of e) = (resp, spec_of e')"
  using submit_spec [OF assms, of ord] by blast

theorem submit_refines_spec_witness:
  "\<exists>resp e'. submit Retained demo (limit_of 3 1 Buy 101 7) = Some (resp, e') \<and> engine_ok e' \<and>
    spec_submit (limit_of 3 1 Buy 101 7) (spec_of demo) = (resp, spec_of e')"
  by (rule submit_refines_spec [OF demo_ok])

text \<open>
  C3. \<open>cancel\<close> implements the abstract cancel: it removes exactly the order the index finds,
  reports its remaining quantity, or answers \<open>UnknownOrderId\<close> and changes nothing.
\<close>

theorem cancel_refines_spec:
  assumes "engine_ok e"
  shows "\<exists>resp e'. cancel e i = Some (resp, e') \<and> engine_ok e' \<and>
    spec_cancel i (spec_of e) = (resp, spec_of e')"
  using cancel_spec [OF assms, of i] by blast

theorem cancel_refines_spec_witness:
  "\<exists>resp e'. cancel demo (OrderId 7) = Some (resp, e') \<and> engine_ok e' \<and>
    spec_cancel (OrderId 7) (spec_of demo) = (resp, spec_of e')"
  by (rule cancel_refines_spec [OF demo_ok])

text \<open>
  C4. The book is never crossed: in every reachable state every resting bid is priced below
  every resting ask.
\<close>

theorem book_never_crossed:
  assumes "reachable cap cfg e" and "cap < 2 ^ 32"
    and "x \<in> set (resting (book e) Buy)" and "y \<in> set (resting (book e) Sell)"
  shows "o_price x < o_price y"
  using reachable_ok [OF assms(1,2)] assms(3,4)
  by (simp add: engine_ok_def spec_ok_def uncrossed_def)

definition demo2 :: MatchingEngine where
  "demo2 = run demo [Submit (limit_of 4 9 Buy 99 3)]"

lemma demo2_reachable: "reachable 8 demo_stp demo2"
  unfolding demo2_def by (rule run_reachable [OF demo_reachable])

lemma demo2_sides:
  "map o_price (resting (book demo2) Buy) = [Price 99]"
  "map o_price (resting (book demo2) Sell) = [Price 100, Price 101, Price 102]"
  by code_simp+

theorem book_never_crossed_witness:
  "\<exists>x y. x \<in> set (resting (book demo2) Buy) \<and> y \<in> set (resting (book demo2) Sell) \<and> o_price x < o_price y"
proof -
  obtain x where x: "x \<in> set (resting (book demo2) Buy)"
    using demo2_sides(1) by (cases "resting (book demo2) Buy") auto
  obtain y where y: "y \<in> set (resting (book demo2) Sell)"
    using demo2_sides(2) by (cases "resting (book demo2) Sell") auto
  have "o_price x < o_price y"
    by (rule book_never_crossed [OF demo2_reachable _ x y]) simp
  with x y show ?thesis by blast
qed


section \<open>One accepted order\<close>

fun incoming_of :: "NewOrder \<Rightarrow> Incoming" where
  "incoming_of (NewLimit lo) =
     \<lparr>in_side = lo_side lo, in_id = lo_id lo, in_owner = lo_owner lo, in_limit = Some (lo_price lo)\<rparr>"
| "incoming_of (NewMarket mo) =
     \<lparr>in_side = mo_side mo, in_id = mo_id mo, in_owner = mo_owner mo, in_limit = None\<rparr>"

fun accepted_of :: "NewOrder \<Rightarrow> OrderAccepted" where
  "accepted_of (NewLimit lo) =
     \<lparr>acc_id = lo_id lo, acc_side = lo_side lo, acc_quantity = lo_quantity lo, acc_price = lo_price lo\<rparr>"
| "accepted_of (NewMarket mo) =
     \<lparr>acc_id = mo_id mo, acc_side = mo_side mo, acc_quantity = mo_quantity mo, acc_price = Price 0\<rparr>"

lemma acc_id_of [simp]: "acc_id (accepted_of ord) = new_order_id ord"
  by (cases ord) simp_all

lemma incoming_sel [simp]:
  "in_side (incoming_of ord) = new_order_side ord" "in_id (incoming_of ord) = new_order_id ord"
  "in_owner (incoming_of ord) = new_order_owner ord"
  by (cases ord; simp)+

lemma spec_submit_accepted:
  assumes "spec_submit ord S = (resp, S')" and "status resp = Accepted"
  obtains S1 where "spec_match (incoming_of ord) (new_order_quantity ord) []
      (sp_accept (new_order_owner ord) (accepted_of ord) S) = (remaining_qty resp, trades resp, S1)"
    and "S' = S1 \<or> (\<exists>lo. ord = NewLimit lo \<and>
      S' = sp_rest (rest_order lo (remaining_qty resp) (sp_next_seq S1)) S1)"
    and "\<not> spec_stale S (new_order_owner ord) (new_order_id ord)"
    and "sp_reject_incoming S \<Longrightarrow>
      \<not> spec_self_cross S (new_order_side ord) (new_order_owner ord) (in_limit (incoming_of ord))"
proof (cases ord)
  case (NewLimit lo)
  have run: "spec_limit lo S = (resp, S')" using assms(1) NewLimit by simp
  show ?thesis
    by (rule spec_limit_accepted [OF run assms(2)], rule that) (auto simp: NewLimit split: if_splits)
next
  case (NewMarket mo)
  have run: "spec_market mo S = (resp, S')" using assms(1) NewMarket by simp
  show ?thesis
    by (rule spec_market_accepted [OF run assms(2)], rule that) (auto simp: NewMarket)
qed

lemma submit_accepted:
  assumes ok: "engine_ok e" and run: "submit Retained e ord = Some (resp, e')"
    and acc: "status resp = Accepted"
  obtains S1 where "spec_match (incoming_of ord) (new_order_quantity ord) []
      (sp_accept (new_order_owner ord) (accepted_of ord) (spec_of e)) = (remaining_qty resp, trades resp, S1)"
    and "spec_of e' = S1 \<or> (\<exists>lo. ord = NewLimit lo \<and>
      spec_of e' = sp_rest (rest_order lo (remaining_qty resp) (sp_next_seq S1)) S1)"
    and "\<not> spec_stale (spec_of e) (new_order_owner ord) (new_order_id ord)"
    and "sp_reject_incoming (spec_of e) \<Longrightarrow>
      \<not> spec_self_cross (spec_of e) (new_order_side ord) (new_order_owner ord) (in_limit (incoming_of ord))"
  using spec_submit_accepted [OF submit_refined(2) [OF ok run] acc] by metis

text \<open>
  C5. No quantity is created or lost: what an accepted order asked for is what it traded plus
  what remains of it.
\<close>

theorem fill_conservation:
  assumes "engine_ok e" and "submit Retained e ord = Some (resp, e')" and "status resp = Accepted"
  shows "qty_nat (new_order_quantity ord) = traded (trades resp) + qty_nat (remaining_qty resp)"
proof -
  obtain S1 where m: "spec_match (incoming_of ord) (new_order_quantity ord) []
      (sp_accept (new_order_owner ord) (accepted_of ord) (spec_of e)) = (remaining_qty resp, trades resp, S1)"
    by (rule submit_accepted [OF assms]) (rule that)
  show ?thesis using spec_match_conserve [OF m] by (simp add: traded_def)
qed

text \<open>The response of a crossing buy on the example state.\<close>

definition demo_buy :: NewOrder where
  "demo_buy = limit_of 3 1 Buy 101 7"

lemma demo_buy_run:
  obtains resp e' where "submit Retained demo demo_buy = Some (resp, e')" and "status resp = Accepted"
    and "remaining_qty resp = 0"
    and "map (\<lambda>t. (t_price t, t_quantity t)) (trades resp) = [(Price 100, Quantity 5), (Price 101, Quantity 2)]"
proof -
  have "map_option (\<lambda>(r, e). (status r, remaining_qty r, map (\<lambda>t. (t_price t, t_quantity t)) (trades r)))
      (submit Retained demo demo_buy)
    = Some (Accepted, 0, [(Price 100, Quantity 5), (Price 101, Quantity 2)])"
    by code_simp
  then show ?thesis using that by (cases "submit Retained demo demo_buy") auto
qed

theorem fill_conservation_witness:
  "\<exists>resp e'. submit Retained demo demo_buy = Some (resp, e') \<and> status resp = Accepted \<and> trades resp \<noteq> [] \<and>
     qty_nat (new_order_quantity demo_buy) = traded (trades resp) + qty_nat (remaining_qty resp)"
proof -
  obtain resp e' where r: "submit Retained demo demo_buy = Some (resp, e')" "status resp = Accepted"
    "map (\<lambda>t. (t_price t, t_quantity t)) (trades resp) = [(Price 100, Quantity 5), (Price 101, Quantity 2)]"
    by (rule demo_buy_run) (rule that)
  show ?thesis using fill_conservation [OF demo_ok r(1,2)] r by (intro exI [of _ resp] exI [of _ e']) auto
qed

text \<open>
  C6. Price-time priority: the trades of an accepted order consume a prefix of the opposite
  side in priority order, each at the resting order's price and within the limit, each
  resting order entirely except possibly the last; and a remainder is left only when no
  order of the opposite side crosses any more.
\<close>

theorem price_time_priority:
  assumes "engine_ok e" and "submit Retained e ord = Some (resp, e')" and "status resp = Accepted"
  shows "in_priority (incoming_of ord) (eligible (spec_of e) (incoming_of ord)) (remaining_qty resp) (trades resp) \<and>
    (remaining_qty resp \<noteq> 0 \<longrightarrow> (\<forall>x \<in> set (resting (book e') (opposite (new_order_side ord))).
      \<not> crosses (new_order_side ord) (in_limit (incoming_of ord)) (o_price x)))"
proof -
  let ?i = "incoming_of ord" and ?S = "sp_accept (new_order_owner ord) (accepted_of ord) (spec_of e)"
  obtain S1 where m: "spec_match ?i (new_order_quantity ord) [] ?S = (remaining_qty resp, trades resp, S1)"
    and e': "spec_of e' = S1 \<or> (\<exists>lo. ord = NewLimit lo \<and>
      spec_of e' = sp_rest (rest_order lo (remaining_qty resp) (sp_next_seq S1)) S1)"
    and st: "\<not> spec_stale (spec_of e) (new_order_owner ord) (new_order_id ord)"
    by (rule submit_accepted [OF assms]) (rule that)
  have "eligible ?S ?i = eligible (spec_of e) ?i"
    by (simp add: eligible_def sp_cancel_resting_def)
  then have "in_priority ?i (eligible (spec_of e) ?i) (remaining_qty resp) (trades resp)"
    using spec_match_priority [OF m] by simp
  moreover have "spec_ok ?S"
    using spec_ok_accept(1) [of "spec_of e"] st assms(1) by (simp add: engine_ok_def)
  then have "\<not> crosses (new_order_side ord) (in_limit ?i) (o_price x)"
    if "remaining_qty resp \<noteq> 0" "x \<in> set (sp_side S1 (opposite (new_order_side ord)))" for x
    using spec_match_stop [OF m _ that(1), of x] that(2) by simp
  moreover have "resting (book e') (opposite (new_order_side ord)) = sp_side S1 (opposite (new_order_side ord))"
    using e' by (auto simp: sp_rest_def rest_order_def dest: arg_cong [of _ _ sp_side])
  ultimately show ?thesis by simp
qed

theorem price_time_priority_witness:
  "\<exists>resp e'. submit Retained demo demo_buy = Some (resp, e') \<and>
     in_priority (incoming_of demo_buy) (eligible (spec_of demo) (incoming_of demo_buy))
       (remaining_qty resp) (trades resp) \<and> length (trades resp) = 2"
proof -
  obtain resp e' where r: "submit Retained demo demo_buy = Some (resp, e')" "status resp = Accepted"
    "map (\<lambda>t. (t_price t, t_quantity t)) (trades resp) = [(Price 100, Quantity 5), (Price 101, Quantity 2)]"
    by (rule demo_buy_run) (rule that)
  have "length (trades resp) = 2" using arg_cong [OF r(3), of length] by simp
  then show ?thesis using price_time_priority [OF demo_ok r(1,2)] r(1) by blast
qed

lemma bind_response:
  assumes "Option.bind m (\<lambda>(remaining, trs, e3). Option.bind (f remaining trs e3) (\<lambda>e5.
      Some (\<lparr>status = Accepted, trades = trs, remaining_qty = remaining, r_order_id = i\<rparr>, e5))) = Some (resp, e')"
  shows "status resp = Accepted"
  using assms by (auto elim!: bind_SomeE)

lemma submit_rejected:
  assumes run: "submit fr e ord = Some (resp, e')" and st: "status resp \<noteq> Accepted"
  shows "e' = e \<and> resp = reject (status resp) (new_order_id ord)"
proof (cases ord)
  case (NewLimit lo)
  let ?rej = "lo_quantity lo = 0 \<or> lo_price lo \<le> 0 \<or> watermark_rejects e (lo_owner lo) (lo_id lo) \<or>
    stp_reject_incoming e \<and> would_self_cross e (lo_side lo) (lo_owner lo) (Some (lo_price lo)) \<or>
    pool_available (book e) = 0"
  have ?rej
  proof (rule ccontr)
    assume "\<not> ?rej"
    then show False
      using run st bind_response unfolding NewLimit submit.simps submit_limit_def Let_def by fastforce
  qed
  then have "\<exists>r. submit fr e ord = Some (reject r (new_order_id ord), e)"
    unfolding NewLimit submit.simps submit_limit_def by auto
  then show ?thesis using run by (auto simp: reject_def)
next
  case (NewMarket mo)
  let ?rej = "mo_quantity mo = 0 \<or> watermark_rejects e (mo_owner mo) (mo_id mo) \<or>
    stp_reject_incoming e \<and> would_self_cross e (mo_side mo) (mo_owner mo) None"
  have ?rej
  proof (rule ccontr)
    assume "\<not> ?rej"
    then show False
      using run st unfolding NewMarket submit.simps submit_market_def Let_def by (auto elim!: bind_SomeE)
  qed
  then have "\<exists>r. submit fr e ord = Some (reject r (new_order_id ord), e)"
    unfolding NewMarket submit.simps submit_market_def by auto
  then show ?thesis using run by (auto simp: reject_def)
qed

text \<open>
  A rejected order has no effect: whatever the reason, the engine's state (book, index,
  watermarks, counters and event log) is the one before, and the response carries no trades,
  zero remaining quantity and the submitted id.
\<close>

lemma reject_no_effect:
  assumes "submit fr e ord = Some (resp, e')" and "status resp \<noteq> Accepted"
  shows "e' = e \<and> resp = reject (status resp) (new_order_id ord)"
  using assms by (rule submit_rejected)

lemma reject_no_effect_example:
  "\<exists>resp. submit Trap demo (limit_of 1 2 Buy 100 1) = Some (resp, demo) \<and> status resp = DuplicateOrderId"
proof -
  have "map_option (\<lambda>(r, e). status r) (submit Trap demo (limit_of 1 2 Buy 100 1)) = Some DuplicateOrderId"
    by code_simp
  then obtain resp e' where r: "submit Trap demo (limit_of 1 2 Buy 100 1) = Some (resp, e')"
    "status resp = DuplicateOrderId"
    by (cases "submit Trap demo (limit_of 1 2 Buy 100 1)") auto
  then show ?thesis using reject_no_effect [OF r(1)] by auto
qed

text \<open>
  A market order never rests: the side it would rest on is left as it was, and on the
  opposite side no order is new.
\<close>

lemma market_never_rests:
  assumes "engine_ok e" and "submit_market Retained e mo = Some (resp, e')"
  shows "resting (book e') (mo_side mo) = resting (book e) (mo_side mo) \<and>
    order_ident ` set (resting (book e') (opposite (mo_side mo)))
      \<subseteq> order_ident ` set (spec_orders (spec_of e))"
proof (cases "status resp = Accepted")
  case False
  then have "e' = e" using submit_rejected [of Retained e "NewMarket mo"] assms(2) by simp
  then show ?thesis using spec_orders_side [of _ "spec_of e"] by auto
next
  case True
  have run: "submit Retained e (NewMarket mo) = Some (resp, e')" using assms(2) by simp
  obtain S1 where m: "spec_match (incoming_of (NewMarket mo)) (mo_quantity mo) []
      (sp_accept (mo_owner mo) (accepted_of (NewMarket mo)) (spec_of e)) = (remaining_qty resp, trades resp, S1)"
    and e': "spec_of e' = S1"
    by (rule submit_accepted [OF assms(1) run True]) (use that in auto)
  have so: "spec_orders (sp_accept c a S) = spec_orders S" for c a S
    by (simp add: spec_orders_def)
  have "order_ident ` set (spec_orders S1) \<subseteq> order_ident ` set (spec_orders (spec_of e))"
    using spec_match_idents [OF m] unfolding so .
  moreover have "set (resting (book e') s) \<subseteq> set (spec_orders S1)" for s
    unfolding e' [symmetric] using spec_orders_side [of _ "spec_of e'"] by auto
  moreover have "resting (book e') (mo_side mo) = resting (book e) (mo_side mo)"
    using spec_match_frame(1) [OF m] e' by (auto dest: arg_cong [of _ _ sp_side])
  ultimately show ?thesis by blast
qed

lemma market_never_rests_example:
  "\<exists>resp e'. submit_market Retained demo \<lparr>mo_id = OrderId 5, mo_side = Buy, mo_quantity = Quantity 100,
      mo_owner = ClientId 9\<rparr> = Some (resp, e') \<and>
    resting (book e') Buy = resting (book demo) Buy"
proof -
  obtain resp e' where r: "submit_market Retained demo \<lparr>mo_id = OrderId 5, mo_side = Buy,
      mo_quantity = Quantity 100, mo_owner = ClientId 9\<rparr> = Some (resp, e')"
    using submit_market_spec [OF demo_ok] by blast
  then show ?thesis using market_never_rests [OF demo_ok r] by auto
qed

text \<open>
  C7. With self-trade prevention on, under either policy, an accepted order trades only
  with other clients' orders: its trades consume a prefix of the opposite side without the
  owner's own orders.
\<close>

theorem no_self_trade:
  assumes "engine_ok e" and "enabled (stp e)"
    and "submit Retained e ord = Some (resp, e')" and "status resp = Accepted"
  shows "in_priority (incoming_of ord)
    (filter (\<lambda>x. o_owner x \<noteq> new_order_owner ord) (resting (book e) (opposite (new_order_side ord))))
    (remaining_qty resp) (trades resp)"
proof -
  let ?i = "incoming_of ord" and ?S = "sp_accept (new_order_owner ord) (accepted_of ord) (spec_of e)"
  let ?xs = "resting (book e) (opposite (new_order_side ord))"
  obtain S1 where m: "spec_match ?i (new_order_quantity ord) [] ?S = (remaining_qty resp, trades resp, S1)"
    and sx: "sp_reject_incoming (spec_of e) \<Longrightarrow>
      \<not> spec_self_cross (spec_of e) (new_order_side ord) (new_order_owner ord) (in_limit ?i)"
    by (rule submit_accepted [OF assms(1,3,4)]) (rule that)
  have pr: "in_priority ?i (eligible ?S ?i) (remaining_qty resp) (trades resp)"
    using spec_match_priority [OF m] by simp
  show ?thesis
  proof (cases "policy (stp e)")
    case CancelResting
    then have "eligible ?S ?i = filter (\<lambda>x. o_owner x \<noteq> new_order_owner ord) ?xs"
      using assms(2) by (simp add: eligible_def sp_cancel_resting_def)
    then show ?thesis using pr by simp
  next
    case RejectIncoming
    then have el: "eligible ?S ?i = ?xs"
      by (simp add: eligible_def sp_cancel_resting_def)
    have "sp_reject_incoming (spec_of e)"
      using RejectIncoming assms(2) by (simp add: sp_reject_incoming_def)
    then have no: "\<not> (\<exists>x \<in> set ?xs. o_owner x = new_order_owner ord \<and>
        crosses (new_order_side ord) (in_limit ?i) (o_price x))"
      using sx by (simp add: spec_self_cross_def)
    show ?thesis
      by (rule in_priority_filter [OF pr [unfolded el]]) (use no in auto)
  qed
qed

theorem no_self_trade_witness:
  "\<exists>resp e'. submit Retained demo (limit_of 1 3 Buy 102 6) = Some (resp, e') \<and> trades resp \<noteq> [] \<and>
    in_priority (incoming_of (limit_of 1 3 Buy 102 6))
      (filter (\<lambda>x. o_owner x \<noteq> ClientId 1) (resting (book demo) Sell)) (remaining_qty resp) (trades resp)"
proof -
  have "map_option (\<lambda>(r, e). (status r, map t_price (trades r))) (submit Retained demo (limit_of 1 3 Buy 102 6))
      = Some (Accepted, [Price 101])"
    by code_simp
  then obtain resp e' where r: "submit Retained demo (limit_of 1 3 Buy 102 6) = Some (resp, e')"
    "status resp = Accepted" "map t_price (trades resp) = [Price 101]"
    by (cases "submit Retained demo (limit_of 1 3 Buy 102 6)") auto
  have en: "enabled (stp demo)" by code_simp
  have "trades resp \<noteq> []" using r(3) by auto
  then show ?thesis
    using no_self_trade [OF demo_ok en r(1,2)] r(1) by (auto simp: limit_of_def)
qed

text \<open>
  C8. The constant-time self-trade check is exact: looking at one end of the owner's own
  price index answers whether any of the owner's resting orders on the opposite side would
  cross, as a scan of the whole side would.
\<close>

theorem self_cross_check_exact:
  assumes "engine_ok e" and "enabled (stp e)"
  shows "would_self_cross e side c lim \<longleftrightarrow>
    (\<exists>x \<in> set (resting (book e) (opposite side)). o_owner x = c \<and> crosses side lim (o_price x))"
  using assms by (intro would_self_cross_exact) (simp_all add: engine_ok_def)

theorem self_cross_check_exact_witness:
  "would_self_cross demo Buy (ClientId 2) (Some (Price 100)) \<longleftrightarrow>
    (\<exists>x \<in> set (resting (book demo) Sell). o_owner x = ClientId 2 \<and> crosses Buy (Some (Price 100)) (o_price x))"
proof -
  have "enabled (stp demo)" by code_simp
  from self_cross_check_exact [OF demo_ok this, of Buy "ClientId 2" "Some (Price 100)"]
  show ?thesis by simp
qed


section \<open>The destroyed level\<close>

definition level_depth :: "OrderBook \<Rightarrow> Side \<Rightarrow> Price \<Rightarrow> nat" where
  "level_depth b s k = sum_list (map (qty_nat \<circ> o_quantity) (filter (\<lambda>x. o_price x = k) (resting b s)))"

lemma match_level_trap:
  assumes "engine_ok e" and s: "s = opposite (in_side i)" and "\<not> stp_cancel_resting e"
    and "\<And>x. x \<in> set (resting (book e) s) \<Longrightarrow> \<not> tree_lt s (o_price x) k"
    and "level_depth (book e) s k < qty_nat rem"
  shows "match_level Trap i (s, k) rem trs e = None"
  using assms(1,3,4,5)
proof (induction "length (resting (book e) s)" arbitrary: e rem trs rule: less_induct)
  case less
  note ok = less.prems(1) and nc = less.prems(2) and best = less.prems(3) and depth = less.prems(4)
  have bo: "book_ok (book e)" using ok by (simp add: engine_ok_def)
  have rem: "0 < rem" using depth by (simp add: qty_less_iff)
  show ?case
  proof (cases "level_at (book e) (s, k)")
    case None
    then show ?thesis using rem by (subst match_level.simps) (simp add: read_empty_def)
  next
    case (Some l)
    obtain p ps ord xs where p: "resting_ptrs (book e) s = p # ps" "front l = Some p" "\<not> level_empty l"
      "load (mem (book e)) p = Some ord" "o_price ord = k" "order_at (book e) p = strip ord"
      "resting (book e) s = strip ord # xs"
      by (rule best_front [OF ok Some best]) (assumption, rule that)
    let ?x = "strip ord"
    have dx: "level_depth (book e) s k = qty_nat (o_quantity ?x) +
        sum_list (map (qty_nat \<circ> o_quantity) (filter (\<lambda>x. o_price x = k) xs))"
      using p(5,7) by (simp add: level_depth_def)
    then have le: "o_quantity ?x \<le> rem" using depth by (simp add: qty_le_iff)
    let ?t = "make_trade (next_trade_sequence e) i ?x (o_quantity ?x)"
    obtain e' where e': "fill_resting e i (s, o_price ?x) p rem = Some (rem - o_quantity ?x, ?t, e')"
      "engine_ok e'" "spec_of e' = sp_drop s ?x (sp_trade ?t (spec_of e))"
      by (rule fill_resting_full [OF ok p(1) p(6) [symmetric] le refl]) (rule that)
    have r': "resting (book e') s = xs" and stp': "stp e' = stp e"
      using arg_cong [OF e'(3), of "\<lambda>S. sp_side S s"] arg_cong [OF e'(3), of sp_stp] p(7) by simp_all
    have "level_depth (book e') s k < qty_nat (rem - o_quantity ?x)"
      using depth dx qty_nat_minus [OF le] by (simp add: level_depth_def r')
    moreover have "\<not> stp_cancel_resting e'" using nc stp' by (simp add: stp_cancel_resting_def)
    moreover have "\<not> tree_lt s (o_price y) k" if "y \<in> set (resting (book e') s)" for y
      using best that p(7) r' by simp
    ultimately have "match_level Trap i (s, k) (rem - o_quantity ?x) (trs @ [?t]) e' = None"
      using e'(2) p(7) r' by (intro less.hyps) simp_all
    then show ?thesis
      using Some p nc rem e'(1) by (subst match_level.simps) (simp add: read_empty_def)
  qed
qed

text \<open>
  C9. The matching loop reads a level it has destroyed: when an incoming order takes the
  whole of the best opposite level and has quantity left, the inner loop's test
  \<open>level->empty()\<close> runs on the \<open>PriceLevel\<close> that \<open>remove_order\<close> erased from the tree. On a
  platform where that read faults, the match does not return.
\<close>

theorem sweep_reads_destroyed_level:
  assumes "engine_ok e" and "\<not> stp_cancel_resting e"
    and "tree_of (book e) (opposite (in_side i)) = (k, l) # t"
    and "crosses (in_side i) (in_limit i) k"
    and "level_depth (book e) (opposite (in_side i)) k < qty_nat rem"
  shows "match_against_book Trap e i rem = None"
proof -
  let ?s = "opposite (in_side i)"
  have bo: "book_ok (book e)" using assms(1) by (simp add: engine_ok_def)
  obtain p ps where p: "level_at (book e) (?s, k) = Some l" "level_price l = k"
    "\<And>q. q \<in> set (resting_ptrs (book e) ?s) \<Longrightarrow> \<not> tree_lt ?s (o_price (order_at (book e) q)) k"
    by (rule best_level [OF bo assms(3)]) (rule that)
  have "match_level Trap i (?s, k) rem [] e = None"
    by (rule match_level_trap [OF assms(1) refl assms(2) _ assms(5)]) (use p(3) in \<open>auto simp: resting_def\<close>)
  moreover have "0 < rem" using assms(5) by (simp add: qty_less_iff)
  ultimately show ?thesis
    using assms(3,4) p unfolding match_against_book_def
    by (subst match_loop.simps) (simp add: best_opposite_tree)
qed

definition demo3 :: MatchingEngine where
  "demo3 = run (MatchingEngine_init 8 \<lparr>enabled = False, policy = RejectIncoming\<rparr>)
     [Submit (limit_of 1 1 Sell 100 5), Submit (limit_of 2 2 Sell 101 4)]"

lemma demo3_ok: "engine_ok demo3"
  unfolding demo3_def by (rule run_ok) (simp add: engine_ok_init)

theorem sweep_reads_destroyed_level_witness:
  "match_against_book Trap demo3 (incoming_of (limit_of 3 1 Buy 101 7)) (Quantity 7) = None \<and>
   map_option (\<lambda>(r, e). status r) (submit Retained demo3 (limit_of 3 1 Buy 101 7)) = Some Accepted"
proof
  have "\<not> stp_cancel_resting demo3" by code_simp
  moreover have "map fst (tree_of (book demo3) Sell) = [Price 100, Price 101]" by code_simp
  then obtain l t where "tree_of (book demo3) Sell = (Price 100, l) # t"
    by (cases "tree_of (book demo3) Sell") auto
  moreover have "level_depth (book demo3) Sell (Price 100) < qty_nat (Quantity 7)" by code_simp
  ultimately show "match_against_book Trap demo3 (incoming_of (limit_of 3 1 Buy 101 7)) (Quantity 7) = None"
    by (intro sweep_reads_destroyed_level [OF demo3_ok]) (simp_all add: limit_of_def price_less_iff)
  show "map_option (\<lambda>(r, e). status r) (submit Retained demo3 (limit_of 3 1 Buy 101 7)) = Some Accepted"
    by code_simp
qed


section \<open>Ids shared by two clients\<close>


definition demo4 :: MatchingEngine where
  "demo4 = run (MatchingEngine_init 8 demo_stp)
     [Submit (limit_of 1 1 Sell 100 5), Submit (limit_of 2 1 Sell 101 4)]"

lemma demo4_ok: "engine_ok demo4"
  unfolding demo4_def by (rule run_ok) (simp add: engine_ok_init)


end
