(* ===== verification/Engine_Accounting.thy ===== *)
theory Engine_Accounting
  imports Engine_Properties
begin

text \<open>
  What the engine keeps count of: pool slots and the order count, the aggregate quantity of
  each level, the per-client watermarks, the trade sequence and the event log.
\<close>

section \<open>Aggregates\<close>

lemma concat_map_one:
  assumes "distinct ks" and "k \<in> set ks"
  shows "concat (map (\<lambda>k'. if k' = k then f k' else []) ks) = f k"
  using assms
proof (induction ks)
  case (Cons a ks)
  have "concat (map (\<lambda>k'. if k' = k then f k' else []) ks) = []" if "k \<notin> set ks"
    using that by auto
  then show ?case using Cons by auto
qed simp

lemma resting_at_price:
  assumes ok: "book_ok b" and l: "level_at b (s, k) = Some l"
  shows "filter (\<lambda>x. o_price x = k) (resting b s) = map (order_at b) (queue b s k)"
proof -
  have rep: "book_rep b (queue b)" using ok by (simp add: book_ok_def)
  let ?ks = "map fst (tree_of b s)"
  have "filter (\<lambda>p. o_price (order_at b p) = k) (queue b s k') = (if k' = k then queue b s k' else [])" for k'
    using rep_order_at(2) [OF rep, of _ s k'] by (auto simp: filter_empty_conv filter_id_conv)
  then have "filter (\<lambda>p. o_price (order_at b p) = k) (concat (map (queue b s) ?ks))
      = concat (map (\<lambda>k'. if k' = k then queue b s k' else []) ?ks)"
    unfolding filter_concat_map by simp
  also have "\<dots> = queue b s k"
  proof (rule concat_map_one)
    show "distinct ?ks" using pt.sorted_distinct [OF rep_sorted [OF rep]] .
    show "k \<in> set ?ks"
      using l unfolding level_at_def by (auto dest: map_of_SomeD intro: rev_image_eqI)
  qed
  finally show ?thesis
    unfolding resting_def rep_resting_ptrs [OF rep] filter_map comp_def by simp
qed

lemma level_total:
  assumes "book_ok b" and "level_at b (s, k) = Some l"
  shows "total_quantity l = sum_list (map o_quantity (filter (\<lambda>x. o_price x = k) (resting b s)))"
proof -
  have rep: "book_rep b (queue b)" using assms(1) by (simp add: book_ok_def)
  have "level_rep (mem b) (s, k) l (queue b s k)"
    using rep_level(2) [OF rep] assms(2) by (simp add: level_at_def)
  then have "total_quantity l = sum_list (map (ptr_qty (mem b)) (queue b s k))"
    by (rule level_rep_total)
  also have "\<dots> = sum_list (map o_quantity (map (order_at b) (queue b s k)))"
    by (simp add: ptr_qty_def [abs_def] order_at_def comp_def)
  finally show ?thesis unfolding resting_at_price [OF assms] .
qed



text \<open>
  C12. Pool slots are neither leaked nor handed out twice: the order count is the number of
  orders on the two sides, and together with the free slots it is the pool's capacity.
\<close>

theorem pool_accounting:
  assumes "reachable cap cfg e" and "cap < 2 ^ 32"
  shows "order_count (book e) = length (resting (book e) Buy) + length (resting (book e) Sell) \<and>
    order_count (book e) + pool_available (book e) = capacity (pool (book e))"
proof -
  have bo: "book_ok (book e)" using reachable_ok [OF assms] by (simp add: engine_ok_def)
  then have "order_count (book e) + pool_available (book e) = capacity (pool (book e))"
    by (simp add: book_ok_def book_rep_def slots_ok_def pool_available_def)
  with order_count_resting [OF bo] show ?thesis by simp
qed

theorem pool_accounting_witness:
  "order_count (book demo2) = length (resting (book demo2) Buy) + length (resting (book demo2) Sell) \<and>
   order_count (book demo2) + pool_available (book demo2) = capacity (pool (book demo2))"
  by (rule pool_accounting [OF demo2_reachable]) simp


section \<open>Watermarks, sequence numbers and the log\<close>

text \<open>
  C13. A client's accepted ids strictly increase: an accepted order has an id above every id
  that client has had accepted, its acceptance moves that client's watermark and no other
  one, and a cancel moves none.
\<close>

theorem accepted_ids_increase:
  assumes "engine_ok e" and "submit Retained e ord = Some (resp, e')" and "status resp = Accepted"
  shows "last_accepted_id e' = (last_accepted_id e)(new_order_owner ord := Some (new_order_id ord)) \<and>
    (\<forall>w. last_accepted_id e (new_order_owner ord) = Some w \<longrightarrow> oid w < oid (new_order_id ord)) \<and>
    (\<forall>i r e''. cancel e' i = Some (r, e'') \<longrightarrow> last_accepted_id e'' = last_accepted_id e')"
proof (intro conjI allI impI)
  obtain S1 where m: "spec_match (incoming_of ord) (new_order_quantity ord) []
      (sp_accept (new_order_owner ord) (accepted_of ord) (spec_of e)) = (remaining_qty resp, trades resp, S1)"
    and e': "spec_of e' = S1 \<or> (\<exists>lo. ord = NewLimit lo \<and>
      spec_of e' = sp_rest (rest_order lo (remaining_qty resp) (sp_next_seq S1)) S1)"
    and st: "\<not> spec_stale (spec_of e) (new_order_owner ord) (new_order_id ord)"
    by (rule submit_accepted [OF assms]) (rule that)
  have "last_accepted_id e' = sp_watermark S1"
    using e' by (auto simp: sp_rest_def dest: arg_cong [of _ _ sp_watermark])
  then show "last_accepted_id e' = (last_accepted_id e)(new_order_owner ord := Some (new_order_id ord))"
    using spec_match_frame(2) [OF m] by simp
  fix w assume "last_accepted_id e (new_order_owner ord) = Some w"
  then show "oid w < oid (new_order_id ord)"
    using st by (simp add: spec_stale_def)
next
  fix i r e'' assume "cancel e' i = Some (r, e'')"
  then have "spec_cancel i (spec_of e') = (r, spec_of e'')"
    using cancel_refined submit_refined(1) [OF assms(1,2)] by blast
  then have "sp_watermark (spec_of e'') = sp_watermark (spec_of e')"
    by (auto simp: spec_cancel_def split: option.splits dest: arg_cong [of _ _ sp_watermark])
  then show "last_accepted_id e'' = last_accepted_id e'" by simp
qed

theorem accepted_ids_increase_witness:
  "\<exists>resp e'. submit Retained demo (limit_of 1 3 Buy 90 6) = Some (resp, e') \<and>
    last_accepted_id demo (ClientId 1) = Some (OrderId 2) \<and>
    last_accepted_id e' = (last_accepted_id demo)(ClientId 1 := Some (OrderId 3))"
proof -
  have "map_option (\<lambda>(r, e). status r) (submit Retained demo (limit_of 1 3 Buy 90 6)) = Some Accepted"
    by code_simp
  then obtain resp e' where r: "submit Retained demo (limit_of 1 3 Buy 90 6) = Some (resp, e')"
    "status resp = Accepted"
    by (cases "submit Retained demo (limit_of 1 3 Buy 90 6)") auto
  moreover have "last_accepted_id demo (ClientId 1) = Some (OrderId 2)" by code_simp
  ultimately show ?thesis using accepted_ids_increase [OF demo_ok r] by (auto simp: limit_of_def)
qed

text \<open>
  C14. Trades are numbered consecutively from the engine's counter, which ends one past the
  last trade; and the event sink sees, in this order, one acceptance and then exactly the
  trades of the response, with cancellations in between only under \<open>CancelResting\<close>.
\<close>

theorem trade_sequence_and_log:
  assumes "engine_ok e" and "submit Retained e ord = Some (resp, e')" and "status resp = Accepted"
  shows "map trade_sequence (trades resp) = map (seq_from (next_trade_sequence e)) [0..<length (trades resp)] \<and>
    next_trade_sequence e' = seq_from (next_trade_sequence e) (length (trades resp)) \<and>
    (\<exists>evs. sink e' = sink e @ on_order_accepted (accepted_of ord) # evs \<and>
      logged_trades evs = trades resp \<and> (logged_cancels evs \<noteq> [] \<longrightarrow> stp_cancel_resting e))"
proof -
  let ?S = "sp_accept (new_order_owner ord) (accepted_of ord) (spec_of e)"
  obtain S1 where m: "spec_match (incoming_of ord) (new_order_quantity ord) [] ?S = (remaining_qty resp, trades resp, S1)"
    and e': "spec_of e' = S1 \<or> (\<exists>lo. ord = NewLimit lo \<and>
      spec_of e' = sp_rest (rest_order lo (remaining_qty resp) (sp_next_seq S1)) S1)"
    by (rule submit_accepted [OF assms]) (rule that)
  have sq: "next_trade_sequence e' = sp_next_trade S1" and lg: "sink e' = sp_log S1"
    using e' by (auto simp: sp_rest_def dest: arg_cong [of _ _ sp_next_trade] arg_cong [of _ _ sp_log])
  obtain evs where evs: "sp_log S1 = sp_log ?S @ evs" "logged_trades evs = trades resp"
    "\<forall>c \<in> set (logged_cancels evs). sp_cancel_resting ?S"
    using spec_match_log [OF m] by auto
  have "stp_cancel_resting e" if ne: "logged_cancels evs \<noteq> []"
  proof -
    obtain c where "c \<in> set (logged_cancels evs)" using ne by (cases "logged_cancels evs") auto
    then show ?thesis using evs(3) by (auto simp: stp_cancel_resting_def sp_cancel_resting_def)
  qed
  then show ?thesis
    using spec_match_sequence [OF m] evs(1,2) by (auto simp: sq lg)
qed

theorem trade_sequence_and_log_witness:
  "\<exists>resp e'. submit Retained demo demo_buy = Some (resp, e') \<and>
     map trade_sequence (trades resp) = map (seq_from (next_trade_sequence demo)) [0..<length (trades resp)] \<and>
     trades resp \<noteq> []"
proof -
  obtain resp e' where r: "submit Retained demo demo_buy = Some (resp, e')" "status resp = Accepted"
    "map (\<lambda>t. (t_price t, t_quantity t)) (trades resp) = [(Price 100, Quantity 5), (Price 101, Quantity 2)]"
    by (rule demo_buy_run) (rule that)
  have "trades resp \<noteq> []" using r(3) by auto
  then show ?thesis using trade_sequence_and_log [OF demo_ok r(1,2)] r(1) by blast
qed

end
