(* ===== verification/Risk_Engine.thy ===== *)
theory Risk_Engine
  imports Complex_Main "HOL-Library.Signed_Division" Engine_Properties
begin

text \<open>
  \<^verbatim>\<open>src/risk\<close>: the pre-trade checks, a decorator of the \<open>EngineAPI\<close> port. The wrapped engine
  is an argument, with what the decorator relies on of it as a locale; the matching engine
  is its interpretation. \<open>double\<close> values are the rationals they denote, with the rounding of
  the conversion and of the product written out. \<open>None\<close> is undefined behaviour: a signed
  overflow, or \<open>llround\<close> of a value outside \<open>int64_t\<close>.
\<close>

section \<open>Floating point\<close>

text \<open>The number of binary digits, and the binary exponent of a positive rational.\<close>

fun bit_length :: "nat \<Rightarrow> nat" where
  "bit_length n = (if n = 0 then 0 else Suc (bit_length (n div 2)))"

declare bit_length.simps [simp del]

definition pow2 :: "int \<Rightarrow> rat" where
  "pow2 k = (if 0 \<le> k then 2 ^ nat k else 1 / 2 ^ nat (- k))"

definition binary_exponent :: "rat \<Rightarrow> int" where
  "binary_exponent x =
     (let (n, d) = quotient_of x;
          k = int (bit_length (nat n)) - int (bit_length (nat d))
      in if pow2 k \<le> x then k else k - 1)"

text \<open>Round to an integer, ties to even.\<close>

definition round_even :: "rat \<Rightarrow> int" where
  "round_even x =
     (let f = floor x; r = x - of_int f
      in if r < 1/2 then f else if r > 1/2 then f + 1 else if even f then f else f + 1)"

text \<open>
  Round to the nearest value with a 53-bit significand: the rounding of \<open>double\<close> in its
  normal range.
\<close>

definition to_double :: "rat \<Rightarrow> rat" where
  "to_double x =
     (if x = 0 then 0
      else let e = binary_exponent \<bar>x\<bar> - 52
           in of_int (round_even (x / pow2 e)) * pow2 e)"

text \<open>\<open>std::llround\<close>: ties away from zero; outside \<open>int64_t\<close> the value is unspecified.\<close>

definition llround :: "rat \<Rightarrow> int option" where
  "llround x =
     (let r = (if 0 \<le> x then floor (x + 1/2) else - floor (1/2 - x))
      in if - (2 ^ 63) \<le> r \<and> r < 2 ^ 63 then Some r else None)"


section \<open>Configuration and checks\<close>

record RiskConfig =
  price_band_pct :: rat
  initial_reference_price :: Price
  max_order_qty :: Quantity
  tick_size :: Price
  stp_enabled :: bool
  stp_policy :: StpPolicy

definition risk_stp :: "RiskConfig \<Rightarrow> StpConfig" where
  "risk_stp cfg = \<lparr>enabled = stp_enabled cfg, policy = stp_policy cfg\<rparr>"

record 'e RiskEngine =
  inner :: 'e
  config :: RiskConfig
  reference_price :: Price

definition RiskEngine_init :: "'e \<Rightarrow> RiskConfig \<Rightarrow> 'e RiskEngine" where
  "RiskEngine_init e cfg = \<lparr>inner = e, config = cfg, reference_price = initial_reference_price cfg\<rparr>"

definition check_fat_finger :: "'e RiskEngine \<Rightarrow> Quantity \<Rightarrow> EngineResult" where
  "check_fat_finger R qty = (if qty > max_order_qty (config R) then QuantityTooLarge else Accepted)"

definition check_tick_size :: "'e RiskEngine \<Rightarrow> Price \<Rightarrow> EngineResult" where
  "check_tick_size R price =
     (if price_int (tick_size (config R)) \<le> 0 then Accepted
      else if price_int price smod price_int (tick_size (config R)) \<noteq> 0 then TickSizeMisaligned
      else Accepted)"

text \<open>\<open>price.value - reference_price_.value\<close> and \<open>std::abs\<close> on \<open>int64_t\<close>.\<close>

definition sub_i64 :: "int \<Rightarrow> int \<Rightarrow> int option" where
  "sub_i64 a b = (if - (2 ^ 63) \<le> a - b \<and> a - b < 2 ^ 63 then Some (a - b) else None)"

definition abs_i64 :: "int \<Rightarrow> int option" where
  "abs_i64 a = (if a = - (2 ^ 63) then None else Some \<bar>a\<bar>)"

definition check_price_band :: "'e RiskEngine \<Rightarrow> Price \<Rightarrow> EngineResult option" where
  "check_price_band R price =
     (if price_band_pct (config R) \<le> 0 \<or> price_int (reference_price R) \<le> 0 then Some Accepted
      else do {
        let allowance_f = to_double (to_double (of_int (price_int (reference_price R))) * price_band_pct (config R));
        allowance \<leftarrow> llround allowance_f;
        diff \<leftarrow> sub_i64 (price_int price) (price_int (reference_price R));
        deviation \<leftarrow> abs_i64 diff;
        Some (if deviation > allowance then PriceOutOfBand else Accepted)
      })"

definition run_checks :: "'e RiskEngine \<Rightarrow> Quantity \<Rightarrow> Price option \<Rightarrow> EngineResult option" where
  "run_checks R qty price =
     (let r = check_fat_finger R qty in
      if r \<noteq> Accepted then Some r
      else case price of
        None \<Rightarrow> Some Accepted
      | Some p \<Rightarrow>
          (let r = check_tick_size R p in
           if r \<noteq> Accepted then Some r
           else do {
             r \<leftarrow> check_price_band R p;
             if r \<noteq> Accepted then Some r else Some Accepted
           }))"

definition update_reference_from :: "'e RiskEngine \<Rightarrow> EngineResponse \<Rightarrow> 'e RiskEngine" where
  "update_reference_from R resp =
     (if trades resp \<noteq> [] then R\<lparr>reference_price := t_price (last (trades resp))\<rparr> else R)"

type_synonym 'e submit_fn = "'e \<Rightarrow> NewOrder \<Rightarrow> (EngineResponse \<times> 'e) option"
type_synonym 'e cancel_fn = "'e \<Rightarrow> OrderId \<Rightarrow> (EngineResponse \<times> 'e) option"

fun order_price :: "NewOrder \<Rightarrow> Price option" where
  "order_price (NewLimit lo) = Some (lo_price lo)"
| "order_price (NewMarket mo) = None"

definition risk_submit :: "'e submit_fn \<Rightarrow> 'e RiskEngine \<Rightarrow> NewOrder \<Rightarrow> (EngineResponse \<times> 'e RiskEngine) option" where
  "risk_submit inner_submit R order = do {
     check \<leftarrow> run_checks R (new_order_quantity order) (order_price order);
     if check \<noteq> Accepted then
       Some (\<lparr>status = check, trades = [], remaining_qty = 0, r_order_id = new_order_id order\<rparr>, R)
     else do {
       (response, e) \<leftarrow> inner_submit (inner R) order;
       Some (response, update_reference_from (R\<lparr>inner := e\<rparr>) response)
     }
   }"

definition risk_cancel :: "'e cancel_fn \<Rightarrow> 'e RiskEngine \<Rightarrow> OrderId \<Rightarrow> (EngineResponse \<times> 'e RiskEngine) option" where
  "risk_cancel inner_cancel R i = do {
     (response, e) \<leftarrow> inner_cancel (inner R) i;
     Some (response, R\<lparr>inner := e\<rparr>)
   }"


section \<open>What rounding can do\<close>

lemma bit_length_bounds:
  assumes "0 < n"
  shows "n < 2 ^ bit_length n" and "2 ^ bit_length n \<le> 2 * n"
proof -
  have "n < 2 ^ bit_length n \<and> 2 ^ bit_length n \<le> 2 * n"
    using assms
  proof (induction n rule: bit_length.induct)
    case (1 n)
    show ?case
    proof (cases "n div 2 = 0")
      case True
      then have "n = 1" using 1(2) by auto
      then show ?thesis by (simp add: bit_length.simps)
    next
      case False
      then have "n div 2 < 2 ^ bit_length (n div 2)" "2 ^ bit_length (n div 2) \<le> 2 * (n div 2)"
        using 1 by auto
      moreover have "(2 :: nat) ^ bit_length n = 2 * 2 ^ bit_length (n div 2)"
        using 1(2) by (subst bit_length.simps) simp
      ultimately show ?thesis by (intro conjI; linarith)
    qed
  qed
  then show "n < 2 ^ bit_length n" and "2 ^ bit_length n \<le> 2 * n" by auto
qed

lemma pow2_pos [simp]: "0 < pow2 k"
  by (simp add: pow2_def)

lemma pow2_Suc: "pow2 (k + 1) = 2 * pow2 k"
proof (cases "0 \<le> k")
  case True
  then show ?thesis by (simp add: pow2_def nat_add_distrib)
next
  case False
  show ?thesis
  proof (cases "k = - 1")
    case True
    then show ?thesis by (simp add: pow2_def)
  next
    case neq: False
    then have "nat (- k) = Suc (nat (- (k + 1)))" using False by simp
    then show ?thesis using False neq by (simp add: pow2_def)
  qed
qed

lemma pow2_nat: "pow2 (int n) = 2 ^ n"
  by (simp add: pow2_def)

lemma pow2_add_nat: "pow2 (k + int n) = 2 ^ n * pow2 k"
proof (induction n)
  case (Suc n)
  have "pow2 (k + int (Suc n)) = pow2 ((k + int n) + 1)" by (simp add: algebra_simps)
  then show ?case using Suc by (simp add: pow2_Suc)
qed simp

lemma binary_exponent_le:
  assumes "0 < x"
  shows "pow2 (binary_exponent x) \<le> x"
proof -
  obtain n d where q: "quotient_of x = (n, d)" by (cases "quotient_of x")
  have d: "0 < d" and x: "x = of_int n / of_int d"
    using quotient_of_denom_pos [OF q] quotient_of_div [OF q] by auto
  then have n: "0 < n" using assms by (simp add: zero_less_divide_iff)
  let ?a = "bit_length (nat n)" and ?b = "bit_length (nat d)"
  let ?k = "int ?a - int ?b"
  have "pow2 (?k - 1) \<le> x"
  proof -
    have "(2 :: nat) ^ ?a \<le> 2 * nat n" and "nat d < 2 ^ ?b"
      using bit_length_bounds(2) [of "nat n"] bit_length_bounds(1) [of "nat d"] n d by simp_all
    then have "of_nat (2 ^ ?a) \<le> (of_nat (2 * nat n) :: rat)" and "of_nat (nat d) < (of_nat (2 ^ ?b) :: rat)"
      by (simp_all only: of_nat_le_iff of_nat_less_iff)
    then have le: "(2 :: rat) ^ ?a \<le> 2 * of_int n" and lt: "(of_int d :: rat) < 2 ^ ?b"
      using n d by simp_all
    have "2 * 2 ^ ?b * pow2 (?k - 1) = 2 ^ ?a"
      using pow2_add_nat [of "?k - 1" "Suc ?b"] pow2_nat [of ?a] by (simp add: algebra_simps)
    then have "pow2 (?k - 1) * 2 ^ ?b \<le> of_int n"
      using le by (simp add: algebra_simps)
    moreover have "pow2 (?k - 1) * of_int d \<le> pow2 (?k - 1) * 2 ^ ?b"
      using lt by (intro mult_left_mono) (simp_all add: less_imp_le)
    ultimately have "pow2 (?k - 1) * of_int d \<le> of_int n" by (rule order_trans [rotated])
    then show ?thesis
      using d unfolding x by (simp add: pos_le_divide_eq)
  qed
  then show ?thesis by (simp add: binary_exponent_def q Let_def)
qed

lemma round_even_le: "of_int (round_even x) \<le> x + 1/2"
  by (auto simp: round_even_def Let_def; linarith)

lemma round_even_ge: "x - 1/2 \<le> of_int (round_even x)"
  by (auto simp: round_even_def Let_def; linarith)

text \<open>Rounding a positive value at most doubles it, and keeps it nonnegative.\<close>

lemma to_double_le:
  assumes "0 < x"
  shows "to_double x \<le> 2 * x" and "0 \<le> to_double x"
proof -
  let ?e = "binary_exponent x - 52"
  have ex: "2 ^ 52 * pow2 ?e \<le> x"
    using binary_exponent_le [OF assms] pow2_add_nat [of ?e 52] by simp
  moreover have "1 * pow2 ?e \<le> 2 ^ 52 * pow2 ?e"
    by (rule mult_right_mono) (simp_all add: less_imp_le)
  ultimately have pe: "pow2 ?e \<le> x"
    unfolding mult_1 by (rule order_trans [rotated])
  have td: "to_double x = of_int (round_even (x / pow2 ?e)) * pow2 ?e"
    using assms by (simp add: to_double_def Let_def)
  have "to_double x \<le> (x / pow2 ?e + 1/2) * pow2 ?e"
    unfolding td by (intro mult_right_mono round_even_le) (simp add: less_imp_le)
  also have "\<dots> = x + pow2 ?e / 2"
    by (simp add: distrib_right less_imp_neq [OF pow2_pos, symmetric])
  also have "\<dots> \<le> 2 * x" using pe assms by linarith
  finally show "to_double x \<le> 2 * x" .
  have "1 \<le> x / pow2 ?e" using pe by (simp add: pos_le_divide_eq)
  then have "0 \<le> round_even (x / pow2 ?e)"
    using round_even_ge [of "x / pow2 ?e"] by linarith
  then show "0 \<le> to_double x"
    unfolding td by (simp add: less_imp_le)
qed

lemma round_even_int [simp]: "round_even (of_int n) = n"
  by (simp add: round_even_def)

lemma llround_defined:
  assumes "0 \<le> x" and "x \<le> 2 ^ 62"
  shows "\<exists>a. llround x = Some a \<and> 0 \<le> a"
proof -
  have "0 \<le> floor (x + 1/2)" and "floor (x + 1/2) < 2 ^ 63"
    using assms by (simp_all add: zero_le_floor floor_less_iff)
  then show ?thesis using assms by (simp add: llround_def Let_def)
qed


lemma bit_length_le:
  assumes "n < 2 ^ k"
  shows "bit_length n \<le> k"
proof (cases "n = 0")
  case False
  then have "(2 :: nat) ^ bit_length n \<le> 2 * n" by (intro bit_length_bounds) simp
  also have "\<dots> < 2 ^ Suc k" using assms by simp
  finally show ?thesis using power_less_imp_less_exp [of "2 :: nat" "bit_length n" "Suc k"] by simp
qed (simp add: bit_length.simps)

text \<open>Integers of at most 53 bits are their own double.\<close>

lemma to_double_int:
  assumes "0 \<le> n" and "n < 2 ^ 53"
  shows "to_double (of_int n) = of_int n"
proof (cases "n = 0")
  case False
  let ?e = "binary_exponent \<bar>of_int n\<bar> - 52"
  have "bit_length 1 = 1" by (simp add: bit_length.simps)
  moreover have "bit_length (nat n) \<le> 53" using assms by (intro bit_length_le) (simp add: nat_less_iff)
  ultimately have e: "?e \<le> 0" using assms(1) by (simp add: binary_exponent_def Let_def)
  then have p: "pow2 ?e = 1 / 2 ^ nat (- ?e)" by (auto simp: pow2_def)
  then have "of_int n / pow2 ?e = of_int (n * 2 ^ nat (- ?e))" by simp
  then have "round_even (of_int n / pow2 ?e) = n * 2 ^ nat (- ?e)" by (simp only: round_even_int)
  then show ?thesis using False by (simp add: to_double_def Let_def p)
qed (simp add: to_double_def)


section \<open>The decorator over any engine\<close>

text \<open>
  What the decorator relies on of the port it wraps: requests are answered and keep the
  engine's invariant, a rejection leaves the engine as it was and reports no trade, and
  trade prices are positive.
\<close>

locale engine_api =
  fixes sub :: "'e submit_fn" and can :: "'e cancel_fn" and inv :: "'e \<Rightarrow> bool"
  assumes sub_total: "inv e \<Longrightarrow> \<exists>resp e'. sub e ord = Some (resp, e') \<and> inv e'"
    and can_total: "inv e \<Longrightarrow> \<exists>resp e'. can e i = Some (resp, e') \<and> inv e'"
    and sub_rejected: "sub e ord = Some (resp, e') \<Longrightarrow> status resp \<noteq> Accepted \<Longrightarrow> e' = e \<and> trades resp = []"
    and sub_price: "inv e \<Longrightarrow> sub e ord = Some (resp, e') \<Longrightarrow> t \<in> set (trades resp) \<Longrightarrow> 0 < t_price t"
begin

lemma risk_rejected:
  assumes "risk_submit sub R ord = Some (resp, R')" and "status resp \<noteq> Accepted"
  shows "R' = R \<and> trades resp = []"
proof -
  obtain check where check: "run_checks R (new_order_quantity ord) (order_price ord) = Some check"
    using assms(1) by (auto simp: risk_submit_def elim: bind_SomeE)
  show ?thesis
  proof (cases "check = Accepted")
    case False
    then show ?thesis using assms(1) check by (auto simp: risk_submit_def)
  next
    case True
    then obtain e where e: "sub (inner R) ord = Some (resp, e)"
      "R' = update_reference_from (R\<lparr>inner := e\<rparr>) resp"
      using assms(1) check by (auto simp: risk_submit_def elim: bind_SomeE)
    have "e = inner R \<and> trades resp = []" using e(1) assms(2) by (rule sub_rejected)
    then show ?thesis using e(2) by (simp add: update_reference_from_def)
  qed
qed

lemma risk_submit_total:
  assumes "inv (inner R)" and "0 < reference_price R"
    and "run_checks R (new_order_quantity ord) (order_price ord) \<noteq> None"
  shows "\<exists>resp R'. risk_submit sub R ord = Some (resp, R') \<and> inv (inner R') \<and> 0 < reference_price R' \<and>
    config R' = config R"
proof -
  from assms(3) obtain check where check: "run_checks R (new_order_quantity ord) (order_price ord) = Some check"
    by blast
  show ?thesis
  proof (cases "check = Accepted")
    case False
    then show ?thesis using check assms by (simp add: risk_submit_def)
  next
    case True
    obtain resp e where e: "sub (inner R) ord = Some (resp, e)" "inv e"
      using sub_total [OF assms(1)] by blast
    have "0 < t_price (last (trades resp))" if "trades resp \<noteq> []"
      using sub_price [OF assms(1) e(1)] that by simp
    then show ?thesis
      using check True e assms(2) by (auto simp: risk_submit_def update_reference_from_def)
  qed
qed

lemma risk_cancel_total:
  assumes "inv (inner R)"
  shows "\<exists>resp R'. risk_cancel can R i = Some (resp, R') \<and> inv (inner R') \<and>
    reference_price R' = reference_price R \<and> config R' = config R"
  using can_total [OF assms, of i] by (auto simp: risk_cancel_def)

end


section \<open>The matching engine is such an engine\<close>

lemma submit_rejected_trades:
  assumes "submit fr e ord = Some (resp, e')" and "status resp \<noteq> Accepted"
  shows "e' = e \<and> trades resp = []"
proof -
  have e: "e' = e" and r: "resp = reject (status resp) (new_order_id ord)"
    using submit_rejected [OF assms] by auto
  have "trades (reject (status resp) (new_order_id ord)) = []"
    by (simp add: reject_def)
  with r have "trades resp = []" by (rule ssubst)
  with e show ?thesis by simp
qed

lemma trade_price_positive:
  assumes ok: "engine_ok e" and run: "submit Retained e ord = Some (resp, e')" and t: "t \<in> set (trades resp)"
  shows "0 < t_price t"
proof (cases "status resp = Accepted")
  case False
  then show ?thesis using submit_rejected_trades [OF run] t by simp
next
  case True
  let ?i = "incoming_of ord" and ?S = "sp_accept (new_order_owner ord) (accepted_of ord) (spec_of e)"
  obtain S1 where m: "spec_match ?i (new_order_quantity ord) [] ?S = (remaining_qty resp, trades resp, S1)"
    by (rule submit_accepted [OF ok run True]) (rule that)
  have sub: "set (eligible ?S ?i) \<subseteq> set (resting (book e) (opposite (new_order_side ord)))"
    by (auto simp: eligible_def)
  have "in_priority ?i (eligible ?S ?i) (remaining_qty resp) (trades resp)"
    using spec_match_priority [OF m] by simp
  then have "\<exists>x \<in> set (eligible ?S ?i). t_price t = o_price x"
    using t unfolding in_priority_def
    by (fastforce simp: takes_def takes_part_def list_all2_conv_all_nth in_set_conv_nth)
  then show ?thesis using sub engine_ok_resting(3) [OF ok] by force
qed

interpretation me: engine_api "submit Retained" cancel engine_ok
proof
  show "\<exists>resp e'. submit Retained e ord = Some (resp, e') \<and> engine_ok e'" if "engine_ok e" for e ord
    using submit_spec [OF that, of ord] by blast
  show "\<exists>resp e'. cancel e i = Some (resp, e') \<and> engine_ok e'" if "engine_ok e" for e i
    using cancel_spec [OF that, of i] by blast
  show "e' = e \<and> trades resp = []"
    if "submit Retained e ord = Some (resp, e')" "status resp \<noteq> Accepted" for e ord resp e'
    by (rule submit_rejected_trades [OF that])
  show "0 < t_price t" if "engine_ok e" "submit Retained e ord = Some (resp, e')" "t \<in> set (trades resp)"
    for e ord resp e' t
    by (rule trade_price_positive [OF that])
qed


section \<open>Properties\<close>

definition band_allowance :: "'e RiskEngine \<Rightarrow> int option" where
  "band_allowance R = llround (to_double (to_double (of_int (price_int (reference_price R))) * price_band_pct (config R)))"

lemma price_int_bounds: "- (2 ^ 63) \<le> price_int p" "price_int p < 2 ^ 63"
  using sint_greater_eq [of "price_value p"] sint_less [of "price_value p"] by (simp_all add: price_int_def)

lemma check_price_band_eval:
  assumes "0 < price_band_pct (config R)" and "0 < reference_price R" and "0 < p"
  shows "check_price_band R p = map_option (\<lambda>a.
    if \<bar>price_int p - price_int (reference_price R)\<bar> > a then PriceOutOfBand else Accepted) (band_allowance R)"
  using assms price_int_bounds [of p] price_int_bounds [of "reference_price R"]
  by (cases "band_allowance R")
    (auto simp: check_price_band_def band_allowance_def Let_def price_less_iff sub_i64_def abs_i64_def)

lemma band_allowance_defined:
  assumes "0 < price_band_pct (config R)" and "0 < reference_price R"
    and "of_int (price_int (reference_price R)) * price_band_pct (config R) \<le> 2 ^ 60"
  shows "\<exists>a. band_allowance R = Some a \<and> 0 \<le> a"
proof -
  let ?r = "of_int (price_int (reference_price R)) :: rat" and ?p = "price_band_pct (config R)"
  have r: "0 < ?r" using assms(2) by (simp add: price_less_iff)
  note d1 = to_double_le [OF r]
  show ?thesis
  proof (cases "to_double ?r = 0")
    case True
    then show ?thesis by (simp add: band_allowance_def to_double_def llround_def)
  next
    case False
    then have pos: "0 < to_double ?r * ?p" using d1(2) assms(1) by simp
    have "to_double (to_double ?r * ?p) \<le> 2 * (to_double ?r * ?p)"
      using to_double_le(1) [OF pos] .
    also have "\<dots> \<le> 2 * (2 * ?r * ?p)"
      using d1(1) assms(1) by (intro mult_left_mono mult_right_mono) simp_all
    also have "\<dots> \<le> 2 ^ 62" using assms(3) by (simp add: mult.commute)
    finally show ?thesis
      unfolding band_allowance_def using llround_defined to_double_le(2) [OF pos] by blast
  qed
qed


definition demo_risk_config :: RiskConfig where
  "demo_risk_config = \<lparr>price_band_pct = 1/10, initial_reference_price = Price 100, max_order_qty = Quantity 1000,
     tick_size = Price 5, stp_enabled = True, stp_policy = CancelResting\<rparr>"

definition demo_risk :: "MatchingEngine RiskEngine" where
  "demo_risk = RiskEngine_init demo demo_risk_config"

lemma demo_allowance: "band_allowance demo_risk = Some 10"
  by code_simp


text \<open>
  C16. A rejected order leaves no trace in the stack of decorator and engine, whether a
  pre-trade check or the engine rejected it: the decorator, its reference price and the
  engine are as before, and no trade is reported.
\<close>

theorem risk_reject_no_effect:
  assumes "risk_submit (submit Retained) R ord = Some (resp, R')" and "status resp \<noteq> Accepted"
  shows "R' = R \<and> trades resp = []"
  using assms by (rule me.risk_rejected)

theorem risk_reject_no_effect_witness:
  "\<exists>resp. risk_submit (submit Retained) demo_risk (limit_of 3 1 Buy 115 5) = Some (resp, demo_risk) \<and>
     status resp = PriceOutOfBand"
proof -
  have "map_option (\<lambda>(r, e). status r) (risk_submit (submit Retained) demo_risk (limit_of 3 1 Buy 115 5))
      = Some PriceOutOfBand"
    by code_simp
  then obtain resp R' where r: "risk_submit (submit Retained) demo_risk (limit_of 3 1 Buy 115 5) = Some (resp, R')"
    "status resp = PriceOutOfBand"
    by (cases "risk_submit (submit Retained) demo_risk (limit_of 3 1 Buy 115 5)") auto
  then show ?thesis using risk_reject_no_effect [OF r(1)] by auto
qed



text \<open>
  C18. The band check overflows on extreme prices: with a positive reference price, a limit
  price so low that \<open>price.value - reference_price_.value\<close> leaves \<open>int64_t\<close> (or is its
  minimum, which \<open>std::abs\<close> cannot negate) makes \<open>submit\<close> undefined, although the engine
  behind it would have answered \<open>InvalidPrice\<close>.
\<close>

theorem band_check_overflows:
  assumes "0 < price_band_pct (config R)" and "0 < reference_price R"
    and "check_fat_finger R (lo_quantity lo) = Accepted" and "check_tick_size R (lo_price lo) = Accepted"
    and "price_int (lo_price lo) - price_int (reference_price R) \<le> - (2 ^ 63)"
  shows "risk_submit f R (NewLimit lo) = None"
proof -
  have "Option.bind (sub_i64 (price_int (lo_price lo)) (price_int (reference_price R))) abs_i64 = None"
    using assms(5) by (auto simp: sub_i64_def abs_i64_def)
  then have "check_price_band R (lo_price lo) = None"
    using assms(1,2)
    by (cases "llround (to_double (to_double (of_int (price_int (reference_price R))) * price_band_pct (config R)))")
      (auto simp: check_price_band_def price_less_iff Let_def split: Option.bind_splits)
  then show ?thesis
    using assms(3,4) by (simp add: risk_submit_def run_checks_def Let_def)
qed

theorem band_check_overflows_witness:
  "risk_submit (submit Retained) demo_risk (NewLimit \<lparr>lo_id = OrderId 1, lo_side = Buy,
     lo_price = Price (- 9223372036854775805), lo_quantity = Quantity 1, lo_owner = ClientId 1\<rparr>) = None"
  by (rule band_check_overflows) (code_simp)+

end
