(* ===== verification/Spsc_Ring.thy ===== *)
theory Spsc_Ring
  imports Prelude
begin

text \<open>
  \<^verbatim>\<open>src/lockfree_queue/spsc_ring_buffer.hpp\<close> and the mutex-guarded baseline
  \<^verbatim>\<open>src/apps/benchmark/mutex_queue.hpp\<close>. The ring is modelled twice: as a sequential object,
  where an operation is one function, and as two threads whose atomic loads and stores
  interleave in any order. Indices are \<open>std::size_t\<close>, that is 64-bit words that wrap. Each
  index has one writer and is published with release and read with acquire, so every read of
  a slot happens after the write it sees: the interleaving of the five steps of an operation
  is the order the threads can observe.
\<close>

section \<open>The sequential object\<close>

record 'a ring =
  r_head :: u64
  r_tail :: u64
  r_slots :: "'a list"

definition ring_capacity :: "'a ring \<Rightarrow> nat" where
  "ring_capacity r = length (r_slots r)"

definition ring_init :: "nat \<Rightarrow> 'a \<Rightarrow> 'a ring" where
  "ring_init cap d = \<lparr>r_head = 0, r_tail = 0, r_slots = replicate cap d\<rparr>"

text \<open>\<open>i & mask_\<close>, where \<open>mask_ = Capacity - 1\<close>.\<close>

definition slot_of :: "nat \<Rightarrow> u64 \<Rightarrow> nat" where
  "slot_of cap i = unat (and i (of_nat cap - 1))"

definition ring_full :: "nat \<Rightarrow> u64 \<Rightarrow> u64 \<Rightarrow> bool" where
  "ring_full cap t h \<longleftrightarrow> of_nat cap \<le> t - h"

definition try_push :: "'a ring \<Rightarrow> 'a \<Rightarrow> bool \<times> 'a ring" where
  "try_push r item =
     (let t = r_tail r; h = r_head r
      in if ring_full (ring_capacity r) t h then (False, r)
         else (True, r\<lparr>r_slots := (r_slots r)[slot_of (ring_capacity r) t := item], r_tail := t + 1\<rparr>))"

definition try_pop :: "'a ring \<Rightarrow> 'a option \<times> 'a ring" where
  "try_pop r =
     (let h = r_head r; t = r_tail r
      in if h \<ge> t then (None, r)
         else (Some (r_slots r ! slot_of (ring_capacity r) h), r\<lparr>r_head := h + 1\<rparr>))"

definition ring_size :: "'a ring \<Rightarrow> u64" where
  "ring_size r = r_tail r - r_head r"

definition ring_empty :: "'a ring \<Rightarrow> bool" where
  "ring_empty r \<longleftrightarrow> ring_size r = 0"

text \<open>The mutex-guarded queue of the benchmark: a \<open>std::deque\<close> and the capacity.\<close>

record 'a MutexQueue =
  mq_capacity :: nat
  mq_queue :: "'a list"

definition mutex_init :: "nat \<Rightarrow> 'a MutexQueue" where
  "mutex_init cap = \<lparr>mq_capacity = cap, mq_queue = []\<rparr>"

definition mutex_push :: "'a MutexQueue \<Rightarrow> 'a \<Rightarrow> bool \<times> 'a MutexQueue" where
  "mutex_push q item =
     (if length (mq_queue q) \<ge> mq_capacity q then (False, q)
      else (True, q\<lparr>mq_queue := mq_queue q @ [item]\<rparr>))"

definition mutex_pop :: "'a MutexQueue \<Rightarrow> 'a option \<times> 'a MutexQueue" where
  "mutex_pop q =
     (case mq_queue q of
        [] \<Rightarrow> (None, q)
      | x # xs \<Rightarrow> (Some x, q\<lparr>mq_queue := xs\<rparr>))"

definition mutex_size :: "'a MutexQueue \<Rightarrow> nat" where
  "mutex_size q = length (mq_queue q)"

definition mutex_empty :: "'a MutexQueue \<Rightarrow> bool" where
  "mutex_empty q \<longleftrightarrow> mq_queue q = []"


section \<open>The two threads\<close>

text \<open>
  Where a thread is inside its operation, with the local variables it has loaded: before the
  operation, after the first load, after the second load, after the slot access.
\<close>

datatype 'a producer =
    PIdle
  | PTail 'a u64
  | PHead 'a u64 u64
  | PStored 'a u64

datatype 'a consumer =
    CIdle
  | CHead u64
  | CTail u64 u64
  | CRead 'a u64

record 'a threads =
  shared :: "'a ring"
  prod :: "'a producer"
  cons :: "'a consumer"

datatype 'a label = Tau | Pushed 'a | PushFull | Popped 'a | PopEmpty

inductive ring_step :: "'a threads \<Rightarrow> 'a label \<Rightarrow> 'a threads \<Rightarrow> bool" where
  push_load_tail: "prod s = PIdle \<Longrightarrow>
     ring_step s Tau (s\<lparr>prod := PTail item (r_tail (shared s))\<rparr>)"
| push_load_head: "prod s = PTail item t \<Longrightarrow>
     ring_step s Tau (s\<lparr>prod := PHead item t (r_head (shared s))\<rparr>)"
| push_full: "prod s = PHead item t h \<Longrightarrow> ring_full (ring_capacity (shared s)) t h \<Longrightarrow>
     ring_step s PushFull (s\<lparr>prod := PIdle\<rparr>)"
| push_store: "prod s = PHead item t h \<Longrightarrow> \<not> ring_full (ring_capacity (shared s)) t h \<Longrightarrow>
     ring_step s Tau (s\<lparr>prod := PStored item t,
       shared := (shared s)\<lparr>r_slots := (r_slots (shared s))[slot_of (ring_capacity (shared s)) t := item]\<rparr>\<rparr>)"
| push_publish: "prod s = PStored item t \<Longrightarrow>
     ring_step s (Pushed item) (s\<lparr>prod := PIdle, shared := (shared s)\<lparr>r_tail := t + 1\<rparr>\<rparr>)"
| pop_load_head: "cons s = CIdle \<Longrightarrow>
     ring_step s Tau (s\<lparr>cons := CHead (r_head (shared s))\<rparr>)"
| pop_load_tail: "cons s = CHead h \<Longrightarrow>
     ring_step s Tau (s\<lparr>cons := CTail h (r_tail (shared s))\<rparr>)"
| pop_empty: "cons s = CTail h t \<Longrightarrow> h \<ge> t \<Longrightarrow>
     ring_step s PopEmpty (s\<lparr>cons := CIdle\<rparr>)"
| pop_read: "cons s = CTail h t \<Longrightarrow> \<not> h \<ge> t \<Longrightarrow>
     ring_step s Tau (s\<lparr>cons := CRead (r_slots (shared s) ! slot_of (ring_capacity (shared s)) h) h\<rparr>)"
| pop_publish: "cons s = CRead out h \<Longrightarrow>
     ring_step s (Popped out) (s\<lparr>cons := CIdle, shared := (shared s)\<lparr>r_head := h + 1\<rparr>\<rparr>)"

inductive ring_run :: "'a threads \<Rightarrow> 'a label list \<Rightarrow> 'a threads \<Rightarrow> bool" where
  run_start: "ring_run s [] s"
| run_step: "ring_run s ls s' \<Longrightarrow> ring_step s' l s'' \<Longrightarrow> ring_run s (ls @ [l]) s''"

definition threads_init :: "nat \<Rightarrow> 'a \<Rightarrow> 'a threads" where
  "threads_init cap d = \<lparr>shared = ring_init cap d, prod = PIdle, cons = CIdle\<rparr>"

fun pushed_by :: "'a label \<Rightarrow> 'a list" where
  "pushed_by (Pushed x) = [x]"
| "pushed_by _ = []"

fun popped_by :: "'a label \<Rightarrow> 'a list" where
  "popped_by (Popped x) = [x]"
| "popped_by _ = []"

definition pushes :: "'a label list \<Rightarrow> 'a list" where
  "pushes ls = concat (map pushed_by ls)"

definition pops :: "'a label list \<Rightarrow> 'a list" where
  "pops ls = concat (map popped_by ls)"


section \<open>Contents and invariant\<close>

text \<open>What the ring holds, oldest first: the slots between the two indices.\<close>

definition content :: "'a ring \<Rightarrow> 'a list" where
  "content r = map (\<lambda>i. r_slots r ! (i mod ring_capacity r)) [unat (r_head r)..<unat (r_tail r)]"

definition pow2_capacity :: "nat \<Rightarrow> bool" where
  "pow2_capacity cap \<longleftrightarrow> (\<exists>k < 64. cap = 2 ^ k)"

definition ring_ok :: "'a ring \<Rightarrow> bool" where
  "ring_ok r \<longleftrightarrow> pow2_capacity (ring_capacity r) \<and> r_head r \<le> r_tail r \<and>
     unat (r_tail r) - unat (r_head r) \<le> ring_capacity r"

text \<open>What each thread knows while it is inside its operation.\<close>

fun producer_ok :: "'a ring \<Rightarrow> 'a producer \<Rightarrow> bool" where
  "producer_ok r PIdle \<longleftrightarrow> True"
| "producer_ok r (PTail item t) \<longleftrightarrow> t = r_tail r"
| "producer_ok r (PHead item t h) \<longleftrightarrow> t = r_tail r \<and> h \<le> r_head r"
| "producer_ok r (PStored item t) \<longleftrightarrow> t = r_tail r \<and>
     unat (r_tail r) - unat (r_head r) < ring_capacity r \<and>
     r_slots r ! (unat (r_tail r) mod ring_capacity r) = item"

fun consumer_ok :: "'a ring \<Rightarrow> 'a consumer \<Rightarrow> bool" where
  "consumer_ok r CIdle \<longleftrightarrow> True"
| "consumer_ok r (CHead h) \<longleftrightarrow> h = r_head r"
| "consumer_ok r (CTail h t) \<longleftrightarrow> h = r_head r \<and> t \<le> r_tail r"
| "consumer_ok r (CRead out h) \<longleftrightarrow> h = r_head r \<and> r_head r < r_tail r \<and>
     r_slots r ! (unat (r_head r) mod ring_capacity r) = out"

definition threads_ok :: "'a threads \<Rightarrow> bool" where
  "threads_ok s \<longleftrightarrow> ring_ok (shared s) \<and> producer_ok (shared s) (prod s) \<and> consumer_ok (shared s) (cons s)"


section \<open>Index arithmetic\<close>

lemma slot_of_mod:
  assumes "pow2_capacity cap"
  shows "slot_of cap i = unat i mod cap"
proof -
  obtain k where k: "k < 64" "cap = 2 ^ k" using assms by (auto simp: pow2_capacity_def)
  have "slot_of cap i = unat (and i (mask k))"
    by (simp add: slot_of_def k(2) mask_eq_exp_minus_1)
  also have "\<dots> = take_bit k (unat i)"
    by (simp add: take_bit_eq_mask [symmetric] unsigned_take_bit_eq)
  finally show ?thesis by (simp add: take_bit_eq_mod k(2))
qed

lemma pow2_capacity_bounds:
  assumes "pow2_capacity cap"
  shows "0 < cap" and "cap < 2 ^ 64"
proof -
  obtain k where k: "k < 64" "cap = 2 ^ k" using assms by (auto simp: pow2_capacity_def)
  then show "0 < cap" by simp
  show "cap < 2 ^ 64" unfolding k(2) using k(1) by (rule power_strict_increasing) simp
qed

lemma ring_full_iff:
  assumes "pow2_capacity cap" and "h \<le> t"
  shows "ring_full cap t h \<longleftrightarrow> cap \<le> unat t - unat h"
  using pow2_capacity_bounds [OF assms(1)] assms(2)
  by (simp add: ring_full_def word_le_nat_alt unat_of_nat take_bit_eq_mod unat_sub)

lemma mod_neq_within:
  fixes i j c :: nat
  assumes "i < j" and "j - i < c"
  shows "i mod c \<noteq> j mod c"
proof
  assume "i mod c = j mod c"
  then have "c dvd j - i" using assms(1) by (metis less_imp_le mod_eq_dvd_iff_nat)
  then show False using assms by (auto dest: dvd_imp_le)
qed


section \<open>What the steps do to the contents\<close>

lemma content_store:
  assumes "ring_ok r" and "unat (r_tail r) - unat (r_head r) < ring_capacity r"
  shows "content (r\<lparr>r_slots := (r_slots r)[unat (r_tail r) mod ring_capacity r := x]\<rparr>) = content r"
proof -
  have "i mod length (r_slots r) \<noteq> unat (r_tail r) mod length (r_slots r)"
    if "unat (r_head r) \<le> i" "i < unat (r_tail r)" for i
    using mod_neq_within [of i "unat (r_tail r)" "ring_capacity r"] that assms(2)
    by (simp add: ring_capacity_def)
  then have "unat (r_tail r) mod length (r_slots r) \<noteq> i mod length (r_slots r)"
    if "unat (r_head r) \<le> i" "i < unat (r_tail r)" for i
    using that by metis
  then show ?thesis by (simp add: content_def ring_capacity_def)
qed

lemma content_publish:
  assumes "ring_ok r" and "r_tail r \<noteq> - 1"
  shows "content (r\<lparr>r_tail := r_tail r + 1\<rparr>) = content r @ [r_slots r ! (unat (r_tail r) mod ring_capacity r)]"
  using assms by (simp add: content_def ring_capacity_def unat_Suc_word ring_ok_def word_le_nat_alt)

lemma content_take:
  assumes "r_head r < r_tail r"
  shows "content r = r_slots r ! (unat (r_head r) mod ring_capacity r) # content (r\<lparr>r_head := r_head r + 1\<rparr>)"
proof -
  have "r_head r \<noteq> - 1" using assms by (metis word_n1_ge not_le)
  moreover have "unat (r_head r) < unat (r_tail r)" using assms by (simp add: word_less_nat_alt)
  ultimately show ?thesis
    by (simp add: content_def ring_capacity_def unat_Suc_word upt_conv_Cons)
qed

lemma length_content [simp]: "length (content r) = unat (r_tail r) - unat (r_head r)"
  by (simp add: content_def)


section \<open>The threads keep the invariant\<close>

lemmas ring_ok_simps = ring_ok_def ring_capacity_def word_le_nat_alt word_less_nat_alt

lemma ring_step_ok:
  assumes "ring_step s l s'" and "threads_ok s" and "pushed_by l \<noteq> [] \<Longrightarrow> r_tail (shared s) \<noteq> - 1"
  shows "threads_ok s' \<and> popped_by l @ content (shared s') = content (shared s) @ pushed_by l \<and>
    ring_capacity (shared s') = ring_capacity (shared s) \<and>
    unat (r_tail (shared s')) = unat (r_tail (shared s)) + length (pushed_by l)"
  using assms
proof (induction rule: ring_step.induct)
  case (push_store s item t h)
  let ?r = "shared s"
  have ok: "ring_ok ?r" and t: "t = r_tail ?r" and h: "h \<le> r_head ?r"
    using push_store by (auto simp: threads_ok_def)
  have cap: "pow2_capacity (ring_capacity ?r)" and ht: "r_head ?r \<le> r_tail ?r"
    using ok by (auto simp: ring_ok_def)
  have "unat t - unat h < ring_capacity ?r"
    using push_store(2) ring_full_iff [OF cap, of h t] h ht t by (simp add: word_le_nat_alt)
  then have room: "unat (r_tail ?r) - unat (r_head ?r) < ring_capacity ?r"
    using h t by (simp add: word_le_nat_alt)
  let ?r' = "?r\<lparr>r_slots := (r_slots ?r)[unat t mod ring_capacity ?r := item]\<rparr>"
  have "consumer_ok ?r' (cons s)"
  proof (cases "cons s")
    case (CRead out h')
    then have "unat (r_head ?r) mod ring_capacity ?r \<noteq> unat (r_tail ?r) mod ring_capacity ?r"
      using push_store(3) room
      by (intro mod_neq_within) (auto simp: threads_ok_def word_less_nat_alt)
    then show ?thesis
      using CRead push_store(3) t by (auto simp: threads_ok_def ring_capacity_def)
  qed (use push_store(3) in \<open>auto simp: threads_ok_def ring_capacity_def\<close>)
  moreover have "producer_ok ?r' (PStored item t)"
    using room t pow2_capacity_bounds(1) [OF cap] by (simp add: ring_capacity_def)
  moreover have "ring_ok ?r'" using ok by (simp add: ring_ok_def ring_capacity_def)
  ultimately show ?case
    using content_store [OF ok room, of item] t slot_of_mod [OF cap, of t]
    by (simp add: threads_ok_def ring_capacity_def)
next
  case (push_publish s item t)
  let ?r = "shared s"
  have ok: "ring_ok ?r" and t: "t = r_tail ?r" and room: "unat t - unat (r_head ?r) < ring_capacity ?r"
    and item: "r_slots ?r ! (unat t mod ring_capacity ?r) = item" and nw: "t \<noteq> - 1"
    using push_publish by (auto simp: threads_ok_def)
  have u: "unat (t + 1) = Suc (unat t)" by (rule unat_Suc_word [OF nw])
  have "ring_ok (?r\<lparr>r_tail := t + 1\<rparr>)"
    using ok room u t by (auto simp: ring_ok_simps)
  moreover have "consumer_ok (?r\<lparr>r_tail := t + 1\<rparr>) (cons s)"
    using push_publish(2) u t by (cases "cons s") (auto simp: threads_ok_def ring_ok_simps)
  ultimately show ?case
    using content_publish [OF ok] nw t item u by (simp add: threads_ok_def ring_capacity_def)
next
  case (pop_read s h t)
  let ?r = "shared s"
  have "pow2_capacity (ring_capacity ?r)" using pop_read(3) by (simp add: threads_ok_def ring_ok_def)
  then show ?case
    using pop_read by (auto simp: threads_ok_def slot_of_mod not_le)
next
  case (pop_publish s out h)
  let ?r = "shared s"
  have ok: "ring_ok ?r" and h: "h = r_head ?r" and lt: "r_head ?r < r_tail ?r"
    and out: "r_slots ?r ! (unat (r_head ?r) mod ring_capacity ?r) = out"
    using pop_publish by (auto simp: threads_ok_def)
  have "h \<noteq> - 1" using lt h by (metis word_n1_ge not_le)
  then have u: "unat (h + 1) = Suc (unat h)" by (rule unat_Suc_word)
  have "ring_ok (?r\<lparr>r_head := h + 1\<rparr>)"
    using ok lt u h by (auto simp: ring_ok_simps)
  moreover have "producer_ok (?r\<lparr>r_head := h + 1\<rparr>) (prod s)"
    using pop_publish(2) u h by (cases "prod s") (auto simp: threads_ok_def ring_ok_simps)
  ultimately show ?case
    using content_take [OF lt] out h by (simp add: threads_ok_def ring_capacity_def)
qed (auto simp: threads_ok_def ring_ok_def)

lemma pushes_snoc [simp]: "pushes (ls @ [l]) = pushes ls @ pushed_by l"
  and pops_snoc [simp]: "pops (ls @ [l]) = pops ls @ popped_by l"
  and pushes_Nil [simp]: "pushes [] = []" and pops_Nil [simp]: "pops [] = []"
  by (simp_all add: pushes_def pops_def)

lemma threads_init_ok:
  assumes "pow2_capacity cap"
  shows "threads_ok (threads_init cap d)"
  using assms by (simp add: threads_ok_def threads_init_def ring_init_def ring_ok_def ring_capacity_def)

lemma ring_run_ok:
  assumes "ring_run s ls s'" and "s = threads_init cap d" and "pow2_capacity cap" and "length (pushes ls) < 2 ^ 64"
  shows "threads_ok s' \<and> pops ls @ content (shared s') = pushes ls \<and>
    ring_capacity (shared s') = cap \<and> unat (r_tail (shared s')) = length (pushes ls)"
  using assms
proof (induction rule: ring_run.induct)
  case (run_start s)
  then show ?case
    using threads_init_ok [of cap d]
    by (simp add: threads_init_def ring_init_def content_def ring_capacity_def)
next
  case (run_step s ls s' l s'')
  then have IH: "threads_ok s'" "pops ls @ content (shared s') = pushes ls"
    "ring_capacity (shared s') = cap" "unat (r_tail (shared s')) = length (pushes ls)"
    by auto
  have "r_tail (shared s') \<noteq> - 1" if "pushed_by l \<noteq> []"
  proof
    assume "r_tail (shared s') = - 1"
    then have "length (pushes ls) = 2 ^ 64 - 1" using IH(4) by (simp add: unsigned_minus_1_eq_mask mask_eq_exp_minus_1)
    moreover have "1 \<le> length (pushed_by l)" using that by (cases l) auto
    ultimately show False using run_step(6) by simp
  qed
  then have st: "threads_ok s''" "popped_by l @ content (shared s'') = content (shared s') @ pushed_by l"
    "ring_capacity (shared s'') = cap" "unat (r_tail (shared s'')) = length (pushes ls) + length (pushed_by l)"
    using ring_step_ok [OF run_step(2) IH(1)] IH by auto
  have "pops ls @ popped_by l @ content (shared s'') = pushes ls @ pushed_by l"
    unfolding st(2) append_assoc [symmetric] IH(2) ..
  then show ?case using st by simp
qed


section \<open>Bounded queues\<close>

text \<open>
  What a client of a queue relies on: a full queue refuses, a queue with room appends, an
  empty queue has nothing, a nonempty one gives its oldest item. \<open>ok n q\<close> says that the
  queue is well formed and good for \<open>n\<close> more pushes.
\<close>

datatype 'a queue_op = Push 'a | Pop

fun run_ops :: "('q \<Rightarrow> 'a \<Rightarrow> bool \<times> 'q) \<Rightarrow> ('q \<Rightarrow> 'a option \<times> 'q) \<Rightarrow> 'q \<Rightarrow> 'a queue_op list \<Rightarrow> 'a label list" where
  "run_ops push pop q [] = []"
| "run_ops push pop q (Push x # ops) =
     (case push q x of
        (True, q') \<Rightarrow> Pushed x # run_ops push pop q' ops
      | (False, q') \<Rightarrow> PushFull # run_ops push pop q' ops)"
| "run_ops push pop q (Pop # ops) =
     (case pop q of
        (Some x, q') \<Rightarrow> Popped x # run_ops push pop q' ops
      | (None, q') \<Rightarrow> PopEmpty # run_ops push pop q' ops)"

fun fifo_ops :: "nat \<Rightarrow> 'a list \<Rightarrow> 'a queue_op list \<Rightarrow> 'a label list" where
  "fifo_ops cap xs [] = []"
| "fifo_ops cap xs (Push x # ops) =
     (if length xs < cap then Pushed x # fifo_ops cap (xs @ [x]) ops else PushFull # fifo_ops cap xs ops)"
| "fifo_ops cap [] (Pop # ops) = PopEmpty # fifo_ops cap [] ops"
| "fifo_ops cap (x # xs) (Pop # ops) = Popped x # fifo_ops cap xs ops"

locale bounded_queue =
  fixes push :: "'q \<Rightarrow> 'a \<Rightarrow> bool \<times> 'q" and pop :: "'q \<Rightarrow> 'a option \<times> 'q"
    and items :: "'q \<Rightarrow> 'a list" and cap :: "'q \<Rightarrow> nat" and ok :: "nat \<Rightarrow> 'q \<Rightarrow> bool"
  assumes push_full: "ok n q \<Longrightarrow> cap q \<le> length (items q) \<Longrightarrow> push q x = (False, q)"
    and push_room: "ok (Suc n) q \<Longrightarrow> length (items q) < cap q \<Longrightarrow>
      \<exists>q'. push q x = (True, q') \<and> items q' = items q @ [x] \<and> cap q' = cap q \<and> ok n q'"
    and pop_empty: "ok n q \<Longrightarrow> items q = [] \<Longrightarrow> pop q = (None, q)"
    and pop_item: "ok n q \<Longrightarrow> items q = x # xs \<Longrightarrow>
      \<exists>q'. pop q = (Some x, q') \<and> items q' = xs \<and> cap q' = cap q \<and> ok n q'"
    and ok_less: "ok (Suc n) q \<Longrightarrow> ok n q"
begin

lemma run_ops_fifo:
  assumes "ok (length ops) q"
  shows "run_ops push pop q ops = fifo_ops (cap q) (items q) ops"
  using assms
proof (induction ops arbitrary: q)
  case (Cons op ops)
  then have ok: "ok (Suc (length ops)) q" and ok': "ok (length ops) q" by (auto intro: ok_less)
  show ?case
  proof (cases op)
    case (Push x)
    show ?thesis
    proof (cases "length (items q) < cap q")
      case True
      then show ?thesis using push_room [OF ok True, of x] Cons.IH Push by auto
    next
      case False
      then show ?thesis using push_full [OF ok', of x] Cons.IH [OF ok'] Push by simp
    qed
  next
    case Pop
    show ?thesis
    proof (cases "items q")
      case Nil
      then show ?thesis using pop_empty [OF ok' Nil] Cons.IH [OF ok'] Pop by simp
    next
      case (Cons x xs)
      then show ?thesis using pop_item [OF ok' Cons] Cons.IH Pop by auto
    qed
  qed
qed simp

end

interpretation mq: bounded_queue mutex_push mutex_pop mq_queue mq_capacity "\<lambda>n q. True"
  by unfold_locales (auto simp: mutex_push_def mutex_pop_def)

definition ring_budget :: "nat \<Rightarrow> 'a ring \<Rightarrow> bool" where
  "ring_budget n r \<longleftrightarrow> ring_ok r \<and> unat (r_tail r) + n < 2 ^ 64"

lemma try_push_room:
  assumes "ring_budget (Suc n) r" and "length (content r) < ring_capacity r"
  shows "\<exists>r'. try_push r x = (True, r') \<and> content r' = content r @ [x] \<and>
    ring_capacity r' = ring_capacity r \<and> ring_budget n r'"
proof -
  have ok: "ring_ok r" and b: "unat (r_tail r) + Suc n < 2 ^ 64"
    using assms(1) by (auto simp: ring_budget_def)
  have cap: "pow2_capacity (ring_capacity r)" and ht: "r_head r \<le> r_tail r"
    using ok by (auto simp: ring_ok_def)
  have nw: "r_tail r \<noteq> - 1"
    using b by (auto simp: unsigned_minus_1_eq_mask mask_eq_exp_minus_1)
  let ?r1 = "r\<lparr>r_slots := (r_slots r)[unat (r_tail r) mod ring_capacity r := x]\<rparr>"
  let ?r' = "?r1\<lparr>r_tail := r_tail r + 1\<rparr>"
  have ok1: "ring_ok ?r1" using ok by (simp add: ring_ok_def ring_capacity_def)
  have "content ?r1 = content r" using content_store [OF ok] assms(2) by simp
  then have "content ?r' = content r @ [x]"
    using content_publish [OF ok1] nw pow2_capacity_bounds(1) [OF cap] by (simp add: ring_capacity_def)
  moreover have "try_push r x = (True, ?r')"
    using assms(2) by (simp add: try_push_def ring_full_iff [OF cap ht] slot_of_mod [OF cap] Let_def)
  moreover have "ring_budget n ?r'"
    using ok b assms(2) unat_Suc_word [OF nw] by (auto simp: ring_budget_def ring_ok_simps)
  ultimately show ?thesis by (auto simp: ring_capacity_def)
qed

lemma try_pop_item:
  assumes "ring_budget n r" and "content r = x # xs"
  shows "\<exists>r'. try_pop r = (Some x, r') \<and> content r' = xs \<and> ring_capacity r' = ring_capacity r \<and> ring_budget n r'"
proof -
  have ok: "ring_ok r" using assms(1) by (simp add: ring_budget_def)
  have cap: "pow2_capacity (ring_capacity r)" using ok by (auto simp: ring_ok_def)
  have "0 < length (content r)" using assms(2) by simp
  then have lt: "r_head r < r_tail r" by (simp add: word_less_nat_alt)
  have u: "unat (r_head r + 1) = Suc (unat (r_head r))"
    using lt by (intro unat_Suc_word) (metis word_n1_ge not_le)
  have "try_pop r = (Some x, r\<lparr>r_head := r_head r + 1\<rparr>)"
    using lt content_take [OF lt] assms(2) by (simp add: try_pop_def slot_of_mod [OF cap] Let_def)
  moreover have "content (r\<lparr>r_head := r_head r + 1\<rparr>) = xs"
    using content_take [OF lt] assms(2) by simp
  moreover have "ring_budget n (r\<lparr>r_head := r_head r + 1\<rparr>)"
    using assms(1) lt u by (auto simp: ring_budget_def ring_ok_simps)
  ultimately show ?thesis by (auto simp: ring_capacity_def)
qed

interpretation rq: bounded_queue try_push try_pop content ring_capacity ring_budget
proof
  fix n and q :: "'a ring" and x
  assume "ring_budget n q" and "ring_capacity q \<le> length (content q)"
  then show "try_push q x = (False, q)"
    using ring_full_iff [of "ring_capacity q" "r_head q" "r_tail q"]
    by (simp add: try_push_def ring_budget_def ring_ok_def Let_def)
next
  fix n and q :: "'a ring"
  assume "ring_budget n q" and "content q = []"
  then show "try_pop q = (None, q)"
    by (auto simp: try_pop_def ring_budget_def ring_ok_def content_def word_le_nat_alt Let_def)
qed (rule try_push_room try_pop_item | simp add: ring_budget_def)+

lemma ring_init_budget: "pow2_capacity cap \<Longrightarrow> n < 2 ^ 64 \<Longrightarrow> ring_budget n (ring_init cap d)"
  by (simp add: ring_budget_def ring_ok_def ring_init_def ring_capacity_def)

lemma ring_init_content: "content (ring_init cap d) = []" "ring_capacity (ring_init cap d) = cap"
  by (simp_all add: content_def ring_init_def ring_capacity_def)

section \<open>Properties\<close>

text \<open>
  C19. The ring is a first-in-first-out queue under every interleaving of its two threads:
  as long as fewer than \<open>2 ^ 64\<close> items have been pushed, the items pushed are, in order, the
  items popped followed by the items still in the ring, and the ring holds at most its
  capacity.
\<close>

theorem ring_fifo:
  assumes "pow2_capacity cap" and "ring_run (threads_init cap d) ls s" and "length (pushes ls) < 2 ^ 64"
  shows "pushes ls = pops ls @ content (shared s) \<and> length (content (shared s)) \<le> cap"
proof -
  have "threads_ok s" "pops ls @ content (shared s) = pushes ls" "ring_capacity (shared s) = cap"
    using ring_run_ok [OF assms(2) refl assms(1,3)] by auto
  then show ?thesis by (auto simp: threads_ok_def ring_ok_def)
qed

text \<open>
  A schedule: at each turn the producer (with the item it pushes if it starts an operation)
  or the consumer takes one step.
\<close>

fun producer_turn :: "'a threads \<Rightarrow> 'a \<Rightarrow> 'a label \<times> 'a threads" where
  "producer_turn s x =
     (case prod s of
        PIdle \<Rightarrow> (Tau, s\<lparr>prod := PTail x (r_tail (shared s))\<rparr>)
      | PTail item t \<Rightarrow> (Tau, s\<lparr>prod := PHead item t (r_head (shared s))\<rparr>)
      | PHead item t h \<Rightarrow>
          (if ring_full (ring_capacity (shared s)) t h then (PushFull, s\<lparr>prod := PIdle\<rparr>)
           else (Tau, s\<lparr>prod := PStored item t, shared := (shared s)\<lparr>r_slots :=
             (r_slots (shared s))[slot_of (ring_capacity (shared s)) t := item]\<rparr>\<rparr>))
      | PStored item t \<Rightarrow> (Pushed item, s\<lparr>prod := PIdle, shared := (shared s)\<lparr>r_tail := t + 1\<rparr>\<rparr>))"

fun consumer_turn :: "'a threads \<Rightarrow> 'a label \<times> 'a threads" where
  "consumer_turn s =
     (case cons s of
        CIdle \<Rightarrow> (Tau, s\<lparr>cons := CHead (r_head (shared s))\<rparr>)
      | CHead h \<Rightarrow> (Tau, s\<lparr>cons := CTail h (r_tail (shared s))\<rparr>)
      | CTail h t \<Rightarrow>
          (if h \<ge> t then (PopEmpty, s\<lparr>cons := CIdle\<rparr>)
           else (Tau, s\<lparr>cons := CRead (r_slots (shared s) ! slot_of (ring_capacity (shared s)) h) h\<rparr>))
      | CRead out h \<Rightarrow> (Popped out, s\<lparr>cons := CIdle, shared := (shared s)\<lparr>r_head := h + 1\<rparr>\<rparr>))"

fun schedule :: "'a label list \<Rightarrow> 'a threads \<Rightarrow> 'a option list \<Rightarrow> 'a label list \<times> 'a threads" where
  "schedule ls s [] = (ls, s)"
| "schedule ls s (Some x # ts) = (let (l, s') = producer_turn s x in schedule (ls @ [l]) s' ts)"
| "schedule ls s (None # ts) = (let (l, s') = consumer_turn s in schedule (ls @ [l]) s' ts)"

lemma producer_turn_step: "ring_step s (fst (producer_turn s x)) (snd (producer_turn s x))"
  by (cases "prod s") (auto intro: ring_step.intros)

lemma consumer_turn_step: "ring_step s (fst (consumer_turn s)) (snd (consumer_turn s))"
  by (cases "cons s") (auto intro: ring_step.intros)

lemma schedule_run:
  assumes "ring_run s0 ls s"
  shows "ring_run s0 (fst (schedule ls s ts)) (snd (schedule ls s ts))"
  using assms
proof (induction ls s ts rule: schedule.induct)
  case (2 ls s x ts)
  obtain l s' where st: "producer_turn s x = (l, s')" by fastforce
  then have "ring_run s0 (ls @ [l]) s'"
    using run_step [OF 2(2) producer_turn_step [of s x]] by simp
  then show ?case using 2(1) [OF st [symmetric]] st by simp
next
  case (3 ls s ts)
  obtain l s' where st: "consumer_turn s = (l, s')" by fastforce
  then have "ring_run s0 (ls @ [l]) s'"
    using run_step [OF 3(2) consumer_turn_step [of s]] by simp
  then show ?case using 3(1) [OF st [symmetric]] st by simp
qed simp

text \<open>A ring of two slots whose consumer looks before the first item is published.\<close>

definition demo_turns :: "nat option list" where
  "demo_turns = [Some 7, None, Some 0, None, Some 0, Some 0, None, Some 8, Some 0, Some 0, Some 0,
     None, None, None, Some 9, Some 0, Some 0, None]"

definition demo_ring :: "nat label list \<times> nat threads" where
  "demo_ring = schedule [] (threads_init 2 0) demo_turns"

lemma demo_ring_run: "ring_run (threads_init 2 0) (fst demo_ring) (snd demo_ring)"
  unfolding demo_ring_def by (rule schedule_run [OF run_start])

lemma pow2_capacity_2: "pow2_capacity 2"
  unfolding pow2_capacity_def by (rule exI [of _ 1]) simp

theorem ring_fifo_witness:
  "pushes (fst demo_ring) = [7, 8] \<and> pops (fst demo_ring) = [7] \<and> content (shared (snd demo_ring)) = [8]"
proof -
  have p: "pushes (fst demo_ring) = [7, 8]" "pops (fst demo_ring) = [7]" by code_simp+
  have "pushes (fst demo_ring) = pops (fst demo_ring) @ content (shared (snd demo_ring)) \<and>
      length (content (shared (snd demo_ring))) \<le> 2"
    by (rule ring_fifo [OF pow2_capacity_2 demo_ring_run]) (simp add: p)
  with p show ?thesis by simp
qed

text \<open>The slot a thread accesses next.\<close>

definition about_to_write :: "'a threads \<Rightarrow> nat option" where
  "about_to_write s =
     (case prod s of
        PHead item t h \<Rightarrow> if ring_full (ring_capacity (shared s)) t h then None
          else Some (slot_of (ring_capacity (shared s)) t)
      | _ \<Rightarrow> None)"

definition about_to_read :: "'a threads \<Rightarrow> nat option" where
  "about_to_read s =
     (case cons s of
        CTail h t \<Rightarrow> if h \<ge> t then None else Some (slot_of (ring_capacity (shared s)) h)
      | _ \<Rightarrow> None)"

text \<open>
  C20. The slot accesses, which are not atomic, never race: the producer is never about to
  write the slot that the consumer is about to read.
\<close>

theorem ring_race_free:
  assumes "pow2_capacity cap" and "ring_run (threads_init cap d) ls s" and "length (pushes ls) < 2 ^ 64"
    and "about_to_write s = Some i" and "about_to_read s = Some j"
  shows "i \<noteq> j"
proof -
  have ok: "threads_ok s" and c: "ring_capacity (shared s) = cap"
    using ring_run_ok [OF assms(2) refl assms(1,3)] by auto
  obtain item t h where p: "prod s = PHead item t h" "\<not> ring_full cap t h" "i = slot_of cap t"
    using assms(4) c by (auto simp: about_to_write_def split: producer.splits if_splits)
  obtain h' t' where q: "cons s = CTail h' t'" "h' < t'" "j = slot_of cap h'"
    using assms(5) c by (auto simp: about_to_read_def split: consumer.splits if_splits)
  have o: "t = r_tail (shared s)" "h \<le> r_head (shared s)" "h' = r_head (shared s)" "t' \<le> r_tail (shared s)"
    using ok p q by (auto simp: threads_ok_def)
  moreover have "h \<le> t" using o ok by (auto simp: threads_ok_def ring_ok_def)
  ultimately have "unat h' < unat t" and "unat t - unat h' < cap"
    using p(2) q(2) ring_full_iff [OF assms(1), of h t] by (auto simp: word_le_nat_alt word_less_nat_alt)
  then show ?thesis
    using mod_neq_within [of "unat h'" "unat t" cap] by (simp add: p(3) q(3) slot_of_mod [OF assms(1)])
qed

definition demo_race :: "nat label list \<times> nat threads" where
  "demo_race = schedule [] (threads_init 2 0)
     [Some 7, Some 0, Some 0, Some 0, Some 8, Some 0, None, None]"

lemma demo_race_run: "ring_run (threads_init 2 0) (fst demo_race) (snd demo_race)"
  unfolding demo_race_def by (rule schedule_run [OF run_start])

theorem ring_race_free_witness:
  "about_to_write (snd demo_race) = Some 1 \<and> about_to_read (snd demo_race) = Some 0 \<and> (1 :: nat) \<noteq> 0"
proof -
  have a: "about_to_write (snd demo_race) = Some 1" "about_to_read (snd demo_race) = Some 0"
    "pushes (fst demo_race) = [7]"
    by code_simp+
  have "(1 :: nat) \<noteq> 0"
    by (rule ring_race_free [OF pow2_capacity_2 demo_race_run _ a(1,2)]) (simp add: a(3))
  with a show ?thesis by simp
qed

text \<open>
  Used sequentially, the lock-free ring and the mutex-guarded queue it is benchmarked
  against give the same answers to every sequence of fewer than \<open>2 ^ 64\<close> operations.
\<close>

lemma queues_agree:
  assumes "pow2_capacity cap" and "length ops < 2 ^ 64"
  shows "run_ops try_push try_pop (ring_init cap d) ops = run_ops mutex_push mutex_pop (mutex_init cap) ops"
proof -
  have "run_ops try_push try_pop (ring_init cap d) ops = fifo_ops cap [] ops"
    using rq.run_ops_fifo [OF ring_init_budget [OF assms], of d] by (simp add: ring_init_content)
  moreover have "run_ops mutex_push mutex_pop (mutex_init cap) ops = fifo_ops cap [] ops"
    using mq.run_ops_fifo [of "mutex_init cap" ops] by (simp add: mutex_init_def)
  ultimately show ?thesis by simp
qed

lemma queues_agree_example:
  "run_ops try_push try_pop (ring_init 2 0) [Pop, Push 1, Push 2, Push (3 :: nat), Pop, Pop, Pop] =
   [PopEmpty, Pushed 1, Pushed 2, PushFull, Popped 1, Popped 2, PopEmpty]"
proof -
  let ?ops = "[Pop, Push 1, Push 2, Push (3 :: nat), Pop, Pop, Pop]"
  have "length ?ops < 2 ^ 64" by simp
  from queues_agree [OF pow2_capacity_2 this, of 0]
  show ?thesis by (rule trans) code_simp
qed

definition push_pop :: "'a \<Rightarrow> 'a ring \<Rightarrow> 'a ring" where
  "push_pop x r = snd (try_pop (snd (try_push r x)))"

lemma push_pop_step:
  assumes "pow2_capacity (ring_capacity r)" and "r_head r = r_tail r" and "r_tail r \<noteq> - 1"
  shows "r_head (push_pop x r) = r_tail r + 1 \<and> r_tail (push_pop x r) = r_tail r + 1 \<and>
    ring_capacity (push_pop x r) = ring_capacity r"
proof -
  have "r_tail r < r_tail r + 1"
    using unat_Suc_word [OF assms(3)] by (simp add: word_less_nat_alt)
  moreover have "\<not> ring_full (ring_capacity r) (r_tail r) (r_tail r)"
    using ring_full_iff [OF assms(1), of "r_tail r" "r_tail r"] pow2_capacity_bounds [OF assms(1)] by simp
  ultimately show ?thesis
    using assms(2) by (simp add: push_pop_def try_push_def try_pop_def Let_def ring_capacity_def)
qed

lemma push_pop_funpow:
  assumes cap: "pow2_capacity cap" and "n < 2 ^ 64"
  shows "r_head ((push_pop x ^^ n) (ring_init cap d)) = of_nat n \<and>
    r_tail ((push_pop x ^^ n) (ring_init cap d)) = of_nat n \<and>
    ring_capacity ((push_pop x ^^ n) (ring_init cap d)) = cap"
  using assms(2)
proof (induction n)
  case (Suc n)
  let ?r = "(push_pop x ^^ n) (ring_init cap d)"
  have IH: "r_head ?r = of_nat n" "r_tail ?r = of_nat n" "ring_capacity ?r = cap" using Suc by auto
  have "(of_nat n :: u64) \<noteq> - 1"
  proof
    assume "(of_nat n :: u64) = - 1"
    then have "unat (of_nat n :: u64) = 2 ^ 64 - 1"
      by (simp add: unsigned_minus_1_eq_mask mask_eq_exp_minus_1)
    then show False using Suc(2) by (simp add: unat_of_nat take_bit_eq_mod)
  qed
  then show ?case
    using push_pop_step [of ?r x] IH cap by (simp add: add.commute)
qed (simp add: ring_init_def ring_capacity_def)

lemma stuck_at_wrap:
  assumes "pow2_capacity cap" and "N < 2 ^ 64" and "(of_nat N :: u64) = - 1" and "r = (push_pop x ^^ N) (ring_init cap d)"
  shows "fst (try_push r x) \<and> ring_size (snd (try_push r x)) = 1 \<and>
    try_pop (snd (try_push r x)) = (None, snd (try_push r x))"
proof -
  have r: "r_head r = - 1" "r_tail r = - 1" "ring_capacity r = cap"
    using push_pop_funpow [OF assms(1,2), of x d] assms(3,4) by simp_all
  have "\<not> ring_full cap (- 1) (- 1)"
    using ring_full_iff [OF assms(1), of "- 1" "- 1"] pow2_capacity_bounds [OF assms(1)] by simp
  then show ?thesis using r by (simp add: try_push_def try_pop_def ring_size_def Let_def)
qed

text \<open>
  The emptiness test of \<open>try_pop\<close> does not survive the wrap of the write index: after
  \<open>2 ^ 64 - 1\<close> push/pop pairs one more item can be pushed, \<open>size()\<close> says one, and \<open>try_pop\<close>
  says empty.
\<close>

lemma ring_stuck_after_wrap:
  assumes "pow2_capacity cap"
  shows "\<exists>N r. N = (2 ^ 64 - 1 :: nat) \<and> r = (push_pop x ^^ N) (ring_init cap d) \<and>
    fst (try_push r x) \<and> ring_size (snd (try_push r x)) = 1 \<and>
    try_pop (snd (try_push r x)) = (None, snd (try_push r x))"
proof -
  have "(of_nat (2 ^ 64 - 1) :: u64) = - 1"
    by (rule word_unat_eq_iff [THEN iffD2])
      (simp add: unsigned_minus_1_eq_mask mask_eq_exp_minus_1 unat_of_nat take_bit_eq_mod)
  then show ?thesis
    using stuck_at_wrap [OF assms, of "2 ^ 64 - 1", OF _ _ refl, of x d] by (intro exI conjI) auto
qed

lemma ring_stuck_after_wrap_example:
  "\<exists>r :: nat ring. ring_size r = 1 \<and> try_pop r = (None, r)"
  using ring_stuck_after_wrap [OF pow2_capacity_2, of "0 :: nat" 0] by blast

end
