(* ===== verification/Text_Protocol.thy ===== *)
theory Text_Protocol
  imports Core_Types
begin

text \<open>
  \<^verbatim>\<open>src/adapters/text_protocol\<close>: the parser of the line grammar and the renderer of responses.
  Text is a list of characters. \<open>std::from_chars\<close> and \<open>std::to_string\<close> are modelled for the
  decimal integers the code uses them on.
\<close>

section \<open>Decimal numbers\<close>

definition is_digit :: "char \<Rightarrow> bool" where
  "is_digit c \<longleftrightarrow> 48 \<le> (of_char c :: nat) \<and> (of_char c :: nat) \<le> 57"

definition digit_value :: "char \<Rightarrow> nat" where
  "digit_value c = of_char c - 48"

definition digits_value :: "string \<Rightarrow> nat" where
  "digits_value s = foldl (\<lambda>a c. a * 10 + digit_value c) 0 s"

text \<open>
  \<open>std::from_chars\<close> on an unsigned and on a signed 64-bit integer: the longest run of digits,
  with a leading minus sign for the signed type only. \<open>None\<close> is an error code; otherwise the
  value and the characters that were not consumed.
\<close>

definition from_chars_u64 :: "string \<Rightarrow> (u64 \<times> string) option" where
  "from_chars_u64 s =
     (let ds = takeWhile is_digit s; v = digits_value ds
      in if ds = [] \<or> 2 ^ 64 \<le> v then None else Some (of_nat v, dropWhile is_digit s))"

definition from_chars_i64 :: "string \<Rightarrow> (i64 \<times> string) option" where
  "from_chars_i64 s =
     (let neg = (s \<noteq> [] \<and> hd s = CHR ''-''); s' = (if neg then tl s else s);
          ds = takeWhile is_digit s'; v = (if neg then - int (digits_value ds) else int (digits_value ds))
      in if ds = [] \<or> v < - (2 ^ 63) \<or> 2 ^ 63 \<le> v then None
         else Some (of_int v, dropWhile is_digit s'))"

fun show_nat :: "nat \<Rightarrow> string" where
  "show_nat n = (if n < 10 then [char_of (48 + n)] else show_nat (n div 10) @ [char_of (48 + n mod 10)])"

declare show_nat.simps [simp del]

text \<open>\<open>std::to_string\<close> on \<open>uint64_t\<close> and \<open>int64_t\<close>.\<close>

definition to_string_u64 :: "u64 \<Rightarrow> string" where
  "to_string_u64 w = show_nat (unat w)"

definition to_string_i64 :: "i64 \<Rightarrow> string" where
  "to_string_i64 w = (if sint w < 0 then CHR ''-'' # show_nat (nat (- sint w)) else show_nat (nat (sint w)))"


section \<open>The parser\<close>

datatype ParseResult =
    ParsedLimit LimitOrder
  | ParsedMarket MarketOrder
  | ParsedCancel CancelRequest
  | ParseError string

definition is_space :: "char \<Rightarrow> bool" where
  "is_space c \<longleftrightarrow> c = CHR '' '' \<or> c = CHR 0x09 \<or> c = CHR 0x0D \<or> c = CHR 0x0A"

text \<open>
  The scan by position of the code: skip white space, stop at the end of the line, cut the
  token, continue behind it.
\<close>

function tokenize :: "string \<Rightarrow> string list" where
  "tokenize line =
     (let l = dropWhile is_space line
      in if l = [] then []
         else takeWhile (\<lambda>c. \<not> is_space c) l # tokenize (dropWhile (\<lambda>c. \<not> is_space c) l))"
  by auto

lemma length_dropWhile_token:
  "dropWhile P line \<noteq> [] \<Longrightarrow> length (dropWhile (\<lambda>c. \<not> P c) (dropWhile P line)) < length line"
proof -
  assume ne: "dropWhile P line \<noteq> []"
  then have "\<not> P (hd (dropWhile P line))" by (rule hd_dropWhile)
  then have "length (dropWhile (\<lambda>c. \<not> P c) (dropWhile P line)) < length (dropWhile P line)"
    using ne by (cases "dropWhile P line") (auto simp: length_dropWhile_le le_imp_less_Suc)
  also have "\<dots> \<le> length line" by (rule length_dropWhile_le)
  finally show ?thesis .
qed

termination tokenize
  by (relation "measure length") (auto simp: length_dropWhile_token)

declare tokenize.simps [simp del]

definition parse_side :: "string \<Rightarrow> Side option" where
  "parse_side s = (if s = ''BUY'' then Some Buy else if s = ''SELL'' then Some Sell else None)"

definition parse_uint64 :: "string \<Rightarrow> u64 option" where
  "parse_uint64 s =
     (if s = [] then None
      else case from_chars_u64 s of
        None \<Rightarrow> None
      | Some (v, rest) \<Rightarrow> if rest = [] then Some v else None)"

definition parse_int64 :: "string \<Rightarrow> i64 option" where
  "parse_int64 s =
     (if s = [] then None
      else case from_chars_i64 s of
        None \<Rightarrow> None
      | Some (v, rest) \<Rightarrow> if rest = [] then Some v else None)"

definition parse_cancel :: "string list \<Rightarrow> ParseResult" where
  "parse_cancel tokens =
     (if length tokens \<noteq> 2 then ParseError ''Usage: CANCEL <id>''
      else case parse_uint64 (tokens ! 1) of
        None \<Rightarrow> ParseError (''Invalid order ID: '' @ tokens ! 1)
      | Some id_val \<Rightarrow> ParsedCancel \<lparr>cr_id = OrderId id_val\<rparr>)"

definition parse_add :: "string list \<Rightarrow> ParseResult" where
  "parse_add tokens =
     (if length tokens \<noteq> 5 then ParseError ''Usage: ADD <id> <BUY|SELL> <price> <qty>''
      else case parse_uint64 (tokens ! 1) of
        None \<Rightarrow> ParseError (''Invalid order ID: '' @ tokens ! 1)
      | Some id_val \<Rightarrow>
          (case parse_side (tokens ! 2) of
             None \<Rightarrow> ParseError (''Invalid side (expected BUY or SELL): '' @ tokens ! 2)
           | Some side \<Rightarrow>
               (case parse_int64 (tokens ! 3) of
                  None \<Rightarrow> ParseError (''Invalid price: '' @ tokens ! 3)
                | Some price_val \<Rightarrow>
                    (case parse_uint64 (tokens ! 4) of
                       None \<Rightarrow> ParseError (''Invalid quantity: '' @ tokens ! 4)
                     | Some qty_val \<Rightarrow> ParsedLimit \<lparr>lo_id = OrderId id_val, lo_side = side,
                         lo_price = Price price_val, lo_quantity = Quantity qty_val, lo_owner = ClientId 0\<rparr>))))"

definition parse_market :: "string list \<Rightarrow> ParseResult" where
  "parse_market tokens =
     (if length tokens \<noteq> 4 then ParseError ''Usage: MARKET <id> <BUY|SELL> <qty>''
      else case parse_uint64 (tokens ! 1) of
        None \<Rightarrow> ParseError (''Invalid order ID: '' @ tokens ! 1)
      | Some id_val \<Rightarrow>
          (case parse_side (tokens ! 2) of
             None \<Rightarrow> ParseError (''Invalid side (expected BUY or SELL): '' @ tokens ! 2)
           | Some side \<Rightarrow>
               (case parse_uint64 (tokens ! 3) of
                  None \<Rightarrow> ParseError (''Invalid quantity: '' @ tokens ! 3)
                | Some qty_val \<Rightarrow> ParsedMarket \<lparr>mo_id = OrderId id_val, mo_side = side,
                    mo_quantity = Quantity qty_val, mo_owner = ClientId 0\<rparr>)))"

definition text_parse :: "string \<Rightarrow> ParseResult" where
  "text_parse line =
     (let tokens = tokenize line
      in if tokens = [] then ParseError ''Empty command''
         else let cmd = tokens ! 0
              in if cmd = ''CANCEL'' then parse_cancel tokens
                 else if cmd = ''ADD'' then parse_add tokens
                 else if cmd = ''MARKET'' then parse_market tokens
                 else ParseError (''Unknown command: '' @ cmd))"


section \<open>The renderer\<close>

definition id_tag :: "EngineResponse \<Rightarrow> string" where
  "id_tag response = '' id='' @ to_string_u64 (oid (r_order_id response))"

fun result_to_string :: "EngineResult \<Rightarrow> string" where
  "result_to_string Accepted = ''Accepted''"
| "result_to_string DuplicateOrderId = ''DuplicateOrderId''"
| "result_to_string UnknownOrderId = ''UnknownOrderId''"
| "result_to_string InvalidQuantity = ''InvalidQuantity''"
| "result_to_string InvalidPrice = ''InvalidPrice''"
| "result_to_string PoolExhausted = ''PoolExhausted''"
| "result_to_string SelfTradePrevented = ''SelfTradePrevented''"
| "result_to_string PriceOutOfBand = ''PriceOutOfBand''"
| "result_to_string QuantityTooLarge = ''QuantityTooLarge''"
| "result_to_string TickSizeMisaligned = ''TickSizeMisaligned''"
| "result_to_string InternalError = ''InternalError''"

definition render_fills :: "Trade list \<Rightarrow> string" where
  "render_fills trs = concat (map (\<lambda>t. '' FILL '' @ to_string_u64 (qty_value (t_quantity t)) @ ''@'' @
     to_string_i64 (price_value (t_price t))) trs)"

definition newline :: string where
  "newline = [CHR 0x0A]"

definition render :: "EngineResponse \<Rightarrow> string" where
  "render response =
     (if status response \<noteq> Accepted
      then ''REJECTED'' @ id_tag response @ '': '' @ result_to_string (status response) @ newline
      else ''ACCEPTED'' @ id_tag response @ '':'' @
        (if trades response = [] then '' no fills, remaining_qty='' @ to_string_u64 (qty_value (remaining_qty response))
         else render_fills (trades response) @
           (if remaining_qty response > 0 then '' | remaining_qty='' @ to_string_u64 (qty_value (remaining_qty response))
            else '' | FULLY FILLED'')) @ newline)"

definition render_error :: "string \<Rightarrow> string" where
  "render_error message = ''ERROR: '' @ message @ newline"


section \<open>Numbers survive printing and parsing\<close>

lemma digit_char:
  assumes "n < 10"
  shows "is_digit (char_of (48 + n))" and "digit_value (char_of (48 + n)) = n"
  using assms by (simp_all add: is_digit_def digit_value_def of_char_of)

lemma digits_value_snoc [simp]: "digits_value (s @ [c]) = digits_value s * 10 + digit_value c"
  by (simp add: digits_value_def)

lemma show_nat_digits: "c \<in> set (show_nat n) \<Longrightarrow> is_digit c"
proof (induction n rule: show_nat.induct)
  case (1 n)
  show ?case
    using 1(2) unfolding show_nat.simps [of n]
    by (auto split: if_splits simp: digit_char intro: 1(1))
qed

lemma digits_value_show_nat: "digits_value (show_nat n) = n"
proof (induction n rule: show_nat.induct)
  case (1 n)
  show ?case
  proof (cases "n < 10")
    case True
    then show ?thesis
      unfolding show_nat.simps [of n] by (simp add: digits_value_def digit_char)
  next
    case False
    then show ?thesis
      unfolding show_nat.simps [of n] using 1 by (simp add: digit_char)
  qed
qed

lemma show_nat_neq_Nil [simp]: "show_nat n \<noteq> []"
  unfolding show_nat.simps [of n] by simp

lemma takeWhile_show_nat [simp]:
  "takeWhile is_digit (show_nat n) = show_nat n" "dropWhile is_digit (show_nat n) = []"
  using show_nat_digits by (auto simp: takeWhile_eq_all_conv dropWhile_eq_Nil_conv)

lemma minus_not_digit [simp]: "\<not> is_digit (CHR ''-'')"
  by (simp add: is_digit_def)

lemma hd_show_nat: "hd (show_nat n) \<noteq> CHR ''-''"
  using show_nat_digits [of "hd (show_nat n)" n] by (metis minus_not_digit hd_in_set show_nat_neq_Nil)

lemma parse_to_string_u64 [simp]: "parse_uint64 (to_string_u64 w) = Some w"
  using unsigned_less [of w, where ?'a = nat]
  by (simp add: parse_uint64_def from_chars_u64_def to_string_u64_def digits_value_show_nat Let_def not_le)

lemma sint_range_i64: "- (2 ^ 63) \<le> sint w \<and> sint w < 2 ^ 63" for w :: i64
  using sint_ge [of w] sint_lt [of w] by simp

lemma parse_to_string_i64 [simp]: "parse_int64 (to_string_i64 w) = Some w"
proof (cases "sint w < 0")
  case True
  then show ?thesis
    using sint_range_i64 [of w]
    by (simp add: parse_int64_def from_chars_i64_def to_string_i64_def digits_value_show_nat Let_def not_le)
next
  case False
  then show ?thesis
    using sint_range_i64 [of w] hd_show_nat [of "nat (sint w)"]
    by (simp add: parse_int64_def from_chars_i64_def to_string_i64_def digits_value_show_nat Let_def not_le)
qed


section \<open>Tokens\<close>

definition token :: "string \<Rightarrow> bool" where
  "token t \<longleftrightarrow> t \<noteq> [] \<and> (\<forall>c \<in> set t. \<not> is_space c)"

lemma digit_not_space: "is_digit c \<Longrightarrow> \<not> is_space c"
  by (auto simp: is_digit_def is_space_def)

lemma token_number [simp]: "token (to_string_u64 w)" "token (to_string_i64 v)"
  using show_nat_digits digit_not_space
  by (auto simp: token_def to_string_u64_def to_string_i64_def is_space_def [of "CHR ''-''"])

lemma takeWhile_token: "\<forall>c \<in> set t. \<not> P c \<Longrightarrow> P d \<Longrightarrow>
  takeWhile (\<lambda>c. \<not> P c) (t @ d # r) = t \<and> dropWhile (\<lambda>c. \<not> P c) (t @ d # r) = d # r"
  by (induction t) auto

lemma tokenize_space: "is_space d \<Longrightarrow> tokenize (d # r) = tokenize r"
  by (simp add: tokenize.simps [of "d # r"] tokenize.simps [of r])

lemma tokenize_token:
  assumes "token t" and "is_space d"
  shows "tokenize (t @ d # r) = t # tokenize r"
proof -
  have d: "dropWhile is_space (t @ d # r) = t @ d # r"
    using assms(1) by (cases t) (auto simp: token_def)
  have "takeWhile (\<lambda>c. \<not> is_space c) (t @ d # r) = t"
    "dropWhile (\<lambda>c. \<not> is_space c) (t @ d # r) = d # r"
    using takeWhile_token [of t is_space d r] assms by (auto simp: token_def)
  then have "tokenize (t @ d # r) = t # tokenize (d # r)"
    by (subst tokenize.simps) (simp add: d)
  then show ?thesis by (simp add: tokenize_space [OF assms(2)])
qed

lemma tokenize_last:
  assumes "token t"
  shows "tokenize t = [t]"
proof -
  have d: "dropWhile is_space t = t" using assms by (cases t) (auto simp: token_def)
  have w: "takeWhile (\<lambda>c. \<not> is_space c) t = t" "dropWhile (\<lambda>c. \<not> is_space c) t = []"
    using assms by (auto simp: token_def takeWhile_eq_all_conv dropWhile_eq_Nil_conv)
  have "t \<noteq> []" using assms by (simp add: token_def)
  then have "tokenize t = t # tokenize []"
    by (subst tokenize.simps) (simp only: d w Let_def if_False)
  then show ?thesis by (simp add: tokenize.simps)
qed

lemma tokenize_tokens: "t \<in> set (tokenize line) \<Longrightarrow> token t"
proof (induction line rule: tokenize.induct)
  case (1 line)
  let ?l = "dropWhile is_space line"
  show ?case
  proof (cases "?l = []")
    case True
    then show ?thesis using 1(2) by (simp add: tokenize.simps [of line])
  next
    case False
    then have "\<not> is_space (hd ?l)" by (rule hd_dropWhile)
    then have "token (takeWhile (\<lambda>c. \<not> is_space c) ?l)"
      using False by (cases ?l) (auto simp: token_def dest: set_takeWhileD)
    moreover have eq: "tokenize line = takeWhile (\<lambda>c. \<not> is_space c) ?l # tokenize (dropWhile (\<lambda>c. \<not> is_space c) ?l)"
      using False by (subst tokenize.simps) (simp only: Let_def if_False)
    moreover have "t = takeWhile (\<lambda>c. \<not> is_space c) ?l \<or> t \<in> set (tokenize (dropWhile (\<lambda>c. \<not> is_space c) ?l))"
      using 1(2) unfolding eq by simp
    ultimately show ?thesis using 1(1) [OF refl False] by auto
  qed
qed


section \<open>Properties\<close>

text \<open>The line of a command, as the grammar in the parser's header writes it.\<close>

fun side_word :: "Side \<Rightarrow> string" where
  "side_word Buy = ''BUY''"
| "side_word Sell = ''SELL''"

fun command_line :: "EngineCommand \<Rightarrow> string" where
  "command_line (CmdLimit lo) = ''ADD '' @ to_string_u64 (oid (lo_id lo)) @ '' '' @ side_word (lo_side lo) @ '' '' @
     to_string_i64 (price_value (lo_price lo)) @ '' '' @ to_string_u64 (qty_value (lo_quantity lo))"
| "command_line (CmdMarket mo) = ''MARKET '' @ to_string_u64 (oid (mo_id mo)) @ '' '' @ side_word (mo_side mo) @ '' '' @
     to_string_u64 (qty_value (mo_quantity mo))"
| "command_line (CmdCancel cr) = ''CANCEL '' @ to_string_u64 (oid (cr_id cr))"

text \<open>The command as the parser can know it: the submitter is stamped on it later.\<close>

fun parsed :: "EngineCommand \<Rightarrow> ParseResult" where
  "parsed (CmdLimit lo) = ParsedLimit (lo\<lparr>lo_owner := ClientId 0\<rparr>)"
| "parsed (CmdMarket mo) = ParsedMarket (mo\<lparr>mo_owner := ClientId 0\<rparr>)"
| "parsed (CmdCancel cr) = ParsedCancel cr"

lemma space_char [simp]: "is_space CHR '' ''"
  by (simp add: is_space_def)

lemma token_words [simp]: "token ''ADD''" "token ''MARKET''" "token ''CANCEL''" "token (side_word s)"
  by (cases s; simp add: token_def is_space_def)+

lemma parse_side_word [simp]: "parse_side (side_word s) = Some s"
  by (cases s) (simp_all add: parse_side_def)

lemma append_space: "xs @ '' '' @ ys = xs @ CHR '' '' # ys"
  by simp

lemma tokenize_command:
  "tokenize (command_line c) =
    (case c of
       CmdLimit lo \<Rightarrow> [''ADD'', to_string_u64 (oid (lo_id lo)), side_word (lo_side lo),
         to_string_i64 (price_value (lo_price lo)), to_string_u64 (qty_value (lo_quantity lo))]
     | CmdMarket mo \<Rightarrow> [''MARKET'', to_string_u64 (oid (mo_id mo)), side_word (mo_side mo),
         to_string_u64 (qty_value (mo_quantity mo))]
     | CmdCancel cr \<Rightarrow> [''CANCEL'', to_string_u64 (oid (cr_id cr))])"
proof -
  have "tokenize (''ADD '' @ r) = ''ADD'' # tokenize r" "tokenize (''MARKET '' @ r) = ''MARKET'' # tokenize r"
    "tokenize (''CANCEL '' @ r) = ''CANCEL'' # tokenize r" for r
    using tokenize_token [of "''ADD''" "CHR '' ''" r] tokenize_token [of "''MARKET''" "CHR '' ''" r]
      tokenize_token [of "''CANCEL''" "CHR '' ''" r] by simp_all
  note t = this
  show ?thesis
    by (cases c) (simp_all only: command_line.simps t append_space tokenize_token token_number token_words
      space_char tokenize_last EngineCommand.case)
qed

text \<open>The parser reads the line of a command as that command.\<close>

lemma text_parse_command: "text_parse (command_line c) = parsed c"
proof (cases c)
  case (CmdLimit lo)
  obtain i s p q w where lo: "lo = \<lparr>lo_id = i, lo_side = s, lo_price = p, lo_quantity = q, lo_owner = w\<rparr>"
    by (cases lo)
  show ?thesis
    unfolding text_parse_def tokenize_command
    by (simp add: CmdLimit lo parse_add_def)
next
  case (CmdMarket mo)
  obtain i s q w where mo: "mo = \<lparr>mo_id = i, mo_side = s, mo_quantity = q, mo_owner = w\<rparr>"
    by (cases mo)
  show ?thesis
    unfolding text_parse_def tokenize_command
    by (simp add: CmdMarket mo parse_market_def)
next
  case (CmdCancel cr)
  show ?thesis
    unfolding text_parse_def tokenize_command
    by (simp add: CmdCancel parse_cancel_def)
qed

text \<open>A line of the protocol: no line break but the one that ends it.\<close>

definition one_line :: "string \<Rightarrow> bool" where
  "one_line s \<longleftrightarrow> (\<exists>body. s = body @ newline \<and> CHR 0x0A \<notin> set body)"

lemma newline_space: "is_space (CHR 0x0A)"
  by (simp add: is_space_def)

lemma token_no_newline: "token t \<Longrightarrow> CHR 0x0A \<notin> set t"
  using newline_space by (auto simp: token_def)

lemma error_message_no_newline:
  assumes "text_parse line = ParseError m"
  shows "CHR 0x0A \<notin> set m"
proof -
  have "CHR 0x0A \<notin> set (tokenize line ! i)" if "i < length (tokenize line)" for i
    using that by (intro token_no_newline tokenize_tokens [of _ line]) simp
  then show ?thesis
    using assms
    by (auto simp: text_parse_def parse_cancel_def parse_add_def parse_market_def Let_def
        split: if_splits option.splits)
qed

lemma numbers_no_newline [simp]:
  "CHR 0x0A \<notin> set (to_string_u64 w)" "CHR 0x0A \<notin> set (to_string_i64 v)"
  using token_number token_no_newline by blast+

lemma render_fills_no_newline: "CHR 0x0A \<notin> set (render_fills trs)"
  by (auto simp: render_fills_def)

lemma result_no_newline: "CHR 0x0A \<notin> set (result_to_string r)"
  by (cases r) simp_all

text \<open>
  Every reply of the text protocol is one line: the rendered response, and the error
  reply to a line that does not parse, although the error quotes the client's input.
\<close>

lemma replies_are_lines:
  "one_line (render response) \<and> (\<forall>m. text_parse line = ParseError m \<longrightarrow> one_line (render_error m))"
proof (intro conjI allI impI)
  show "one_line (render response)"
  proof (cases "status response = Accepted")
    case False
    then show ?thesis
      unfolding one_line_def
      by (intro exI [of _ "''REJECTED'' @ id_tag response @ '': '' @ result_to_string (status response)"])
        (simp add: render_def id_tag_def result_no_newline)
  next
    case True
    define body where "body = (if trades response = [] then '' no fills, remaining_qty='' @ to_string_u64 (qty_value (remaining_qty response))
         else render_fills (trades response) @
           (if remaining_qty response > 0 then '' | remaining_qty='' @ to_string_u64 (qty_value (remaining_qty response))
            else '' | FULLY FILLED''))"
    have "CHR 0x0A \<notin> set body"
      using render_fills_no_newline [of "trades response"] by (simp add: body_def)
    moreover have "render response = (''ACCEPTED'' @ id_tag response @ '':'' @ body) @ newline"
      using True by (simp add: render_def body_def)
    ultimately show ?thesis
      unfolding one_line_def by (intro exI [of _ "''ACCEPTED'' @ id_tag response @ '':'' @ body"]) (simp add: id_tag_def)
  qed
next
  fix m assume "text_parse line = ParseError m"
  then show "one_line (render_error m)"
    unfolding one_line_def using error_message_no_newline [of line m]
    by (intro exI [of _ "''ERROR: '' @ m"]) (simp add: render_error_def)
qed

lemma replies_are_lines_example:
  "text_parse ''QUOTE 7'' = ParseError ''Unknown command: QUOTE'' \<and>
   one_line (render_error ''Unknown command: QUOTE'')"
proof -
  have "text_parse ''QUOTE 7'' = ParseError ''Unknown command: QUOTE''"
    by code_simp
  then show ?thesis using replies_are_lines [of _ "''QUOTE 7''"] by blast
qed

end
