(* ===== verification/Cli.thy ===== *)
theory Cli
  imports Engine_Accounting Text_Protocol
begin

text \<open>
  \<^verbatim>\<open>src/apps/cli\<close>: the console front end. Its parser intercepts two commands and hands the rest
  to the text protocol, its printer writes to a stream (here: the text written), its main
  loop runs the engine on the lines of standard input until \<open>QUIT\<close> or the end of input.
\<close>

section \<open>Parser (cli_parser.cpp)\<close>

datatype CliResult =
    CliLimit LimitOrder
  | CliMarket MarketOrder
  | CliCancel CancelRequest
  | CliPrintBook
  | CliQuit
  | CliError string

definition is_blank :: "char \<Rightarrow> bool" where
  "is_blank c \<longleftrightarrow> c = CHR '' '' \<or> c = CHR 0x09"

definition first_token :: "string \<Rightarrow> string" where
  "first_token line = takeWhile (\<lambda>c. \<not> is_blank c) (dropWhile is_blank line)"

definition is_single_token :: "string \<Rightarrow> bool" where
  "is_single_token line \<longleftrightarrow> dropWhile is_blank (dropWhile (\<lambda>c. \<not> is_blank c) (dropWhile is_blank line)) = []"

definition cli_parse :: "string \<Rightarrow> CliResult" where
  "cli_parse line =
     (let cmd = first_token line
      in if cmd = ''QUIT'' then
           (if \<not> is_single_token line then CliError ''QUIT takes no arguments'' else CliQuit)
         else if cmd = ''PRINT_BOOK'' then
           (if \<not> is_single_token line then CliError ''PRINT_BOOK takes no arguments'' else CliPrintBook)
         else case text_parse line of
           ParseError m \<Rightarrow> CliError m
         | ParsedLimit lo \<Rightarrow> CliLimit lo
         | ParsedMarket mo \<Rightarrow> CliMarket mo
         | ParsedCancel cr \<Rightarrow> CliCancel cr)"


section \<open>Printer (console_printer.cpp)\<close>

fun console_result :: "EngineResult \<Rightarrow> string" where
  "console_result Accepted = ''ACCEPTED''"
| "console_result DuplicateOrderId = ''REJECTED: DuplicateOrderId''"
| "console_result UnknownOrderId = ''REJECTED: UnknownOrderId''"
| "console_result InvalidQuantity = ''REJECTED: InvalidQuantity''"
| "console_result InvalidPrice = ''REJECTED: InvalidPrice''"
| "console_result PoolExhausted = ''REJECTED: PoolExhausted''"
| "console_result SelfTradePrevented = ''REJECTED: SelfTradePrevented''"
| "console_result PriceOutOfBand = ''REJECTED: PriceOutOfBand''"
| "console_result QuantityTooLarge = ''REJECTED: QuantityTooLarge''"
| "console_result TickSizeMisaligned = ''REJECTED: TickSizeMisaligned''"
| "console_result InternalError = ''REJECTED: InternalError''"

fun side_to_string :: "Side \<Rightarrow> string" where
  "side_to_string Buy = ''BUY''"
| "side_to_string Sell = ''SELL''"

definition print_response :: "EngineResponse \<Rightarrow> string" where
  "print_response response =
     (if status response \<noteq> Accepted then console_result (status response) @ newline
      else if trades response = [] then
        ''ACCEPTED: no fills, remaining_qty='' @ to_string_u64 (qty_value (remaining_qty response)) @ newline
      else ''ACCEPTED:'' @
        concat (map (\<lambda>t. '' FILL '' @ to_string_u64 (qty_value (t_quantity t)) @ ''@'' @
          to_string_i64 (price_value (t_price t))) (trades response)) @
        (if remaining_qty response > 0
         then '' | remaining_qty='' @ to_string_u64 (qty_value (remaining_qty response))
         else '' | FULLY FILLED'') @ newline)"

definition print_cancel_response :: "EngineResponse \<Rightarrow> OrderId \<Rightarrow> string" where
  "print_cancel_response response i =
     (if status response = Accepted then
        ''CANCELLED: order '' @ to_string_u64 (oid i) @ '', remaining_qty='' @
        to_string_u64 (qty_value (remaining_qty response)) @ newline
      else console_result (status response) @ newline)"

text \<open>One row of the depth display: the price of a level and its total.\<close>

definition rows :: "price_tree \<Rightarrow> (Price \<times> Quantity) list" where
  "rows t = map (\<lambda>(price, level). (price, total_quantity level)) t"

fun print_row :: "Price \<times> Quantity \<Rightarrow> string" where
  "print_row (price, q) = ''  '' @ to_string_i64 (price_value price) @ '': qty='' @ to_string_u64 (qty_value q) @ newline"

definition print_book :: "OrderBook \<Rightarrow> string" where
  "print_book b =
     ''=== ORDER BOOK ==='' @ newline @ ''--- ASKS ---'' @ newline @
     concat (map print_row (rev (rows (asks b)))) @
     ''--- BIDS ---'' @ newline @
     concat (map print_row (rows (bids b))) @
     ''=================='' @ newline"

definition print_error :: "string \<Rightarrow> string" where
  "print_error message = ''ERROR: '' @ message @ newline"


section \<open>Main loop (main.cpp)\<close>

definition cli_engine :: MatchingEngine where
  "cli_engine = MatchingEngine_init 1000000 \<lparr>enabled = False, policy = RejectIncoming\<rparr>"

text \<open>One pass of the visitor: what is printed, and the engine after it.\<close>

definition cli_visit :: "freed_node \<Rightarrow> MatchingEngine \<Rightarrow> CliResult \<Rightarrow> (string \<times> MatchingEngine) option" where
  "cli_visit fr e result =
     (case result of
        CliLimit lo \<Rightarrow> do { (response, e') \<leftarrow> submit fr e (NewLimit lo); Some (print_response response, e') }
      | CliMarket mo \<Rightarrow> do { (response, e') \<leftarrow> submit fr e (NewMarket mo); Some (print_response response, e') }
      | CliCancel cr \<Rightarrow> do {
          (response, e') \<leftarrow> cancel e (cr_id cr);
          Some (print_cancel_response response (cr_id cr), e')
        }
      | CliPrintBook \<Rightarrow> Some (print_book (book e), e)
      | CliQuit \<Rightarrow> Some ([], e)
      | CliError m \<Rightarrow> Some (print_error m, e))"

fun cli_loop :: "freed_node \<Rightarrow> MatchingEngine \<Rightarrow> string list \<Rightarrow> (string \<times> MatchingEngine) option" where
  "cli_loop fr e [] = Some ([], e)"
| "cli_loop fr e (line # input) = do {
     let result = cli_parse line;
     (out, e') \<leftarrow> cli_visit fr e result;
     if result = CliQuit then Some (out, e')
     else do {
       (out', e'') \<leftarrow> cli_loop fr e' input;
       Some (out @ out', e'')
     }
   }"


section \<open>The depth display\<close>

text \<open>The rows from top to bottom.\<close>

definition display :: "OrderBook \<Rightarrow> (Price \<times> Quantity) list" where
  "display b = rev (rows (asks b)) @ rows (bids b)"

lemma rows_keys: "map fst (rows t) = map fst t"
  by (simp add: rows_def case_prod_beta comp_def)

lemma row_total:
  assumes ok: "book_ok b" and r: "(k, q) \<in> set (rows (tree_of b s))"
  shows "q = sum_list (map o_quantity (filter (\<lambda>x. o_price x = k) (resting b s)))"
    and "\<exists>x \<in> set (resting b s). o_price x = k"
proof -
  have rep: "book_rep b (queue b)" using ok by (simp add: book_ok_def)
  obtain l where l: "(k, l) \<in> set (tree_of b s)" and q: "q = total_quantity l"
    using r by (auto simp: rows_def)
  have "distinct (map fst (tree_of b s))" using pt.sorted_distinct [OF rep_sorted [OF rep]] .
  then have at: "level_at b (s, k) = Some l" using l by (simp add: level_at_def)
  show "q = sum_list (map o_quantity (filter (\<lambda>x. o_price x = k) (resting b s)))"
    unfolding q by (rule level_total [OF ok at])
  have "\<not> (\<forall>p \<in> set (resting_ptrs b s). o_price (order_at b p) \<noteq> k)"
    using level_at_resting [OF ok, of s k] at by auto
  then show "\<exists>x \<in> set (resting b s). o_price x = k"
    unfolding resting_def by auto
qed

lemma row_side:
  assumes "(k, q) \<in> set (display b)"
  obtains "(k, q) \<in> set (rows (tree_of b Sell))" | "(k, q) \<in> set (rows (tree_of b Buy))"
  using assms by (auto simp: display_def)

lemma sorted_rows:
  assumes "book_ok b"
  shows "sorted_wrt (\<lambda>x y. tree_lt s (fst x) (fst y)) (rows (tree_of b s))"
proof -
  have "sorted_wrt (tree_lt s) (map fst (tree_of b s))"
    using rep_sorted [of b "queue b" s] assms by (simp add: book_ok_def keys_sorted_def)
  then show ?thesis unfolding rows_keys [symmetric] sorted_wrt_map .
qed

text \<open>
  The depth display of \<open>PRINT_BOOK\<close> is the book: from top to bottom the prices of the
  asks and then of the bids strictly fall, every row shows the sum of the quantities resting
  at its price on its side, and every price at which an order rests has a row.
\<close>

lemma print_book_faithful:
  assumes "engine_ok e"
  shows "sorted_wrt (\<lambda>x y. fst y < fst x) (display (book e)) \<and>
    (\<forall>s. \<forall>(k, q) \<in> set (rows (tree_of (book e) s)).
       q = sum_list (map o_quantity (filter (\<lambda>x. o_price x = k) (resting (book e) s)))) \<and>
    (\<forall>s. o_price ` set (resting (book e) s) = fst ` set (rows (tree_of (book e) s)))"
proof (intro conjI allI)
  have bo: "book_ok (book e)" and un: "uncrossed (spec_of e)"
    using assms by (auto simp: engine_ok_def spec_ok_def)
  have cross: "fst y < fst x" if "x \<in> set (rows (asks (book e)))" "y \<in> set (rows (bids (book e)))" for x y
    using row_total(2) [OF bo, of "fst x" "snd x" Sell] row_total(2) [OF bo, of "fst y" "snd y" Buy] un that
    by (force simp: uncrossed_def)
  show "sorted_wrt (\<lambda>x y. fst y < fst x) (display (book e))"
    unfolding display_def sorted_wrt_append sorted_wrt_rev
    using sorted_rows [OF bo, of Sell] sorted_rows [OF bo, of Buy] cross by simp
  show "\<forall>(k, q) \<in> set (rows (tree_of (book e) s)).
      q = sum_list (map o_quantity (filter (\<lambda>x. o_price x = k) (resting (book e) s)))" for s
    using row_total(1) [OF bo] by blast
  show "o_price ` set (resting (book e) s) = fst ` set (rows (tree_of (book e) s))" for s
  proof (intro equalityI subsetI)
    fix k assume "k \<in> o_price ` set (resting (book e) s)"
    then have "level_at (book e) (s, k) \<noteq> None"
      using level_at_resting [OF bo, of s k] by (auto simp: resting_def)
    then obtain l where "(k, l) \<in> set (tree_of (book e) s)"
      by (auto simp: level_at_def dest: map_of_SomeD)
    then show "k \<in> fst ` set (rows (tree_of (book e) s))"
      by (force simp: rows_def image_image)
  next
    fix k assume "k \<in> fst ` set (rows (tree_of (book e) s))"
    then obtain q where "(k, q) \<in> set (rows (tree_of (book e) s))" by auto
    then show "k \<in> o_price ` set (resting (book e) s)"
      using row_total(2) [OF bo] by blast
  qed
qed

lemma print_book_faithful_example:
  "display (book demo2) = [(Price 102, Quantity 5), (Price 101, Quantity 4), (Price 100, Quantity 5), (Price 99, Quantity 3)] \<and>
   sorted_wrt (\<lambda>x y. fst y < fst x) (display (book demo2))"
proof -
  have "engine_ok demo2" by (rule reachable_ok [OF demo2_reachable]) simp
  then have "sorted_wrt (\<lambda>x y. fst y < fst x) (display (book demo2))"
    using print_book_faithful by blast
  moreover have "display (book demo2) =
      [(Price 102, Quantity 5), (Price 101, Quantity 4), (Price 100, Quantity 5), (Price 99, Quantity 3)]"
    by code_simp
  ultimately show ?thesis by blast
qed

lemma cli_visit_total:
  assumes "engine_ok e"
  obtains out e' where "cli_visit Retained e r = Some (out, e')" and "engine_ok e'"
proof -
  have sub: "\<exists>resp e'. submit Retained e ord = Some (resp, e') \<and> engine_ok e'" for ord
    using submit_spec [OF assms, of ord] by blast
  have can: "\<exists>resp e'. cancel e i = Some (resp, e') \<and> engine_ok e'" for i
    using cancel_spec [OF assms, of i] by blast
  have "\<exists>out e'. cli_visit Retained e r = Some (out, e') \<and> engine_ok e'"
  proof (cases r)
    case (CliLimit lo)
    then show ?thesis using sub [of "NewLimit lo"] by (auto simp: cli_visit_def)
  next
    case (CliMarket mo)
    then show ?thesis using sub [of "NewMarket mo"] by (auto simp: cli_visit_def)
  next
    case (CliCancel cr)
    then show ?thesis using can [of "cr_id cr"] by (auto simp: cli_visit_def)
  qed (use assms in \<open>auto simp: cli_visit_def\<close>)
  then show thesis using that by blast
qed

lemma cli_loop_total:
  assumes "engine_ok e"
  shows "\<exists>out e'. cli_loop Retained e input = Some (out, e') \<and> engine_ok e'"
  using assms
proof (induction input arbitrary: e)
  case (Cons line input)
  obtain out e' where v: "cli_visit Retained e (cli_parse line) = Some (out, e')" "engine_ok e'"
    by (rule cli_visit_total [OF Cons.prems])
  show ?case
  proof (cases "cli_parse line = CliQuit")
    case True
    then show ?thesis using v by (simp add: Let_def)
  next
    case False
    then show ?thesis using v Cons.IH [OF v(2)] by (auto simp: Let_def)
  qed
qed simp

lemma cli_loop_quit:
  assumes "cli_parse q = CliQuit"
  shows "cli_loop fr e (input @ q # rest) = cli_loop fr e (input @ [q])"
proof (induction input arbitrary: e)
  case Nil
  then show ?case using assms by (simp add: Let_def)
next
  case (Cons line input)
  then show ?case by (cases "cli_visit fr e (cli_parse line)") (auto simp: Let_def)
qed

text \<open>
  C25. A console session always runs to its end: on any input every line is answered without
  an undefined operation of the engine, the engine stays well formed, and nothing after a
  \<open>QUIT\<close> has an effect.
\<close>

theorem cli_session:
  "(\<exists>out e. cli_loop Retained cli_engine input = Some (out, e) \<and> engine_ok e) \<and>
   (\<forall>q rest. cli_parse q = CliQuit \<longrightarrow>
      cli_loop Retained cli_engine (input @ q # rest) = cli_loop Retained cli_engine (input @ [q]))"
proof -
  have "engine_ok cli_engine" unfolding cli_engine_def by (rule engine_ok_init) simp
  then show ?thesis using cli_loop_total cli_loop_quit by blast
qed

theorem cli_session_witness:
  "cli_loop Retained cli_engine (['' ''] @ ''QUIT'' # [''CANCEL 1'']) =
   cli_loop Retained cli_engine (['' ''] @ [''QUIT''])"
proof -
  have "cli_parse ''QUIT'' = CliQuit" by code_simp
  then show ?thesis using cli_session [of "['' '']"] by blast
qed

text \<open>
  A line that ends in a carriage return is a command for the text protocol, which skips it,
  but not for the two commands the console parses itself: it is then part of the token.
\<close>

lemma quit_with_carriage_return:
  "cli_parse (''QUIT'' @ [CHR 0x0D]) = CliError ''Unknown command: QUIT''"
  by code_simp

end
