(* ===== verification/Byte_Order.thy ===== *)
theory Byte_Order
  imports Prelude
begin

text \<open>
  \<^verbatim>\<open>src/adapters/binary_protocol/ByteOrder.hpp\<close> and the field accessors of \<^verbatim>\<open>BinaryCodec.hpp\<close>:
  integers as the bytes the host keeps them in, and the conversions between host and network
  order. The host's byte order is an argument, so that statements about the wire hold for
  every host.
\<close>

section \<open>Integers as bytes\<close>

datatype endian = LittleEndian | BigEndian

text \<open>The \<open>n\<close> least significant bytes of a number, most significant first, and back.\<close>

fun be_bytes :: "nat \<Rightarrow> nat \<Rightarrow> u8 list" where
  "be_bytes 0 v = []"
| "be_bytes (Suc n) v = be_bytes n (v div 256) @ [of_nat v]"

definition be_value :: "u8 list \<Rightarrow> nat" where
  "be_value bs = foldl (\<lambda>a b. a * 256 + unat b) 0 bs"

text \<open>The bytes of an object of \<open>n\<close> bytes in the host's memory, and the value they denote.\<close>

definition host_bytes :: "endian \<Rightarrow> nat \<Rightarrow> nat \<Rightarrow> u8 list" where
  "host_bytes en n v = (case en of BigEndian \<Rightarrow> be_bytes n v | LittleEndian \<Rightarrow> rev (be_bytes n v))"

definition host_value :: "endian \<Rightarrow> u8 list \<Rightarrow> nat" where
  "host_value en bs = (case en of BigEndian \<Rightarrow> be_value bs | LittleEndian \<Rightarrow> be_value (rev bs))"

definition byteswap :: "'a :: len word \<Rightarrow> 'a word" where
  "byteswap w = of_nat (be_value (rev (be_bytes (LENGTH('a) div 8) (unat w))))"

text \<open>\<open>htons\<close>, \<open>htonl\<close>, \<open>htobe64\<close> and their inverses, by width.\<close>

definition to_network :: "endian \<Rightarrow> 'a :: len word \<Rightarrow> 'a word" where
  "to_network en w = (case en of BigEndian \<Rightarrow> w | LittleEndian \<Rightarrow> byteswap w)"

definition from_network :: "endian \<Rightarrow> 'a :: len word \<Rightarrow> 'a word" where
  "from_network en w = (case en of BigEndian \<Rightarrow> w | LittleEndian \<Rightarrow> byteswap w)"


section \<open>Field accessors\<close>

text \<open>
  \<open>memcpy\<close> into and out of a buffer at an offset, which is advanced. Outside the buffer the
  behaviour is undefined: \<open>None\<close>.
\<close>

definition write_field :: "u8 list \<Rightarrow> nat \<Rightarrow> u8 list \<Rightarrow> (u8 list \<times> nat) option" where
  "write_field out offset bs =
     (if offset + length bs \<le> length out
      then Some (take offset out @ bs @ drop (offset + length bs) out, offset + length bs)
      else None)"

definition write_u8 :: "u8 list \<Rightarrow> nat \<Rightarrow> u8 \<Rightarrow> (u8 list \<times> nat) option" where
  "write_u8 out offset v = write_field out offset [v]"

definition write_u64 :: "endian \<Rightarrow> u8 list \<Rightarrow> nat \<Rightarrow> u64 \<Rightarrow> (u8 list \<times> nat) option" where
  "write_u64 en out offset v = write_field out offset (host_bytes en 8 (unat v))"

definition read_field :: "nat \<Rightarrow> u8 list \<Rightarrow> nat \<Rightarrow> (u8 list \<times> nat) option" where
  "read_field n inp offset =
     (if offset + n \<le> length inp then Some (take n (drop offset inp), offset + n) else None)"

definition read_u8 :: "u8 list \<Rightarrow> nat \<Rightarrow> (u8 \<times> nat) option" where
  "read_u8 inp offset = do { (bs, offset') \<leftarrow> read_field 1 inp offset; Some (hd bs, offset') }"

definition read_u64 :: "endian \<Rightarrow> u8 list \<Rightarrow> nat \<Rightarrow> (u64 \<times> nat) option" where
  "read_u64 en inp offset = do {
     (bs, offset') \<leftarrow> read_field 8 inp offset;
     Some (of_nat (host_value en bs), offset')
   }"


section \<open>Bytes and values\<close>

lemma length_be_bytes [simp]: "length (be_bytes n v) = n"
  by (induction n arbitrary: v) auto

lemma length_host_bytes [simp]: "length (host_bytes en n v) = n"
  by (cases en) (auto simp: host_bytes_def)

lemma be_value_Nil [simp]: "be_value [] = 0"
  by (simp add: be_value_def)

lemma be_value_snoc [simp]: "be_value (bs @ [b]) = be_value bs * 256 + unat b"
  by (simp add: be_value_def)

lemma be_value_be_bytes: "be_value (be_bytes n v) = v mod 256 ^ n"
proof (induction n arbitrary: v)
  case (Suc n)
  have "v mod (256 * 256 ^ n) = 256 * (v div 256 mod 256 ^ n) + v mod 256"
    by (rule mod_mult2_eq)
  then show ?case using Suc by (simp add: unat_of_nat take_bit_eq_mod)
qed simp

lemma be_value_less: "be_value bs < 256 ^ length bs"
proof (induction bs rule: rev_induct)
  case (snoc b bs)
  have "unat b < 256" using unsigned_less [of b, where ?'a = nat] by simp
  then show ?case using snoc by simp
qed simp

lemma be_bytes_be_value [simp]: "be_bytes (length bs) (be_value bs) = bs"
proof (induction bs rule: rev_induct)
  case (snoc b bs)
  have "unat b < 256" using unsigned_less [of b, where ?'a = nat] by simp
  then have "(be_value bs * 256 + unat b) div 256 = be_value bs" by simp
  moreover have "of_nat (be_value bs * 256 + unat b) = b"
  proof -
    have "(256 :: u8) = 0" by code_simp
    then have "(of_nat (be_value bs * 256) :: u8) = 0" by (simp only: of_nat_mult of_nat_numeral mult_zero_right)
    then show ?thesis by simp
  qed
  ultimately show ?case using snoc by simp
qed simp

lemma be_bytes_8_value: "length bs = 8 \<Longrightarrow> be_bytes 8 (be_value bs) = bs"
  using be_bytes_be_value [of bs] by simp

lemma unat_of_be_value:
  assumes "length bs = 8"
  shows "unat (of_nat (be_value bs) :: u64) = be_value bs"
  using be_value_less [of bs] assms by (simp add: unat_of_nat take_bit_eq_mod)

lemma of_nat_be_bytes [simp]: "(of_nat (be_value (be_bytes 8 (unat w))) :: u64) = w" for w :: u64
  using unsigned_less [of w, where ?'a = nat] by (simp add: be_value_be_bytes)

lemma be_bytes_of_value: "length bs = 8 \<Longrightarrow> be_bytes 8 (unat (of_nat (be_value bs) :: u64)) = bs"
  by (simp add: unat_of_be_value be_bytes_8_value)

lemma host_bytes_to_network [simp]: "host_bytes en 8 (unat (to_network en w)) = be_bytes 8 (unat w)" for w :: u64
proof (cases en)
  case LittleEndian
  have "be_bytes 8 (unat (byteswap w)) = rev (be_bytes 8 (unat w))"
    using be_bytes_of_value [of "rev (be_bytes 8 (unat w))"] by (simp add: byteswap_def)
  then show ?thesis using LittleEndian by (simp add: host_bytes_def to_network_def)
qed (simp add: host_bytes_def to_network_def)

lemma from_network_host_value:
  assumes "length bs = 8"
  shows "from_network en (of_nat (host_value en bs) :: u64) = of_nat (be_value bs)"
proof (cases en)
  case LittleEndian
  have "be_bytes 8 (unat (of_nat (be_value (rev bs)) :: u64)) = rev bs"
    using assms by (intro be_bytes_of_value) simp
  then show ?thesis using LittleEndian by (simp add: host_value_def from_network_def byteswap_def)
qed (simp add: host_value_def from_network_def)

lemma from_to_network: "from_network en (to_network en w) = w" for w :: u64
proof (cases en)
  case LittleEndian
  have "be_bytes 8 (unat (byteswap w)) = rev (be_bytes 8 (unat w))"
    using be_bytes_of_value [of "rev (be_bytes 8 (unat w))"] by (simp add: byteswap_def)
  then show ?thesis using LittleEndian by (simp add: from_network_def to_network_def byteswap_def [of "byteswap w"])
qed (simp add: from_network_def to_network_def)


section \<open>Sequences of fields\<close>

text \<open>
  Writing fields one behind the other is writing their concatenation, and fails exactly when
  that does not fit.
\<close>

fun write_all :: "u8 list \<Rightarrow> nat \<Rightarrow> u8 list list \<Rightarrow> (nat \<times> u8 list) option" where
  "write_all out offset [] = Some (offset, out)"
| "write_all out offset (bs # bss) = do {
     (out, offset) \<leftarrow> write_field out offset bs;
     write_all out offset bss
   }"

lemma write_all_eval:
  assumes "offset = length d"
  shows "write_all (d @ r) offset bss =
    (if length (concat bss) \<le> length r
     then Some (offset + length (concat bss), d @ concat bss @ drop (length (concat bss)) r)
     else None)"
  using assms
proof (induction bss arbitrary: d r offset)
  case (Cons bs bss)
  show ?case
  proof (cases "length bs \<le> length r")
    case True
    then have "write_field (d @ r) offset bs = Some ((d @ bs) @ drop (length bs) r, offset + length bs)"
      using Cons(2) by (simp add: write_field_def)
    then show ?thesis
      using True Cons(1) [of "offset + length bs" "d @ bs" "drop (length bs) r"] Cons(2)
      by (auto simp: add.commute)
  next
    case False
    then show ?thesis using Cons(2) by (simp add: write_field_def)
  qed
qed simp

lemma write_all_0:
  "write_all out 0 bss =
    (if length (concat bss) \<le> length out
     then Some (length (concat bss), concat bss @ drop (length (concat bss)) out)
     else None)"
  using write_all_eval [of 0 "[]" out bss] by simp

lemma list_split:
  assumes "n \<le> length xs"
  obtains as bs where "xs = as @ bs" and "length as = n"
  using assms by (metis append_take_drop_id length_take min.absorb2)

end
