(* ===== verification/Binary_Codec.thy ===== *)
theory Binary_Codec
  imports Core_Types Byte_Order
begin

text \<open>
  \<^verbatim>\<open>src/adapters/binary_protocol/Message.hpp\<close> and \<^verbatim>\<open>BinaryCodec.cpp\<close>: the fixed-size messages,
  their encoding into a caller's buffer and their decoding, field by field as the code does
  it. \<open>None\<close> from an encoder is a write outside the buffer; \<open>None\<close> inside the option of
  \<open>decode\<close> is \<open>std::nullopt\<close>.
\<close>

section \<open>Messages\<close>

datatype MessageType = LimitOrderAdd | MarketOrderAdd | Cancel | Ack | Reject | TradeNotification

fun type_byte :: "MessageType \<Rightarrow> u8" where
  "type_byte LimitOrderAdd = 1"
| "type_byte MarketOrderAdd = 2"
| "type_byte Cancel = 3"
| "type_byte Ack = 4"
| "type_byte Reject = 5"
| "type_byte TradeNotification = 6"

record LimitOrderAddMsg =
  la_type :: MessageType
  la_side :: u8
  la_client_id :: ClientId
  la_order_id :: OrderId
  la_price :: Price
  la_quantity :: Quantity

record MarketOrderAddMsg =
  ma_type :: MessageType
  ma_side :: u8
  ma_client_id :: ClientId
  ma_order_id :: OrderId
  ma_quantity :: Quantity

record CancelMsg =
  cm_type :: MessageType
  cm_padding :: u8
  cm_client_id :: ClientId
  cm_order_id :: OrderId

record AckMsg =
  ak_type :: MessageType
  ak_padding :: u8
  ak_order_id :: OrderId
  ak_remaining_qty :: Quantity

record RejectMsg =
  rj_type :: MessageType
  rj_reason_code :: u8
  rj_order_id :: OrderId

record TradeNotificationMsg =
  tn_type :: MessageType
  tn_padding :: u8
  tn_buy_order_id :: OrderId
  tn_sell_order_id :: OrderId
  tn_price :: Price
  tn_quantity :: Quantity
  tn_trade_sequence :: TradeSequence

datatype AnyMessage =
    MsgLimit LimitOrderAddMsg
  | MsgMarket MarketOrderAddMsg
  | MsgCancel CancelMsg
  | MsgAck AckMsg
  | MsgReject RejectMsg
  | MsgTrade TradeNotificationMsg

definition kLimitOrderAddWireSize :: nat where "kLimitOrderAddWireSize = 34"
definition kMarketOrderAddWireSize :: nat where "kMarketOrderAddWireSize = 26"
definition kCancelWireSize :: nat where "kCancelWireSize = 18"
definition kAckWireSize :: nat where "kAckWireSize = 18"
definition kRejectWireSize :: nat where "kRejectWireSize = 10"
definition kTradeNotificationWireSize :: nat where "kTradeNotificationWireSize = 42"
definition kMaxMessageWireSize :: nat where "kMaxMessageWireSize = kTradeNotificationWireSize"

lemmas wire_size_defs = kLimitOrderAddWireSize_def kMarketOrderAddWireSize_def kCancelWireSize_def
  kAckWireSize_def kRejectWireSize_def kTradeNotificationWireSize_def kMaxMessageWireSize_def


section \<open>Encoding\<close>

definition encode_limit :: "endian \<Rightarrow> LimitOrderAddMsg \<Rightarrow> u8 list \<Rightarrow> (nat \<times> u8 list) option" where
  "encode_limit en msg out = do {
     (out, offset) \<leftarrow> write_u8 out 0 (type_byte (la_type msg));
     (out, offset) \<leftarrow> write_u8 out offset (la_side msg);
     (out, offset) \<leftarrow> write_u64 en out offset (to_network en (cid (la_client_id msg)));
     (out, offset) \<leftarrow> write_u64 en out offset (to_network en (oid (la_order_id msg)));
     (out, offset) \<leftarrow> write_u64 en out offset (to_network en (price_value (la_price msg)));
     (out, offset) \<leftarrow> write_u64 en out offset (to_network en (qty_value (la_quantity msg)));
     Some (offset, out)
   }"

definition encode_market :: "endian \<Rightarrow> MarketOrderAddMsg \<Rightarrow> u8 list \<Rightarrow> (nat \<times> u8 list) option" where
  "encode_market en msg out = do {
     (out, offset) \<leftarrow> write_u8 out 0 (type_byte (ma_type msg));
     (out, offset) \<leftarrow> write_u8 out offset (ma_side msg);
     (out, offset) \<leftarrow> write_u64 en out offset (to_network en (cid (ma_client_id msg)));
     (out, offset) \<leftarrow> write_u64 en out offset (to_network en (oid (ma_order_id msg)));
     (out, offset) \<leftarrow> write_u64 en out offset (to_network en (qty_value (ma_quantity msg)));
     Some (offset, out)
   }"

definition encode_cancel :: "endian \<Rightarrow> CancelMsg \<Rightarrow> u8 list \<Rightarrow> (nat \<times> u8 list) option" where
  "encode_cancel en msg out = do {
     (out, offset) \<leftarrow> write_u8 out 0 (type_byte (cm_type msg));
     (out, offset) \<leftarrow> write_u8 out offset (cm_padding msg);
     (out, offset) \<leftarrow> write_u64 en out offset (to_network en (cid (cm_client_id msg)));
     (out, offset) \<leftarrow> write_u64 en out offset (to_network en (oid (cm_order_id msg)));
     Some (offset, out)
   }"

definition encode_ack :: "endian \<Rightarrow> AckMsg \<Rightarrow> u8 list \<Rightarrow> (nat \<times> u8 list) option" where
  "encode_ack en msg out = do {
     (out, offset) \<leftarrow> write_u8 out 0 (type_byte (ak_type msg));
     (out, offset) \<leftarrow> write_u8 out offset (ak_padding msg);
     (out, offset) \<leftarrow> write_u64 en out offset (to_network en (oid (ak_order_id msg)));
     (out, offset) \<leftarrow> write_u64 en out offset (to_network en (qty_value (ak_remaining_qty msg)));
     Some (offset, out)
   }"

definition encode_reject :: "endian \<Rightarrow> RejectMsg \<Rightarrow> u8 list \<Rightarrow> (nat \<times> u8 list) option" where
  "encode_reject en msg out = do {
     (out, offset) \<leftarrow> write_u8 out 0 (type_byte (rj_type msg));
     (out, offset) \<leftarrow> write_u8 out offset (rj_reason_code msg);
     (out, offset) \<leftarrow> write_u64 en out offset (to_network en (oid (rj_order_id msg)));
     Some (offset, out)
   }"

definition encode_trade :: "endian \<Rightarrow> TradeNotificationMsg \<Rightarrow> u8 list \<Rightarrow> (nat \<times> u8 list) option" where
  "encode_trade en msg out = do {
     (out, offset) \<leftarrow> write_u8 out 0 (type_byte (tn_type msg));
     (out, offset) \<leftarrow> write_u8 out offset (tn_padding msg);
     (out, offset) \<leftarrow> write_u64 en out offset (to_network en (oid (tn_buy_order_id msg)));
     (out, offset) \<leftarrow> write_u64 en out offset (to_network en (oid (tn_sell_order_id msg)));
     (out, offset) \<leftarrow> write_u64 en out offset (to_network en (price_value (tn_price msg)));
     (out, offset) \<leftarrow> write_u64 en out offset (to_network en (qty_value (tn_quantity msg)));
     (out, offset) \<leftarrow> write_u64 en out offset (to_network en (tseq_value (tn_trade_sequence msg)));
     Some (offset, out)
   }"

fun encode :: "endian \<Rightarrow> AnyMessage \<Rightarrow> u8 list \<Rightarrow> (nat \<times> u8 list) option" where
  "encode en (MsgLimit m) out = encode_limit en m out"
| "encode en (MsgMarket m) out = encode_market en m out"
| "encode en (MsgCancel m) out = encode_cancel en m out"
| "encode en (MsgAck m) out = encode_ack en m out"
| "encode en (MsgReject m) out = encode_reject en m out"
| "encode en (MsgTrade m) out = encode_trade en m out"


section \<open>Decoding\<close>

text \<open>
  The arms of the \<open>switch\<close> in \<open>decode\<close>. Each has checked the length of its input, so a read
  outside the buffer (\<open>None\<close> of \<open>read_u8\<close> and \<open>read_u64\<close>) would be undefined behaviour; the
  outer option of \<open>decode\<close> is that.
\<close>

definition decode_limit :: "endian \<Rightarrow> u8 list \<Rightarrow> AnyMessage option" where
  "decode_limit en inp = do {
     (_, offset) \<leftarrow> read_u8 inp 0;
     (side, offset) \<leftarrow> read_u8 inp offset;
     (client_id_val, offset) \<leftarrow> read_u64 en inp offset;
     (order_id_val, offset) \<leftarrow> read_u64 en inp offset;
     (price_val, offset) \<leftarrow> read_u64 en inp offset;
     (qty_val, offset) \<leftarrow> read_u64 en inp offset;
     Some (MsgLimit \<lparr>la_type = LimitOrderAdd, la_side = side,
       la_client_id = ClientId (from_network en client_id_val),
       la_order_id = OrderId (from_network en order_id_val),
       la_price = Price (from_network en price_val),
       la_quantity = Quantity (from_network en qty_val)\<rparr>)
   }"

definition decode_market :: "endian \<Rightarrow> u8 list \<Rightarrow> AnyMessage option" where
  "decode_market en inp = do {
     (_, offset) \<leftarrow> read_u8 inp 0;
     (side, offset) \<leftarrow> read_u8 inp offset;
     (client_id_val, offset) \<leftarrow> read_u64 en inp offset;
     (order_id_val, offset) \<leftarrow> read_u64 en inp offset;
     (qty_val, offset) \<leftarrow> read_u64 en inp offset;
     Some (MsgMarket \<lparr>ma_type = MarketOrderAdd, ma_side = side,
       ma_client_id = ClientId (from_network en client_id_val),
       ma_order_id = OrderId (from_network en order_id_val),
       ma_quantity = Quantity (from_network en qty_val)\<rparr>)
   }"

definition decode_cancel :: "endian \<Rightarrow> u8 list \<Rightarrow> AnyMessage option" where
  "decode_cancel en inp = do {
     (_, offset) \<leftarrow> read_u8 inp 0;
     (padding, offset) \<leftarrow> read_u8 inp offset;
     (client_id_val, offset) \<leftarrow> read_u64 en inp offset;
     (order_id_val, offset) \<leftarrow> read_u64 en inp offset;
     Some (MsgCancel \<lparr>cm_type = Cancel, cm_padding = padding,
       cm_client_id = ClientId (from_network en client_id_val),
       cm_order_id = OrderId (from_network en order_id_val)\<rparr>)
   }"

definition decode_ack :: "endian \<Rightarrow> u8 list \<Rightarrow> AnyMessage option" where
  "decode_ack en inp = do {
     (_, offset) \<leftarrow> read_u8 inp 0;
     (padding, offset) \<leftarrow> read_u8 inp offset;
     (order_id_val, offset) \<leftarrow> read_u64 en inp offset;
     (qty_val, offset) \<leftarrow> read_u64 en inp offset;
     Some (MsgAck \<lparr>ak_type = Ack, ak_padding = padding,
       ak_order_id = OrderId (from_network en order_id_val),
       ak_remaining_qty = Quantity (from_network en qty_val)\<rparr>)
   }"

definition decode_reject :: "endian \<Rightarrow> u8 list \<Rightarrow> AnyMessage option" where
  "decode_reject en inp = do {
     (_, offset) \<leftarrow> read_u8 inp 0;
     (reason_code, offset) \<leftarrow> read_u8 inp offset;
     (order_id_val, offset) \<leftarrow> read_u64 en inp offset;
     Some (MsgReject \<lparr>rj_type = Reject, rj_reason_code = reason_code,
       rj_order_id = OrderId (from_network en order_id_val)\<rparr>)
   }"

definition decode_trade :: "endian \<Rightarrow> u8 list \<Rightarrow> AnyMessage option" where
  "decode_trade en inp = do {
     (_, offset) \<leftarrow> read_u8 inp 0;
     (padding, offset) \<leftarrow> read_u8 inp offset;
     (buy_id_val, offset) \<leftarrow> read_u64 en inp offset;
     (sell_id_val, offset) \<leftarrow> read_u64 en inp offset;
     (price_val, offset) \<leftarrow> read_u64 en inp offset;
     (qty_val, offset) \<leftarrow> read_u64 en inp offset;
     (trade_seq_val, offset) \<leftarrow> read_u64 en inp offset;
     Some (MsgTrade \<lparr>tn_type = TradeNotification, tn_padding = padding,
       tn_buy_order_id = OrderId (from_network en buy_id_val),
       tn_sell_order_id = OrderId (from_network en sell_id_val),
       tn_price = Price (from_network en price_val),
       tn_quantity = Quantity (from_network en qty_val),
       tn_trade_sequence = TradeSequence (from_network en trade_seq_val)\<rparr>)
   }"

text \<open>The arm taken after the length check: \<open>std::nullopt\<close> when the input is too short.\<close>

definition sized :: "nat \<Rightarrow> (u8 list \<Rightarrow> AnyMessage option) \<Rightarrow> u8 list \<Rightarrow> AnyMessage option option" where
  "sized n arm inp = (if length inp < n then Some None else map_option Some (arm inp))"

definition decode :: "endian \<Rightarrow> u8 list \<Rightarrow> AnyMessage option option" where
  "decode en inp =
     (case inp of
        [] \<Rightarrow> Some None
      | t # _ \<Rightarrow>
          if t = type_byte LimitOrderAdd then sized kLimitOrderAddWireSize (decode_limit en) inp
          else if t = type_byte MarketOrderAdd then sized kMarketOrderAddWireSize (decode_market en) inp
          else if t = type_byte Cancel then sized kCancelWireSize (decode_cancel en) inp
          else if t = type_byte Ack then sized kAckWireSize (decode_ack en) inp
          else if t = type_byte Reject then sized kRejectWireSize (decode_reject en) inp
          else if t = type_byte TradeNotification then sized kTradeNotificationWireSize (decode_trade en) inp
          else Some None)"


section \<open>The wire format\<close>

text \<open>
  The layout the comments of \<^verbatim>\<open>Message.hpp\<close> give: every field in network byte order, one after
  the other, without reference to the host.
\<close>

definition u64_wire :: "u64 \<Rightarrow> u8 list" where
  "u64_wire w = be_bytes 8 (unat w)"

fun wire :: "AnyMessage \<Rightarrow> u8 list" where
  "wire (MsgLimit m) = [type_byte (la_type m), la_side m] @ u64_wire (cid (la_client_id m)) @
     u64_wire (oid (la_order_id m)) @ u64_wire (price_value (la_price m)) @ u64_wire (qty_value (la_quantity m))"
| "wire (MsgMarket m) = [type_byte (ma_type m), ma_side m] @ u64_wire (cid (ma_client_id m)) @
     u64_wire (oid (ma_order_id m)) @ u64_wire (qty_value (ma_quantity m))"
| "wire (MsgCancel m) = [type_byte (cm_type m), cm_padding m] @ u64_wire (cid (cm_client_id m)) @
     u64_wire (oid (cm_order_id m))"
| "wire (MsgAck m) = [type_byte (ak_type m), ak_padding m] @ u64_wire (oid (ak_order_id m)) @
     u64_wire (qty_value (ak_remaining_qty m))"
| "wire (MsgReject m) = [type_byte (rj_type m), rj_reason_code m] @ u64_wire (oid (rj_order_id m))"
| "wire (MsgTrade m) = [type_byte (tn_type m), tn_padding m] @ u64_wire (oid (tn_buy_order_id m)) @
     u64_wire (oid (tn_sell_order_id m)) @ u64_wire (price_value (tn_price m)) @
     u64_wire (qty_value (tn_quantity m)) @ u64_wire (tseq_value (tn_trade_sequence m))"

text \<open>The \<open>type\<close> member is the one of the alternative, as its default initialiser makes it.\<close>

fun typed :: "AnyMessage \<Rightarrow> bool" where
  "typed (MsgLimit m) \<longleftrightarrow> la_type m = LimitOrderAdd"
| "typed (MsgMarket m) \<longleftrightarrow> ma_type m = MarketOrderAdd"
| "typed (MsgCancel m) \<longleftrightarrow> cm_type m = Cancel"
| "typed (MsgAck m) \<longleftrightarrow> ak_type m = Ack"
| "typed (MsgReject m) \<longleftrightarrow> rj_type m = Reject"
| "typed (MsgTrade m) \<longleftrightarrow> tn_type m = TradeNotification"

fun wire_size :: "AnyMessage \<Rightarrow> nat" where
  "wire_size (MsgLimit m) = kLimitOrderAddWireSize"
| "wire_size (MsgMarket m) = kMarketOrderAddWireSize"
| "wire_size (MsgCancel m) = kCancelWireSize"
| "wire_size (MsgAck m) = kAckWireSize"
| "wire_size (MsgReject m) = kRejectWireSize"
| "wire_size (MsgTrade m) = kTradeNotificationWireSize"

lemma length_u64_wire [simp]: "length (u64_wire w) = 8"
  by (simp add: u64_wire_def)

lemma length_wire [simp]: "length (wire msg) = wire_size msg"
  by (cases msg) (simp_all add: wire_size_defs)


section \<open>The encoder writes the wire format\<close>

lemmas encode_defs = encode_limit_def encode_market_def encode_cancel_def encode_ack_def
  encode_reject_def encode_trade_def
lemmas decode_defs = decode_limit_def decode_market_def decode_cancel_def decode_ack_def
  decode_reject_def decode_trade_def

fun fields :: "AnyMessage \<Rightarrow> u8 list list" where
  "fields (MsgLimit m) = [[type_byte (la_type m)], [la_side m], u64_wire (cid (la_client_id m)),
     u64_wire (oid (la_order_id m)), u64_wire (price_value (la_price m)), u64_wire (qty_value (la_quantity m))]"
| "fields (MsgMarket m) = [[type_byte (ma_type m)], [ma_side m], u64_wire (cid (ma_client_id m)),
     u64_wire (oid (ma_order_id m)), u64_wire (qty_value (ma_quantity m))]"
| "fields (MsgCancel m) = [[type_byte (cm_type m)], [cm_padding m], u64_wire (cid (cm_client_id m)),
     u64_wire (oid (cm_order_id m))]"
| "fields (MsgAck m) = [[type_byte (ak_type m)], [ak_padding m], u64_wire (oid (ak_order_id m)),
     u64_wire (qty_value (ak_remaining_qty m))]"
| "fields (MsgReject m) = [[type_byte (rj_type m)], [rj_reason_code m], u64_wire (oid (rj_order_id m))]"
| "fields (MsgTrade m) = [[type_byte (tn_type m)], [tn_padding m], u64_wire (oid (tn_buy_order_id m)),
     u64_wire (oid (tn_sell_order_id m)), u64_wire (price_value (tn_price m)),
     u64_wire (qty_value (tn_quantity m)), u64_wire (tseq_value (tn_trade_sequence m))]"

lemma concat_fields: "concat (fields msg) = wire msg"
  by (cases msg) simp_all

lemma encode_fields: "encode en msg out = write_all out 0 (fields msg)"
  by (cases msg) (simp_all add: encode_defs write_u8_def write_u64_def u64_wire_def)

lemma encode_wire:
  "encode en msg out =
    (if wire_size msg \<le> length out then Some (wire_size msg, wire msg @ drop (wire_size msg) out) else None)"
  unfolding encode_fields write_all_0 concat_fields length_wire ..


section \<open>The decoder reads it\<close>

definition of_wire :: "u8 list \<Rightarrow> u64" where
  "of_wire bs = of_nat (be_value bs)"

lemma of_wire_u64_wire [simp]: "of_wire (u64_wire w) = w"
  by (simp add: of_wire_def u64_wire_def)

lemma u64_wire_of_wire [simp]: "length bs = 8 \<Longrightarrow> u64_wire (of_wire bs) = bs"
  by (simp add: of_wire_def u64_wire_def be_bytes_of_value)

lemma from_network_of_wire [simp]:
  "length bs = 8 \<Longrightarrow> from_network en (of_nat (host_value en bs)) = of_wire bs"
  by (simp add: from_network_host_value of_wire_def)

lemma type_byte_neq [simp]: "type_byte s = type_byte t \<longleftrightarrow> s = t"
  by (cases s; cases t; simp)

lemmas read_simps = read_u8_def read_u64_def read_field_def

lemma decode_limit_eval:
  assumes "length a = 8" "length b = 8" "length c = 8" "length d = 8"
  shows "decode_limit en (t # s # a @ b @ c @ d @ r) =
    Some (MsgLimit \<lparr>la_type = LimitOrderAdd, la_side = s, la_client_id = ClientId (of_wire a),
      la_order_id = OrderId (of_wire b), la_price = Price (of_wire c), la_quantity = Quantity (of_wire d)\<rparr>)"
  using assms by (simp add: decode_limit_def read_simps)

lemma decode_market_eval:
  assumes "length a = 8" "length b = 8" "length c = 8"
  shows "decode_market en (t # s # a @ b @ c @ r) =
    Some (MsgMarket \<lparr>ma_type = MarketOrderAdd, ma_side = s, ma_client_id = ClientId (of_wire a),
      ma_order_id = OrderId (of_wire b), ma_quantity = Quantity (of_wire c)\<rparr>)"
  using assms by (simp add: decode_market_def read_simps)

lemma decode_cancel_eval:
  assumes "length a = 8" "length b = 8"
  shows "decode_cancel en (t # s # a @ b @ r) =
    Some (MsgCancel \<lparr>cm_type = Cancel, cm_padding = s, cm_client_id = ClientId (of_wire a),
      cm_order_id = OrderId (of_wire b)\<rparr>)"
  using assms by (simp add: decode_cancel_def read_simps)

lemma decode_ack_eval:
  assumes "length a = 8" "length b = 8"
  shows "decode_ack en (t # s # a @ b @ r) =
    Some (MsgAck \<lparr>ak_type = Ack, ak_padding = s, ak_order_id = OrderId (of_wire a),
      ak_remaining_qty = Quantity (of_wire b)\<rparr>)"
  using assms by (simp add: decode_ack_def read_simps)

lemma decode_reject_eval:
  assumes "length a = 8"
  shows "decode_reject en (t # s # a @ r) =
    Some (MsgReject \<lparr>rj_type = Reject, rj_reason_code = s, rj_order_id = OrderId (of_wire a)\<rparr>)"
  using assms by (simp add: decode_reject_def read_simps)

lemma decode_trade_eval:
  assumes "length a = 8" "length b = 8" "length c = 8" "length d = 8" "length e = 8"
  shows "decode_trade en (t # s # a @ b @ c @ d @ e @ r) =
    Some (MsgTrade \<lparr>tn_type = TradeNotification, tn_padding = s, tn_buy_order_id = OrderId (of_wire a),
      tn_sell_order_id = OrderId (of_wire b), tn_price = Price (of_wire c),
      tn_quantity = Quantity (of_wire d), tn_trade_sequence = TradeSequence (of_wire e)\<rparr>)"
  using assms by (simp add: decode_trade_def read_simps)

lemmas decode_evals = decode_limit_eval decode_market_eval decode_cancel_eval decode_ack_eval
  decode_reject_eval decode_trade_eval

lemma decode_wire:
  assumes "typed msg"
  shows "decode en (wire msg @ r) = Some (Some msg)"
  using assms
  by (cases msg) (simp_all del: type_byte.simps add: decode_def sized_def wire_size_defs decode_evals)

text \<open>A buffer of at least \<open>2 + 8 * n\<close> bytes is two bytes and \<open>n\<close> words.\<close>

fun words_of :: "nat \<Rightarrow> u8 list \<Rightarrow> u8 list list" where
  "words_of 0 bs = []"
| "words_of (Suc n) bs = take 8 bs # words_of n (drop 8 bs)"

lemma words_of_concat: "8 * n \<le> length bs \<Longrightarrow> bs = concat (words_of n bs) @ drop (8 * n) bs"
proof (induction n arbitrary: bs)
  case (Suc n)
  have "drop 8 bs = concat (words_of n (drop 8 bs)) @ drop (8 * n) (drop 8 bs)"
    using Suc(2) by (intro Suc(1)) simp
  then have "take 8 bs @ drop 8 bs = take 8 bs @ concat (words_of n (drop 8 bs)) @ drop (8 * n) (drop 8 bs)"
    by (rule arg_cong)
  then show ?case by (simp add: add.commute)
qed simp

lemma words_of_length: "8 * n \<le> length bs \<Longrightarrow> w \<in> set (words_of n bs) \<Longrightarrow> length w = 8"
proof (induction n arbitrary: bs)
  case (Suc n)
  then show ?case using Suc(1) [of "drop 8 bs"] by auto
qed simp

lemma header_split:
  assumes "2 + 8 * n \<le> length inp"
  obtains t s r where "inp = t # s # concat (words_of n (drop 2 inp)) @ r"
    and "\<And>w. w \<in> set (words_of n (drop 2 inp)) \<Longrightarrow> length w = 8"
proof -
  obtain t s bs where inp: "inp = t # s # bs"
    using assms by (cases inp; cases "tl inp") auto
  have "8 * n \<le> length bs" using assms inp by simp
  then show thesis
    using that [of t s "drop (8 * n) bs"] words_of_concat [of n bs] words_of_length [of n bs] inp by simp
qed

text \<open>With enough bytes every arm reads a message whose wire format is what it read.\<close>

lemmas arm_simps = wire_size_defs decode_evals eval_nat_numeral

lemma arm_limit:
  assumes "34 \<le> length inp" and "hd inp = type_byte LimitOrderAdd"
  shows "\<exists>msg r. decode_limit en inp = Some msg \<and> typed msg \<and> inp = wire msg @ r"
proof -
  obtain t s r where inp: "inp = t # s # concat (words_of 4 (drop 2 inp)) @ r"
    and l: "\<And>w. w \<in> set (words_of 4 (drop 2 inp)) \<Longrightarrow> length w = 8"
    by (rule header_split [of 4 inp]) (use assms in simp, rule that)
  obtain a b c d where w: "words_of 4 (drop 2 inp) = [a, b, c, d]" by (simp add: eval_nat_numeral)
  have len: "length a = 8" "length b = 8" "length c = 8" "length d = 8" using l unfolding w by auto
  have "inp = t # s # a @ b @ c @ d @ r" using inp unfolding w by simp
  then show ?thesis using decode_limit_eval [OF len] assms(2) len by (intro exI conjI) auto
qed

lemma arm_market:
  assumes "26 \<le> length inp" and "hd inp = type_byte MarketOrderAdd"
  shows "\<exists>msg r. decode_market en inp = Some msg \<and> typed msg \<and> inp = wire msg @ r"
proof -
  obtain t s r where inp: "inp = t # s # concat (words_of 3 (drop 2 inp)) @ r"
    and l: "\<And>w. w \<in> set (words_of 3 (drop 2 inp)) \<Longrightarrow> length w = 8"
    by (rule header_split [of 3 inp]) (use assms in simp, rule that)
  obtain a b c where w: "words_of 3 (drop 2 inp) = [a, b, c]" by (simp add: eval_nat_numeral)
  have len: "length a = 8" "length b = 8" "length c = 8" using l unfolding w by auto
  have "inp = t # s # a @ b @ c @ r" using inp unfolding w by simp
  then show ?thesis using decode_market_eval [OF len] assms(2) len by (intro exI conjI) auto
qed

lemma two_words:
  fixes inp :: "u8 list"
  assumes "18 \<le> length inp"
  obtains t s a b r where "inp = t # s # a @ b @ r" and "length a = 8" and "length b = 8"
proof -
  obtain t s r where inp: "inp = t # s # concat (words_of 2 (drop 2 inp)) @ r"
    and l: "\<And>w. w \<in> set (words_of 2 (drop 2 inp)) \<Longrightarrow> length w = 8"
    by (rule header_split [of 2 inp]) (use assms in simp, rule that)
  obtain a b where w: "words_of 2 (drop 2 inp) = [a, b]" by (simp add: eval_nat_numeral)
  show thesis using that [of t s a b r] inp l unfolding w by auto
qed

lemma arm_cancel:
  assumes "18 \<le> length inp" and "hd inp = type_byte Cancel"
  shows "\<exists>msg r. decode_cancel en inp = Some msg \<and> typed msg \<and> inp = wire msg @ r"
proof -
  obtain t s a b r where i: "inp = t # s # a @ b @ r" and len: "length a = 8" "length b = 8"
    by (rule two_words [OF assms(1)])
  then show ?thesis using decode_cancel_eval [OF len] assms(2) len by (intro exI conjI) auto
qed

lemma arm_ack:
  assumes "18 \<le> length inp" and "hd inp = type_byte Ack"
  shows "\<exists>msg r. decode_ack en inp = Some msg \<and> typed msg \<and> inp = wire msg @ r"
proof -
  obtain t s a b r where i: "inp = t # s # a @ b @ r" and len: "length a = 8" "length b = 8"
    by (rule two_words [OF assms(1)])
  then show ?thesis using decode_ack_eval [OF len] assms(2) len by (intro exI conjI) auto
qed

lemma one_word:
  fixes inp :: "u8 list"
  assumes "10 \<le> length inp"
  obtains t s a r where "inp = t # s # a @ r" and "length a = 8"
proof -
  obtain t s bs where "inp = t # s # bs" using assms by (cases inp; cases "tl inp") auto
  then show thesis using that [of t s "take 8 bs" "drop 8 bs"] assms by simp
qed

lemma arm_reject:
  assumes "10 \<le> length inp" and "hd inp = type_byte Reject"
  shows "\<exists>msg r. decode_reject en inp = Some msg \<and> typed msg \<and> inp = wire msg @ r"
proof -
  obtain t s a r where i: "inp = t # s # a @ r" and len: "length a = 8"
    by (rule one_word [OF assms(1)])
  then show ?thesis using decode_reject_eval [OF len] assms(2) len by (intro exI conjI) auto
qed

lemma arm_trade:
  assumes "42 \<le> length inp" and "hd inp = type_byte TradeNotification"
  shows "\<exists>msg r. decode_trade en inp = Some msg \<and> typed msg \<and> inp = wire msg @ r"
proof -
  obtain t s r where inp: "inp = t # s # concat (words_of 5 (drop 2 inp)) @ r"
    and l: "\<And>w. w \<in> set (words_of 5 (drop 2 inp)) \<Longrightarrow> length w = 8"
    by (rule header_split [of 5 inp]) (use assms in simp, rule that)
  obtain a b c d e where w: "words_of 5 (drop 2 inp) = [a, b, c, d, e]" by (simp add: eval_nat_numeral)
  have len: "length a = 8" "length b = 8" "length c = 8" "length d = 8" "length e = 8"
    using l unfolding w by auto
  have "inp = t # s # a @ b @ c @ d @ e @ r" using inp unfolding w by simp
  then show ?thesis using decode_trade_eval [OF len] assms(2) len by (intro exI conjI) auto
qed

text \<open>The size a type byte asks for; \<open>None\<close> for an unknown type.\<close>

definition expected_size :: "u8 \<Rightarrow> nat option" where
  "expected_size t = map_of (map (\<lambda>(ty, n). (type_byte ty, n))
     [(LimitOrderAdd, kLimitOrderAddWireSize), (MarketOrderAdd, kMarketOrderAddWireSize),
      (Cancel, kCancelWireSize), (Ack, kAckWireSize), (Reject, kRejectWireSize),
      (TradeNotification, kTradeNotificationWireSize)]) t"

definition decodes :: "endian \<Rightarrow> u8 list \<Rightarrow> bool" where
  "decodes en inp \<longleftrightarrow> (\<exists>msg r. decode en inp = Some (Some msg) \<and> typed msg \<and> inp = wire msg @ r)"

lemma decode_arm:
  assumes "expected_size (hd inp) = Some n" and "decode en inp = sized n arm inp"
    and "n \<le> length inp \<Longrightarrow> \<exists>msg r. arm inp = Some msg \<and> typed msg \<and> inp = wire msg @ r"
  shows "if length inp < the (expected_size (hd inp)) then decode en inp = Some None else decodes en inp"
  using assms by (auto simp: sized_def decodes_def not_less)

lemma decode_cases:
  assumes "inp \<noteq> []" and "expected_size (hd inp) \<noteq> None"
  shows "if length inp < the (expected_size (hd inp)) then decode en inp = Some None else decodes en inp"
proof -
  note e = expected_size_def decode_def wire_size_defs
  obtain t rest where inp: "inp = t # rest" using assms(1) by (cases inp) auto
  have "\<exists>ty. t = type_byte ty" using assms(2) by (auto simp: inp expected_size_def simp del: type_byte.simps split: if_splits)
  then obtain ty where ty: "hd inp = type_byte ty" by (auto simp: inp)
  show ?thesis
  proof (cases ty)
    case LimitOrderAdd
    show ?thesis
      by (rule decode_arm [where arm = "decode_limit en" and n = 34, OF _ _ arm_limit])
        (use ty LimitOrderAdd inp in \<open>simp_all add: e del: type_byte.simps\<close>)
  next
    case MarketOrderAdd
    show ?thesis
      by (rule decode_arm [where arm = "decode_market en" and n = 26, OF _ _ arm_market])
        (use ty MarketOrderAdd inp in \<open>simp_all add: e del: type_byte.simps\<close>)
  next
    case Cancel
    show ?thesis
      by (rule decode_arm [where arm = "decode_cancel en" and n = 18, OF _ _ arm_cancel])
        (use ty Cancel inp in \<open>simp_all add: e del: type_byte.simps\<close>)
  next
    case Ack
    show ?thesis
      by (rule decode_arm [where arm = "decode_ack en" and n = 18, OF _ _ arm_ack])
        (use ty Ack inp in \<open>simp_all add: e del: type_byte.simps\<close>)
  next
    case Reject
    show ?thesis
      by (rule decode_arm [where arm = "decode_reject en" and n = 10, OF _ _ arm_reject])
        (use ty Reject inp in \<open>simp_all add: e del: type_byte.simps\<close>)
  next
    case TradeNotification
    show ?thesis
      by (rule decode_arm [where arm = "decode_trade en" and n = 42, OF _ _ arm_trade])
        (use ty TradeNotification inp in \<open>simp_all add: e del: type_byte.simps\<close>)
  qed
qed

lemma decode_unknown:
  assumes "inp = [] \<or> expected_size (hd inp) = None"
  shows "decode en inp = Some None"
  using assms by (cases inp) (auto simp: decode_def expected_size_def split: if_splits)


section \<open>Properties\<close>

text \<open>
  C21. Encoding and decoding are inverse on every message, between hosts of any byte order:
  into a buffer with room the encoder writes exactly the message's wire size, leaves the rest
  of the buffer alone, and decoding the buffer gives the message back, whatever follows it.
\<close>

theorem codec_roundtrip:
  assumes "typed msg" and "wire_size msg \<le> length out"
  shows "\<exists>out'. encode en msg out = Some (wire_size msg, out') \<and> length out' = length out \<and>
    drop (wire_size msg) out' = drop (wire_size msg) out \<and> decode en' out' = Some (Some msg)"
  using encode_wire [of en msg out] decode_wire [OF assms(1)] assms(2) by simp

definition demo_limit_msg :: AnyMessage where
  "demo_limit_msg = MsgLimit \<lparr>la_type = LimitOrderAdd, la_side = 1, la_client_id = ClientId 7,
     la_order_id = OrderId 258, la_price = Price (- 2), la_quantity = Quantity 1000\<rparr>"

lemma be_bytes_numeral: "be_bytes (numeral k) v = be_bytes (pred_numeral k) (v div 256) @ [of_nat v]"
  unfolding numeral_eq_Suc [of k] by (rule be_bytes.simps(2))

theorem codec_roundtrip_witness:
  "\<exists>out'. encode LittleEndian demo_limit_msg (replicate 42 0) = Some (34, out') \<and>
     decode BigEndian out' = Some (Some demo_limit_msg) \<and> take 8 (drop 10 out') = [0, 0, 0, 0, 0, 0, 1, 2]"
proof -
  have "\<exists>out'. encode LittleEndian demo_limit_msg (replicate 42 0) = Some (wire_size demo_limit_msg, out') \<and>
      length out' = length (replicate 42 (0 :: u8)) \<and>
      drop (wire_size demo_limit_msg) out' = drop (wire_size demo_limit_msg) (replicate 42 0) \<and>
      decode BigEndian out' = Some (Some demo_limit_msg)"
    by (rule codec_roundtrip) (simp_all add: demo_limit_msg_def wire_size_defs)
  moreover have "wire_size demo_limit_msg = 34" by (simp add: demo_limit_msg_def wire_size_defs)
  moreover have "take 8 (drop 10 (wire demo_limit_msg @ r)) = [0, 0, 0, 0, 0, 0, 1, 2]" for r
    by (simp add: demo_limit_msg_def u64_wire_def be_bytes_numeral)
  ultimately show ?thesis by (auto simp: encode_wire)
qed

text \<open>
  C22. The decoder never reads outside its input, answers \<open>nullopt\<close> exactly for an empty
  input, an unknown type byte or an input shorter than its type asks for, and otherwise gives
  a message whose type member is right and whose wire format is the front of the input.
\<close>

theorem decode_total:
  "(decode en inp = Some None \<and>
      (inp = [] \<or> expected_size (hd inp) = None \<or> length inp < the (expected_size (hd inp)))) \<or>
   (\<exists>msg. decode en inp = Some (Some msg) \<and> typed msg \<and> take (wire_size msg) inp = wire msg \<and>
      expected_size (hd inp) = Some (wire_size msg))"
proof (cases "inp = [] \<or> expected_size (hd inp) = None")
  case True
  then show ?thesis using decode_unknown [of inp en] by auto
next
  case False
  show ?thesis
  proof (cases "length inp < the (expected_size (hd inp))")
    case True
    then show ?thesis using decode_cases [of inp en] False by auto
  next
    case long: False
    then obtain msg r where m: "decode en inp = Some (Some msg)" "typed msg" "inp = wire msg @ r"
      using decode_cases [of inp en] False by (auto simp: decodes_def)
    have "hd inp = hd (wire msg)" using m(3) by (cases msg) auto
    then have "expected_size (hd inp) = Some (wire_size msg)"
      using m(2) by (cases msg) (simp_all del: type_byte.simps add: expected_size_def)
    then show ?thesis using m by auto
  qed
qed

end
