(* ===== verification/Gateway_Codec.thy ===== *)
theory Gateway_Codec
  imports Binary_Codec Text_Protocol
begin

text \<open>
  \<^verbatim>\<open>src/adapters/binary_protocol/GatewayCodec.cpp\<close>: requests from binary payloads and replies as
  binary payloads, with the signatures of the text protocol so that the server can use
  either. \<open>None\<close> is an access outside a buffer, which the lemmas below exclude.
\<close>

section \<open>Requests\<close>

definition wire_side :: "u8 \<Rightarrow> Side" where
  "wire_side b = (if b = 0 then Buy else Sell)"

fun request_of :: "AnyMessage \<Rightarrow> ParseResult" where
  "request_of (MsgLimit m) = ParsedLimit \<lparr>lo_id = la_order_id m, lo_side = wire_side (la_side m),
     lo_price = la_price m, lo_quantity = la_quantity m, lo_owner = ClientId 0\<rparr>"
| "request_of (MsgMarket m) = ParsedMarket \<lparr>mo_id = ma_order_id m, mo_side = wire_side (ma_side m),
     mo_quantity = ma_quantity m, mo_owner = ClientId 0\<rparr>"
| "request_of (MsgCancel m) = ParsedCancel \<lparr>cr_id = cm_order_id m\<rparr>"
| "request_of _ = ParseError ''binary decode failed: received server-to-client message type in request''"

definition parse_binary :: "endian \<Rightarrow> u8 list \<Rightarrow> ParseResult option" where
  "parse_binary en payload = do {
     decoded \<leftarrow> decode en payload;
     case decoded of
       None \<Rightarrow> Some (ParseError ''binary decode failed: invalid or truncated message'')
     | Some msg \<Rightarrow> Some (request_of msg)
   }"


section \<open>Replies\<close>

fun engine_result_to_reason_code :: "EngineResult \<Rightarrow> u8" where
  "engine_result_to_reason_code DuplicateOrderId = 1"
| "engine_result_to_reason_code UnknownOrderId = 2"
| "engine_result_to_reason_code InvalidQuantity = 3"
| "engine_result_to_reason_code InvalidPrice = 4"
| "engine_result_to_reason_code PoolExhausted = 5"
| "engine_result_to_reason_code SelfTradePrevented = 6"
| "engine_result_to_reason_code PriceOutOfBand = 7"
| "engine_result_to_reason_code QuantityTooLarge = 8"
| "engine_result_to_reason_code TickSizeMisaligned = 9"
| "engine_result_to_reason_code InternalError = 10"
| "engine_result_to_reason_code Accepted = 0"

definition encode_to_string :: "endian \<Rightarrow> AnyMessage \<Rightarrow> u8 list option" where
  "encode_to_string en msg = do {
     (written, buf) \<leftarrow> encode en msg (replicate kMaxMessageWireSize 0);
     Some (take written buf)
   }"

definition trade_message :: "Trade \<Rightarrow> AnyMessage" where
  "trade_message trade = MsgTrade \<lparr>tn_type = TradeNotification, tn_padding = 0,
     tn_buy_order_id = buy_order_id trade, tn_sell_order_id = sell_order_id trade,
     tn_price = t_price trade, tn_quantity = t_quantity trade, tn_trade_sequence = trade_sequence trade\<rparr>"

fun render_trades :: "endian \<Rightarrow> u8 list \<Rightarrow> Trade list \<Rightarrow> u8 list option" where
  "render_trades en result [] = Some result"
| "render_trades en result (trade # trs) = do {
     bs \<leftarrow> encode_to_string en (trade_message trade);
     render_trades en (result @ bs) trs
   }"

definition render_binary :: "endian \<Rightarrow> EngineResponse \<Rightarrow> u8 list option" where
  "render_binary en response =
     (if status response \<noteq> Accepted then
        encode_to_string en (MsgReject \<lparr>rj_type = Reject,
          rj_reason_code = engine_result_to_reason_code (status response), rj_order_id = r_order_id response\<rparr>)
      else do {
        ack \<leftarrow> encode_to_string en (MsgAck \<lparr>ak_type = Ack, ak_padding = 0,
          ak_order_id = r_order_id response, ak_remaining_qty = remaining_qty response\<rparr>);
        render_trades en ack (trades response)
      })"

definition render_binary_error :: "endian \<Rightarrow> string \<Rightarrow> u8 list option" where
  "render_binary_error en message = encode_to_string en (MsgReject \<lparr>rj_type = Reject,
     rj_reason_code = 6, rj_order_id = OrderId 0\<rparr>)"


section \<open>What is on the wire\<close>

lemma wire_size_le: "wire_size msg \<le> kMaxMessageWireSize"
  by (cases msg) (simp_all add: wire_size_defs)

lemma encode_to_string_wire [simp]: "encode_to_string en msg = Some (wire msg)"
  using wire_size_le [of msg] by (simp add: encode_to_string_def encode_wire)

lemma render_trades_wire: "render_trades en r trs = Some (r @ concat (map (wire \<circ> trade_message) trs))"
  by (induction trs arbitrary: r) auto

text \<open>The messages of a reply.\<close>

definition reply_messages :: "EngineResponse \<Rightarrow> AnyMessage list" where
  "reply_messages response =
     (if status response \<noteq> Accepted then
        [MsgReject \<lparr>rj_type = Reject,
          rj_reason_code = engine_result_to_reason_code (status response), rj_order_id = r_order_id response\<rparr>]
      else MsgAck \<lparr>ak_type = Ack, ak_padding = 0, ak_order_id = r_order_id response,
          ak_remaining_qty = remaining_qty response\<rparr> # map trade_message (trades response))"

text \<open>A client's loop over a reply: decode a message, continue behind it.\<close>

function decode_all :: "endian \<Rightarrow> u8 list \<Rightarrow> AnyMessage list option" where
  "decode_all en inp =
     (if inp = [] then Some []
      else case decode en inp of
        Some (Some msg) \<Rightarrow> map_option (\<lambda>ms. msg # ms) (decode_all en (drop (wire_size msg) inp))
      | _ \<Rightarrow> None)"
  by auto

lemma wire_size_pos: "0 < wire_size msg"
  by (cases msg) (simp_all add: wire_size_defs)

termination decode_all
  by (relation "measure (length \<circ> snd)") (use wire_size_pos in auto)

declare decode_all.simps [simp del]

lemma decode_all_wire:
  assumes "\<forall>msg \<in> set msgs. typed msg"
  shows "decode_all en (concat (map wire msgs)) = Some msgs"
  using assms
proof (induction msgs)
  case (Cons msg msgs)
  have "wire msg \<noteq> []" by (cases msg) simp_all
  then show ?case
    using Cons decode_wire [of msg en "concat (map wire msgs)"]
    by (simp add: decode_all.simps [of en "wire msg @ concat (map wire msgs)"])
qed (simp add: decode_all.simps)

lemma reply_typed: "\<forall>msg \<in> set (reply_messages response). typed msg"
  by (auto simp: reply_messages_def trade_message_def)

lemma render_binary_wire: "render_binary en response = Some (concat (map wire (reply_messages response)))"
  by (simp add: render_binary_def reply_messages_def render_trades_wire)


section \<open>Properties\<close>


text \<open>The binary message of a command.\<close>

fun side_byte :: "Side \<Rightarrow> u8" where
  "side_byte Buy = 0"
| "side_byte Sell = 1"

fun command_message :: "ClientId \<Rightarrow> EngineCommand \<Rightarrow> AnyMessage" where
  "command_message c (CmdLimit lo) = MsgLimit \<lparr>la_type = LimitOrderAdd, la_side = side_byte (lo_side lo),
     la_client_id = c, la_order_id = lo_id lo, la_price = lo_price lo, la_quantity = lo_quantity lo\<rparr>"
| "command_message c (CmdMarket mo) = MsgMarket \<lparr>ma_type = MarketOrderAdd, ma_side = side_byte (mo_side mo),
     ma_client_id = c, ma_order_id = mo_id mo, ma_quantity = mo_quantity mo\<rparr>"
| "command_message c (CmdCancel cr) = MsgCancel \<lparr>cm_type = Cancel, cm_padding = 0,
     cm_client_id = c, cm_order_id = cr_id cr\<rparr>"

lemma wire_side_byte [simp]: "wire_side (side_byte s) = s"
  by (cases s) (simp_all add: wire_side_def)

lemma request_of_command: "request_of (command_message c cmd) = parsed cmd"
  by (cases cmd) simp_all

text \<open>
  C24. The two request protocols are equivalent and complete: every command, with any 64-bit
  id, price and quantity, is what the parsers make of its text line and of its binary
  message, whatever the client's host and whatever follows the message.
\<close>

theorem protocols_agree:
  "text_parse (command_line c) = parsed c \<and>
   parse_binary en (wire (command_message client c) @ rest) = Some (parsed c)"
proof -
  have "typed (command_message client c)" by (cases c) simp_all
  then show ?thesis
    using decode_wire [of "command_message client c" en rest]
    by (simp add: parse_binary_def request_of_command text_parse_command)
qed

text \<open>
  The size of an accepted reply grows with its trades: more than 97 of them do not fit the
  frame limit of the transport.
\<close>

lemma reply_length:
  assumes "status response = Accepted" and "render_binary en response = Some payload"
  shows "length payload = 18 + 42 * length (trades response)"
proof -
  have "length (concat (map (wire \<circ> trade_message) trs)) = 42 * length trs" for trs
    by (induction trs) (simp_all add: trade_message_def wire_size_defs)
  then show ?thesis
    using assms by (auto simp: render_binary_wire reply_messages_def wire_size_defs comp_def)
qed

end
