(* ===== verification/Tcp_Server.thy ===== *)
theory Tcp_Server
  imports Core_Types "HOL-Library.Sublist"
begin

text \<open>
  \<^verbatim>\<open>src/adapters/tcp\<close>: the connection table and the byte streams of the epoll server, and the
  length-prefix framing. System calls are answered by the environment: for each descriptor
  the server state holds the answers the kernel will give to the coming \<open>read\<close> and \<open>send\<close>
  calls, and a call without a listed answer would block. The bytes the kernel has taken are
  logged. Creating the sockets and waiting for events are not modelled; an event is an
  argument.
\<close>

section \<open>Framing (framing.hpp)\<close>

type_synonym bytes = "u8 list"

definition kMaxFrameSize :: u32 where
  "kMaxFrameSize = 4096"

definition frame_message :: "bytes \<Rightarrow> bytes" where
  "frame_message payload =
     (let len = (of_nat (length payload) :: u32)
      in [ucast (drop_bit 24 len), ucast (drop_bit 16 len), ucast (drop_bit 8 len), ucast len] @
         take (unat len) payload)"

text \<open>The length prefix as \<open>handle_read\<close> decodes it.\<close>

definition prefix_length :: "bytes \<Rightarrow> u32" where
  "prefix_length p =
     or (or (or (push_bit 24 (ucast (p ! 0))) (push_bit 16 (ucast (p ! 1)))) (push_bit 8 (ucast (p ! 2))))
        (ucast (p ! 3))"


section \<open>State\<close>

record Connection =
  c_fd :: int
  c_id :: ClientId
  read_buffer :: bytes
  write_buffer :: bytes

text \<open>The answers of the kernel. A read of no bytes is the end of the stream.\<close>

datatype read_answer = ReadData bytes | ReadWouldBlock | ReadInterrupted | ReadFailed
datatype send_answer = Sent nat | SendWouldBlock | SendInterrupted | SendFailed

record TcpServer =
  max_write_buffer_bytes :: nat
  next_client_id :: u64
  connections :: "int \<Rightarrow> Connection option"
  client_to_fd :: "ClientId \<Rightarrow> int option"
  epollout :: "int \<Rightarrow> bool"
  reads :: "int \<Rightarrow> read_answer list"
  sends :: "int \<Rightarrow> send_answer list"
  transmitted :: "(ClientId \<times> bytes) list"

definition TcpServer_init :: "nat \<Rightarrow> TcpServer" where
  "TcpServer_init cap = \<lparr>max_write_buffer_bytes = cap, next_client_id = 1, connections = (\<lambda>_. None),
     client_to_fd = (\<lambda>_. None), epollout = (\<lambda>_. False), reads = (\<lambda>_. []), sends = (\<lambda>_. []),
     transmitted = []\<rparr>"

definition kDefaultMaxWriteBufferBytes :: nat where
  "kDefaultMaxWriteBufferBytes = 1048576"


section \<open>Connections\<close>

definition close_connection :: "int \<Rightarrow> TcpServer \<Rightarrow> TcpServer" where
  "close_connection fd s =
     (case connections s fd of
        None \<Rightarrow> s
      | Some conn \<Rightarrow> s\<lparr>client_to_fd := (client_to_fd s)(c_id conn := None),
          connections := (connections s)(fd := None)\<rparr>)"

text \<open>
  The answers to one pass of the accept loop: a new descriptor with the results of
  \<open>setsockopt\<close> and \<open>epoll_ctl\<close>, an interrupted call, or any other error, which ends the loop
  as \<open>EAGAIN\<close> does.
\<close>

datatype accept_answer = Accept int bool bool | AcceptInterrupted | AcceptFailed

definition accept_client :: "int \<Rightarrow> bool \<Rightarrow> bool \<Rightarrow> TcpServer \<Rightarrow> TcpServer" where
  "accept_client fd nodelay registered s =
     (if \<not> nodelay then s
      else
        let client = ClientId (next_client_id s);
            conn = \<lparr>c_fd = fd, c_id = client, read_buffer = [], write_buffer = []\<rparr>;
            s1 = s\<lparr>next_client_id := next_client_id s + 1\<rparr>;
            s2 = s1\<lparr>connections := (case connections s1 fd of
                None \<Rightarrow> (connections s1)(fd := Some conn) | Some _ \<Rightarrow> connections s1)\<rparr>;
            s3 = s2\<lparr>client_to_fd := (case client_to_fd s2 client of
                None \<Rightarrow> (client_to_fd s2)(client := Some fd) | Some _ \<Rightarrow> client_to_fd s2)\<rparr>
        in if registered then s3
           else s3\<lparr>client_to_fd := (client_to_fd s3)(client := None),
             connections := (connections s3)(fd := None)\<rparr>)"

fun handle_accept :: "accept_answer list \<Rightarrow> TcpServer \<Rightarrow> TcpServer" where
  "handle_accept [] s = s"
| "handle_accept (AcceptFailed # as) s = s"
| "handle_accept (AcceptInterrupted # as) s = handle_accept as s"
| "handle_accept (Accept fd nodelay registered # as) s = handle_accept as (accept_client fd nodelay registered s)"


section \<open>Writing\<close>

definition set_connection :: "int \<Rightarrow> Connection \<Rightarrow> TcpServer \<Rightarrow> TcpServer" where
  "set_connection fd conn s = s\<lparr>connections := (connections s)(fd := Some conn)\<rparr>"

definition arm_epollout :: "int \<Rightarrow> TcpServer \<Rightarrow> TcpServer" where
  "arm_epollout fd s = s\<lparr>epollout := (epollout s)(fd := True)\<rparr>"

definition disarm_epollout :: "int \<Rightarrow> TcpServer \<Rightarrow> TcpServer" where
  "disarm_epollout fd s = s\<lparr>epollout := (epollout s)(fd := False)\<rparr>"

text \<open>
  The loop of \<open>flush_write_buffer\<close>, by the answers to its \<open>send\<close> calls; the server keeps the
  answers that were not used.
\<close>

fun flush_loop :: "send_answer list \<Rightarrow> Connection \<Rightarrow> TcpServer \<Rightarrow> TcpServer" where
  "flush_loop as conn s =
     (if write_buffer conn = [] then
        disarm_epollout (c_fd conn) (s\<lparr>sends := (sends s)(c_fd conn := as)\<rparr>)
      else case as of
        [] \<Rightarrow> arm_epollout (c_fd conn) (s\<lparr>sends := (sends s)(c_fd conn := [])\<rparr>)
      | a # as' \<Rightarrow>
          (case a of
             Sent n \<Rightarrow>
               let conn' = conn\<lparr>write_buffer := drop n (write_buffer conn)\<rparr>
               in flush_loop as' conn' ((set_connection (c_fd conn) conn' s)
                    \<lparr>transmitted := transmitted s @ [(c_id conn, take n (write_buffer conn))]\<rparr>)
           | SendWouldBlock \<Rightarrow> arm_epollout (c_fd conn) (s\<lparr>sends := (sends s)(c_fd conn := as')\<rparr>)
           | SendInterrupted \<Rightarrow> flush_loop as' conn s
           | SendFailed \<Rightarrow> close_connection (c_fd conn) (s\<lparr>sends := (sends s)(c_fd conn := as')\<rparr>)))"

declare flush_loop.simps [simp del]

definition flush_write_buffer :: "Connection \<Rightarrow> TcpServer \<Rightarrow> TcpServer" where
  "flush_write_buffer conn s = flush_loop (sends s (c_fd conn)) conn s"

definition handle_write :: "int \<Rightarrow> TcpServer \<Rightarrow> TcpServer" where
  "handle_write fd s =
     (case connections s fd of
        None \<Rightarrow> s
      | Some conn \<Rightarrow> flush_write_buffer conn s)"

definition send_to_client :: "ClientId \<Rightarrow> bytes \<Rightarrow> TcpServer \<Rightarrow> TcpServer" where
  "send_to_client client data s =
     (case client_to_fd s client of
        None \<Rightarrow> s
      | Some fd \<Rightarrow>
          (case connections s fd of
             None \<Rightarrow> s
           | Some conn \<Rightarrow>
               let conn' = conn\<lparr>write_buffer := write_buffer conn @ data\<rparr>;
                   s' = set_connection fd conn' s
               in if max_write_buffer_bytes s' \<noteq> 0 \<and> length (write_buffer conn') > max_write_buffer_bytes s'
                  then close_connection fd s'
                  else flush_write_buffer conn' s'))"


section \<open>Reading\<close>

text \<open>The read loop: the buffer and the unused answers, or \<open>None\<close> when the connection is to be closed.\<close>

fun read_loop :: "read_answer list \<Rightarrow> bytes \<Rightarrow> (bytes \<times> read_answer list) option" where
  "read_loop [] buf = Some (buf, [])"
| "read_loop (ReadData bs # as) buf = (if bs = [] then None else read_loop as (buf @ bs))"
| "read_loop (ReadWouldBlock # as) buf = Some (buf, as)"
| "read_loop (ReadInterrupted # as) buf = read_loop as buf"
| "read_loop (ReadFailed # as) buf = None"

text \<open>
  The handler a frame is given to, with the state \<open>'w\<close> it acts on beside the server. The
  loop over the frames holds a reference to the connection across the call: \<open>None\<close> is its use
  after the handler has closed the connection.
\<close>

type_synonym 'w frame_handler = "ClientId \<Rightarrow> bytes \<Rightarrow> 'w \<times> TcpServer \<Rightarrow> ('w \<times> TcpServer) option"

partial_function (option) frame_loop :: "'w frame_handler \<Rightarrow> int \<Rightarrow> 'w \<times> TcpServer \<Rightarrow> ('w \<times> TcpServer) option" where
  "frame_loop handler fd ws =
     Option.bind (connections (snd ws) fd) (\<lambda>conn.
       if length (read_buffer conn) < 4 then Some ws
       else if prefix_length (read_buffer conn) > kMaxFrameSize then Some (fst ws, close_connection fd (snd ws))
       else if length (read_buffer conn) < 4 + unat (prefix_length (read_buffer conn)) then Some ws
       else
         Option.bind (handler (c_id conn)
             (take (unat (prefix_length (read_buffer conn))) (drop 4 (read_buffer conn))) ws) (\<lambda>ws'.
           Option.bind (connections (snd ws') fd) (\<lambda>conn'.
             frame_loop handler fd (fst ws', set_connection fd
               (conn'\<lparr>read_buffer := drop (4 + unat (prefix_length (read_buffer conn))) (read_buffer conn')\<rparr>) (snd ws')))))"

declare frame_loop.simps [code]

definition handle_read :: "'w frame_handler \<Rightarrow> int \<Rightarrow> 'w \<times> TcpServer \<Rightarrow> ('w \<times> TcpServer) option" where
  "handle_read handler fd ws =
     (case connections (snd ws) fd of
        None \<Rightarrow> Some ws
      | Some conn \<Rightarrow>
          (case read_loop (reads (snd ws) fd) (read_buffer conn) of
             None \<Rightarrow> Some (fst ws, close_connection fd (snd ws))
           | Some (buf, as) \<Rightarrow>
               frame_loop handler fd (fst ws, set_connection fd (conn\<lparr>read_buffer := buf\<rparr>)
                 ((snd ws)\<lparr>reads := (reads (snd ws))(fd := as)\<rparr>))))"

text \<open>The dispatch of one epoll event that is not for the listener or the eventfd.\<close>

record epoll_event =
  ev_fd :: int
  ev_hup :: bool
  ev_in :: bool
  ev_out :: bool

definition handle_event :: "'w frame_handler \<Rightarrow> epoll_event \<Rightarrow> 'w \<times> TcpServer \<Rightarrow> ('w \<times> TcpServer) option" where
  "handle_event handler ev ws =
     (if ev_hup ev then Some (fst ws, close_connection (ev_fd ev) (snd ws))
      else do {
        ws1 \<leftarrow> (if ev_in ev then handle_read handler (ev_fd ev) ws else Some ws);
        Some (if ev_out ev then (fst ws1, handle_write (ev_fd ev) (snd ws1)) else ws1)
      })"


section \<open>The connection table\<close>

text \<open>
  The two maps are inverse to each other, the ids in use are below the next id, and no
  backlog exceeds its bound.
\<close>

definition server_ok :: "TcpServer \<Rightarrow> bool" where
  "server_ok s \<longleftrightarrow>
     (\<forall>fd conn. connections s fd = Some conn \<longrightarrow>
        c_fd conn = fd \<and> client_to_fd s (c_id conn) = Some fd \<and> cid (c_id conn) < next_client_id s \<and>
        (max_write_buffer_bytes s \<noteq> 0 \<longrightarrow> length (write_buffer conn) \<le> max_write_buffer_bytes s)) \<and>
     (\<forall>c fd. client_to_fd s c = Some fd \<longrightarrow> (\<exists>conn. connections s fd = Some conn \<and> c_id conn = c))"

lemma server_okD:
  assumes "server_ok s" and "connections s fd = Some conn"
  shows "c_fd conn = fd" and "client_to_fd s (c_id conn) = Some fd" and "cid (c_id conn) < next_client_id s"
    and "max_write_buffer_bytes s \<noteq> 0 \<Longrightarrow> length (write_buffer conn) \<le> max_write_buffer_bytes s"
  using assms by (auto simp: server_ok_def)

lemma server_ok_client:
  assumes "server_ok s" and "client_to_fd s c = Some fd"
  obtains conn where "connections s fd = Some conn" and "c_id conn = c"
  using assms unfolding server_ok_def by blast

lemma server_okI:
  assumes "\<And>fd conn. connections s fd = Some conn \<Longrightarrow> c_fd conn = fd"
    and "\<And>fd conn. connections s fd = Some conn \<Longrightarrow> client_to_fd s (c_id conn) = Some fd"
    and "\<And>fd conn. connections s fd = Some conn \<Longrightarrow> cid (c_id conn) < next_client_id s"
    and "\<And>fd conn. connections s fd = Some conn \<Longrightarrow> max_write_buffer_bytes s \<noteq> 0 \<Longrightarrow>
      length (write_buffer conn) \<le> max_write_buffer_bytes s"
    and "\<And>c fd. client_to_fd s c = Some fd \<Longrightarrow> \<exists>conn. connections s fd = Some conn \<and> c_id conn = c"
  shows "server_ok s"
  using assms unfolding server_ok_def by blast

lemma init_ok: "server_ok (TcpServer_init cap)"
  by (simp add: server_ok_def TcpServer_init_def)

lemma server_ok_inj:
  assumes "server_ok s" and "connections s fd = Some conn" and "connections s fd' = Some conn'"
    and "c_id conn = c_id conn'"
  shows "fd = fd'"
  using server_okD(2) [OF assms(1,2)] server_okD(2) [OF assms(1,3)] assms(4) by simp

lemma close_ok:
  assumes "server_ok s"
  shows "server_ok (close_connection fd s)"
proof (cases "connections s fd")
  case (Some conn)
  then have eq: "close_connection fd s = s\<lparr>client_to_fd := (client_to_fd s)(c_id conn := None),
      connections := (connections s)(fd := None)\<rparr>"
    by (simp add: close_connection_def)
  have other: "fd' \<noteq> fd" "connections s fd' = Some conn'"
    if "((connections s)(fd := None)) fd' = Some conn'" for fd' conn'
    using that by (auto split: if_splits)
  show ?thesis unfolding eq
  proof (rule server_okI, goal_cases)
    case (2 fd' conn')
    then have "fd' \<noteq> fd" "connections s fd' = Some conn'" by (auto split: if_splits)
    then show ?case
      using server_ok_inj [OF assms Some] server_okD(2) [OF assms] by auto
  next
    case (5 c fd')
    then have c: "c \<noteq> c_id conn" "client_to_fd s c = Some fd'" by (auto split: if_splits)
    then obtain conn' where "connections s fd' = Some conn'" "c_id conn' = c"
      using server_ok_client [OF assms c(2)] by blast
    then show ?case using c(1) Some by auto
  qed (use server_okD [OF assms] in \<open>auto split: if_splits\<close>)
qed (use assms in \<open>simp add: close_connection_def\<close>)

text \<open>
  The kernel does not hand out a descriptor that is open, and the server does not live for
  \<open>2 ^ 64\<close> connections.
\<close>

fun accepts_fresh :: "accept_answer list \<Rightarrow> TcpServer \<Rightarrow> bool" where
  "accepts_fresh [] s \<longleftrightarrow> True"
| "accepts_fresh (AcceptFailed # as) s \<longleftrightarrow> True"
| "accepts_fresh (AcceptInterrupted # as) s \<longleftrightarrow> accepts_fresh as s"
| "accepts_fresh (Accept fd nodelay registered # as) s \<longleftrightarrow>
     connections s fd = None \<and> next_client_id s \<noteq> - 1 \<and> accepts_fresh as (accept_client fd nodelay registered s)"

lemma accept_client_ok:
  assumes ok: "server_ok s" and fresh: "connections s fd = None" and nw: "next_client_id s \<noteq> - 1"
  shows "server_ok (accept_client fd nodelay registered s)"
proof (cases "nodelay")
  case True
  let ?c = "ClientId (next_client_id s)"
  have nc: "client_to_fd s ?c = None"
  proof (cases "client_to_fd s ?c")
    case (Some fd')
    then obtain conn where "connections s fd' = Some conn" "c_id conn = ?c"
      using server_ok_client [OF ok] by blast
    then show ?thesis using server_okD(3) [OF ok, of fd' conn] by simp
  qed
  have nf: "client_to_fd s c \<noteq> Some fd" for c
    using server_ok_client [OF ok, of c fd] fresh by auto
  let ?conn = "\<lparr>c_fd = fd, c_id = ?c, read_buffer = [], write_buffer = []\<rparr>"
  have eq: "accept_client fd nodelay registered s = s\<lparr>next_client_id := next_client_id s + 1,
      connections := (connections s)(fd := if registered then Some ?conn else None),
      client_to_fd := (client_to_fd s)(?c := if registered then Some fd else None)\<rparr>"
    using True fresh nc by (simp add: accept_client_def Let_def)
  show ?thesis unfolding eq
  proof (rule server_okI, goal_cases)
    case (2 fd' conn')
    then show ?case
      using server_okD(2,3) [OF ok, of fd' conn'] by (auto split: if_splits)
  next
    case (3 fd' conn')
    then show ?case
      using server_okD(3) [OF ok, of fd' conn'] nw by (auto simp: less_Suc_word split: if_splits)
  next
    case (5 c fd')
    show ?case
    proof (cases "c = ?c")
      case True
      then show ?thesis using 5 by (auto split: if_splits)
    next
      case False
      then have "client_to_fd s c = Some fd'" using 5 by (auto split: if_splits)
      moreover from this nf have "fd' \<noteq> fd" by auto
      ultimately show ?thesis using server_ok_client [OF ok] by fastforce
    qed
  qed (use server_okD [OF ok] in \<open>auto split: if_splits\<close>)
qed (use ok in \<open>simp add: accept_client_def\<close>)

lemma handle_accept_ok: "server_ok s \<Longrightarrow> accepts_fresh as s \<Longrightarrow> server_ok (handle_accept as s)"
  by (induction as s rule: handle_accept.induct) (auto simp: accept_client_ok)


section \<open>The outgoing streams\<close>

text \<open>What the kernel has taken for a client, and what is on the way to it altogether.\<close>

definition stream :: "ClientId \<Rightarrow> TcpServer \<Rightarrow> bytes" where
  "stream c s = concat (map snd (filter (\<lambda>x. fst x = c) (transmitted s)))"

definition outgoing :: "ClientId \<Rightarrow> TcpServer \<Rightarrow> bytes option" where
  "outgoing c s =
     (case client_to_fd s c of
        None \<Rightarrow> None
      | Some fd \<Rightarrow> map_option (\<lambda>conn. stream c s @ write_buffer conn) (connections s fd))"

lemma stream_update [simp]:
  "stream c (s\<lparr>connections := m\<rparr>) = stream c s" "stream c (s\<lparr>client_to_fd := m'\<rparr>) = stream c s"
  "stream c (s\<lparr>sends := m''\<rparr>) = stream c s" "stream c (s\<lparr>epollout := f\<rparr>) = stream c s"
  by (simp_all add: stream_def)

lemma server_ok_update [simp]:
  "server_ok (s\<lparr>sends := m\<rparr>) = server_ok s" "server_ok (s\<lparr>epollout := f\<rparr>) = server_ok s"
  "server_ok (s\<lparr>transmitted := ts\<rparr>) = server_ok s" "server_ok (s\<lparr>reads := rs\<rparr>) = server_ok s"
  by (simp_all add: server_ok_def)

lemma set_connection_ok:
  assumes ok: "server_ok s" and c: "connections s fd = Some conn"
    and same: "c_fd conn' = c_fd conn" "c_id conn' = c_id conn"
    and bound: "max_write_buffer_bytes s \<noteq> 0 \<Longrightarrow> length (write_buffer conn') \<le> max_write_buffer_bytes s"
  shows "server_ok (set_connection fd conn' s)"
  unfolding set_connection_def
proof (rule server_okI, goal_cases)
  case (5 c fd')
  then show ?case using server_ok_client [OF ok, of c fd'] same(2) c by fastforce
qed (use server_okD [OF ok] server_okD [OF ok c] same bound in \<open>auto split: if_splits\<close>)

text \<open>What a flush may do: nothing but move bytes of this connection, or close it.\<close>

definition flushed :: "int \<Rightarrow> Connection \<Rightarrow> TcpServer \<Rightarrow> TcpServer \<Rightarrow> bool" where
  "flushed fd conn s r \<longleftrightarrow> server_ok r \<and>
     (\<forall>fd'. fd' \<noteq> fd \<longrightarrow> connections r fd' = connections s fd') \<and>
     (\<forall>c. c \<noteq> c_id conn \<longrightarrow> client_to_fd r c = client_to_fd s c \<and> stream c r = stream c s) \<and>
     max_write_buffer_bytes r = max_write_buffer_bytes s \<and> reads r = reads s \<and>
     (\<exists>b. stream (c_id conn) r @ b = stream (c_id conn) s @ write_buffer conn \<and>
        ((connections r fd = None \<and> client_to_fd r (c_id conn) = None) \<or>
         (connections r fd = Some (conn\<lparr>write_buffer := b\<rparr>) \<and> client_to_fd r (c_id conn) = Some fd)))"

lemma close_flushed:
  assumes "server_ok s" and "connections s fd = Some conn"
  shows "flushed fd conn s (close_connection fd s)"
  using assms close_ok [OF assms(1), of fd] by (simp add: flushed_def close_connection_def)

lemma flushed_refl:
  assumes "server_ok s" and "connections s fd = Some conn"
  shows "flushed fd conn s s"
  using assms server_okD(2) [OF assms] by (auto simp: flushed_def intro!: exI [of _ "write_buffer conn"])

lemma flushed_sends: "flushed fd conn s (r\<lparr>sends := m\<rparr>) = flushed fd conn s r"
  "flushed fd conn s (r\<lparr>epollout := f\<rparr>) = flushed fd conn s r"
  by (simp_all add: flushed_def)

lemma close_sends: "close_connection fd (s\<lparr>sends := m\<rparr>) = (close_connection fd s)\<lparr>sends := m\<rparr>"
  by (simp add: close_connection_def split: option.splits)

lemma flush_step:
  assumes ok: "server_ok s" and c: "connections s fd = Some conn"
    and conn': "conn' = conn\<lparr>write_buffer := drop n (write_buffer conn)\<rparr>"
    and s': "s' = (set_connection fd conn' s)\<lparr>transmitted := transmitted s @ [(c_id conn, take n (write_buffer conn))]\<rparr>"
  shows "server_ok s'" and "connections s' fd = Some conn'"
    and "flushed fd conn' s' r \<Longrightarrow> flushed fd conn s r"
proof -
  show "server_ok s'"
    unfolding s' server_ok_update using server_okD(4) [OF ok c]
    by (intro set_connection_ok [OF ok c]) (auto simp: conn')
  show "connections s' fd = Some conn'" by (simp add: s' set_connection_def)
  have st: "stream (c_id conn) s' = stream (c_id conn) s @ take n (write_buffer conn)"
    "stream c' s' = stream c' s" if "c' \<noteq> c_id conn" for c'
    using that by (simp_all add: s' stream_def set_connection_def)
  have "stream (c_id conn) s' @ write_buffer conn' = stream (c_id conn) s @ write_buffer conn"
    by (simp add: s' stream_def set_connection_def conn')
  moreover assume "flushed fd conn' s' r"
  ultimately show "flushed fd conn s r"
    using st(2) by (simp add: flushed_def s' set_connection_def conn')
qed

lemma flush_loop_flushed:
  assumes "server_ok s" and "connections s fd = Some conn"
  shows "flushed fd conn s (flush_loop as conn s)"
  using assms
proof (induction as arbitrary: conn s)
  case Nil
  note fd = server_okD(1) [OF Nil]
  show ?case
    using flushed_refl [OF Nil]
    by (simp add: flush_loop.simps fd disarm_epollout_def arm_epollout_def flushed_sends)
next
  case (Cons a as)
  note fd = server_okD(1) [OF Cons.prems]
  note same = flushed_refl [OF Cons.prems]
  show ?case
  proof (cases "write_buffer conn = []")
    case True
    then show ?thesis
      using same by (simp add: flush_loop.simps [of "a # as"] fd disarm_epollout_def flushed_sends)
  next
    case False
    show ?thesis
    proof (cases a)
      case (Sent n)
      let ?conn = "conn\<lparr>write_buffer := drop n (write_buffer conn)\<rparr>"
      let ?s = "(set_connection fd ?conn s)\<lparr>transmitted := transmitted s @ [(c_id conn, take n (write_buffer conn))]\<rparr>"
      have "flush_loop (a # as) conn s = flush_loop as ?conn ?s"
        unfolding Sent using False by (subst flush_loop.simps) (simp add: fd Let_def)
      moreover have "flushed fd conn s (flush_loop as ?conn ?s)"
        by (rule flush_step(3) [OF Cons.prems refl refl])
          (rule Cons.IH [OF flush_step(1,2) [OF Cons.prems refl refl]])
      ultimately show ?thesis by simp
    next
      case SendWouldBlock
      show ?thesis
        unfolding SendWouldBlock using False same
        by (subst flush_loop.simps) (simp add: fd arm_epollout_def flushed_sends)
    next
      case SendInterrupted
      show ?thesis
        unfolding SendInterrupted using False Cons.IH [OF Cons.prems]
        by (subst flush_loop.simps) simp
    next
      case SendFailed
      show ?thesis
        unfolding SendFailed using False close_flushed [OF Cons.prems]
        by (subst flush_loop.simps) (simp add: fd close_sends flushed_sends)
    qed
  qed
qed

lemma handle_write_ok:
  assumes "server_ok s"
  shows "server_ok (handle_write fd s)"
proof (cases "connections s fd")
  case (Some conn)
  then show ?thesis
    using flush_loop_flushed [OF assms Some]
    by (simp add: handle_write_def flush_write_buffer_def flushed_def)
qed (simp add: handle_write_def assms)

lemma flushed_outgoing:
  assumes ok: "server_ok s" and c: "connections s fd = Some conn" and fl: "flushed fd conn s r"
  shows "outgoing (c_id conn) r = None \<or> outgoing (c_id conn) r = Some (stream (c_id conn) s @ write_buffer conn)"
    and "c' \<noteq> c_id conn \<Longrightarrow> outgoing c' r = outgoing c' s"
    and "prefix (stream (c_id conn) r) (stream (c_id conn) s @ write_buffer conn)"
proof -
  show "prefix (stream (c_id conn) r) (stream (c_id conn) s @ write_buffer conn)"
    using fl by (auto simp: flushed_def prefix_def intro: sym)
  show "outgoing (c_id conn) r = None \<or> outgoing (c_id conn) r = Some (stream (c_id conn) s @ write_buffer conn)"
    using fl by (auto simp: flushed_def outgoing_def)
  assume c': "c' \<noteq> c_id conn"
  have "client_to_fd s c' \<noteq> Some fd"
    using server_ok_client [OF ok, of c' fd] c c' by auto
  then show "outgoing c' r = outgoing c' s"
    using fl c' by (auto simp: flushed_def outgoing_def split: option.splits)
qed

lemma close_set_connection:
  assumes "connections s fd = Some conn" and "c_id conn' = c_id conn"
  shows "close_connection fd (set_connection fd conn' s) = close_connection fd s"
  using assms by (simp add: close_connection_def set_connection_def)

lemma send_to_client_effect:
  fixes data c s
  assumes ok: "server_ok s" and out: "outgoing c s = Some out"
  defines "r \<equiv> send_to_client c data s"
  shows "server_ok r" and "outgoing c r = None \<or> outgoing c r = Some (out @ data)"
    and "prefix (stream c r) (out @ data)"
    and "c' \<noteq> c \<Longrightarrow> outgoing c' r = outgoing c' s \<and> stream c' r = stream c' s"
proof -
  obtain fd conn where fd: "client_to_fd s c = Some fd" and conn: "connections s fd = Some conn"
    and o: "out = stream c s @ write_buffer conn"
    using out by (auto simp: outgoing_def split: option.splits)
  have c: "c = c_id conn" using server_ok_client [OF ok fd] conn by auto
  define conn' where "conn' = conn\<lparr>write_buffer := write_buffer conn @ data\<rparr>"
  define s' where "s' = set_connection fd conn' s"
  have id': "c_id conn' = c" "c_fd conn' = fd" and m: "max_write_buffer_bytes s' = max_write_buffer_bytes s"
    using c server_okD(1) [OF ok conn] by (simp_all add: conn'_def s'_def set_connection_def)
  have r: "r = (if max_write_buffer_bytes s \<noteq> 0 \<and> length (write_buffer conn') > max_write_buffer_bytes s
      then close_connection fd s' else flush_loop (sends s' fd) conn' s')"
    using fd conn id' m
    by (simp add: r_def send_to_client_def flush_write_buffer_def s'_def conn'_def [symmetric] Let_def)
  have "server_ok r \<and> (outgoing c r = None \<or> outgoing c r = Some (out @ data)) \<and>
      prefix (stream c r) (out @ data) \<and> (c' \<noteq> c \<longrightarrow> outgoing c' r = outgoing c' s \<and> stream c' r = stream c' s)"
  proof (cases "max_write_buffer_bytes s \<noteq> 0 \<and> length (write_buffer conn') > max_write_buffer_bytes s")
    case True
    have closed: "r = close_connection fd s"
      using True r close_set_connection [OF conn, of conn'] id' c by (simp add: s'_def)
    then have "flushed fd conn s r" using close_flushed [OF ok conn] by simp
    moreover have "connections r fd = None" using closed conn by (simp add: close_connection_def)
    moreover have "client_to_fd r c = None" using closed conn c by (simp add: close_connection_def)
    moreover have "stream c r = stream c s" using closed by (simp add: close_connection_def split: option.splits)
    ultimately show ?thesis
      using flushed_outgoing(2) [OF ok conn, of r c'] c o by (simp add: flushed_def outgoing_def)
  next
    case False
    have ok': "server_ok s'"
      unfolding s'_def using False id' c server_okD(1) [OF ok conn] by (intro set_connection_ok [OF ok conn]) auto
    have conn'_at: "connections s' fd = Some conn'" by (simp add: s'_def set_connection_def)
    have fl: "flushed fd conn' s' r"
      unfolding r if_not_P [OF False] by (rule flush_loop_flushed [OF ok' conn'_at])
    have st: "stream x s' = stream x s" for x by (simp add: s'_def set_connection_def)
    have "outgoing x s' = outgoing x s" if "x \<noteq> c" for x
    proof -
      have "client_to_fd s x \<noteq> Some fd" using server_ok_client [OF ok, of x fd] conn c that by auto
      then show ?thesis by (auto simp: outgoing_def s'_def set_connection_def stream_def split: option.splits)
    qed
    then show ?thesis
      using flushed_outgoing(1) [OF ok' conn'_at fl] flushed_outgoing(2) [OF ok' conn'_at fl, of c']
        flushed_outgoing(3) [OF ok' conn'_at fl] fl id' st o
      by (simp add: flushed_def conn'_def)
  qed
  then show "server_ok r" and "outgoing c r = None \<or> outgoing c r = Some (out @ data)"
    and "prefix (stream c r) (out @ data)"
    and "c' \<noteq> c \<Longrightarrow> outgoing c' r = outgoing c' s \<and> stream c' r = stream c' s" by auto
qed

lemma send_to_client_gone:
  assumes "server_ok s" and "outgoing c s = None"
  shows "send_to_client c data s = s"
proof (cases "client_to_fd s c")
  case (Some fd)
  then show ?thesis
    using assms server_ok_client [OF assms(1) Some] by (auto simp: outgoing_def)
qed (simp add: send_to_client_def)

lemma send_to_client_ok: "server_ok s \<Longrightarrow> server_ok (send_to_client c data s)"
  by (cases "outgoing c s") (simp_all add: send_to_client_effect(1) send_to_client_gone)


text \<open>
  What the server does with responses over time: it is given data for a client, or told that a
  descriptor can be written. The kernel's answers are chosen anew each time.
\<close>

datatype out_event = Send ClientId bytes | Writable int

fun out_step :: "(int \<Rightarrow> send_answer list) \<times> out_event \<Rightarrow> TcpServer \<Rightarrow> TcpServer" where
  "out_step (answers, Send c data) s = send_to_client c data (s\<lparr>sends := answers\<rparr>)"
| "out_step (answers, Writable fd) s = handle_write fd (s\<lparr>sends := answers\<rparr>)"

fun sent_to :: "ClientId \<Rightarrow> (int \<Rightarrow> send_answer list) \<times> out_event \<Rightarrow> bytes" where
  "sent_to c (answers, Send c' data) = (if c' = c then data else [])"
| "sent_to c (answers, Writable fd) = []"

definition carries :: "ClientId \<Rightarrow> bytes \<Rightarrow> TcpServer \<Rightarrow> bool" where
  "carries c out s \<longleftrightarrow> prefix (stream c s) out \<and> (outgoing c s = None \<or> outgoing c s = Some out)"

lemma outgoing_sends [simp]: "outgoing c (s\<lparr>sends := m\<rparr>) = outgoing c s"
  by (simp add: outgoing_def split: option.splits)

lemma carries_sends [simp]: "carries c out (s\<lparr>sends := m\<rparr>) = carries c out s"
  by (simp add: carries_def)

lemma carriesI: "outgoing c s = Some out \<Longrightarrow> carries c out s"
  by (auto simp: carries_def outgoing_def split: option.splits)

lemma send_carries:
  assumes "server_ok s" and "carries c out s"
  shows "carries c (out @ (if c' = c then data else [])) (send_to_client c' data s)"
proof (cases "outgoing c' s")
  case None
  then have "send_to_client c' data s = s" using assms(1) by (intro send_to_client_gone)
  then show ?thesis using assms(2) None by (auto simp: carries_def)
next
  case (Some out')
  note eff = send_to_client_effect [OF assms(1) Some]
  show ?thesis
  proof (cases "c' = c")
    case True
    then have "out' = out" using assms(2) Some by (auto simp: carries_def)
    then show ?thesis using eff(2,3) [of data] True by (simp add: carries_def)
  next
    case False
    then show ?thesis using eff(4) [of c data] assms(2) by (auto simp: carries_def)
  qed
qed

lemma write_carries:
  assumes "server_ok s" and "carries c out s"
  shows "carries c out (handle_write fd s)"
proof (cases "connections s fd")
  case (Some conn)
  have fl: "flushed fd conn s (handle_write fd s)"
    using flush_loop_flushed [OF assms(1) Some] Some by (simp add: handle_write_def flush_write_buffer_def)
  show ?thesis
  proof (cases "c = c_id conn")
    case True
    have "outgoing c s = Some (stream c s @ write_buffer conn)"
      using server_okD(2) [OF assms(1) Some] Some True by (simp add: outgoing_def)
    then have "out = stream c s @ write_buffer conn" using assms(2) by (auto simp: carries_def)
    then show ?thesis using flushed_outgoing(1,3) [OF assms(1) Some fl] True by (simp add: carries_def)
  next
    case False
    then have "stream c (handle_write fd s) = stream c s" using fl by (simp add: flushed_def)
    then show ?thesis
      using flushed_outgoing(2) [OF assms(1) Some fl False] assms(2) by (simp add: carries_def)
  qed
qed (use assms in \<open>simp add: handle_write_def\<close>)

lemma out_step_carries:
  assumes "server_ok s" and "carries c out s"
  shows "server_ok (out_step ev s) \<and> carries c (out @ sent_to c ev) (out_step ev s)"
  using assms
  by (cases "(c, ev)" rule: sent_to.cases) (simp_all add: send_to_client_ok handle_write_ok send_carries write_carries)

lemma out_steps_carry:
  assumes "server_ok s" and "carries c out s"
  shows "server_ok (fold out_step evs s) \<and> carries c (out @ concat (map (sent_to c) evs)) (fold out_step evs s)"
  using assms
proof (induction evs arbitrary: s out)
  case (Cons ev evs)
  have "server_ok (out_step ev s)" "carries c (out @ sent_to c ev) (out_step ev s)"
    using out_step_carries [OF Cons.prems] by simp_all
  from Cons.IH [OF this] show ?case by simp
qed simp

text \<open>
  C27. Whatever the kernel answers, the bytes it has taken for a client are at every moment a
  prefix of the data given to \<open>send_to_client\<close> for that client, in order and without
  a gap, and what is not yet taken is in the client's write buffer, as long as the client has
  not been disconnected. Data for other clients does not disturb it.
\<close>

theorem responses_in_order:
  assumes "server_ok s" and "outgoing c s = Some out"
  shows "let s' = fold out_step evs s; given = out @ concat (map (sent_to c) evs)
    in server_ok s' \<and> prefix (stream c s') given \<and> (outgoing c s' = None \<or> outgoing c s' = Some given)"
  using out_steps_carry [OF assms(1) carriesI [OF assms(2)]] unfolding carries_def Let_def by blast

definition demo_server :: TcpServer where
  "demo_server = handle_accept [Accept 5 True True, AcceptInterrupted, Accept 6 True True, AcceptFailed]
     (TcpServer_init kDefaultMaxWriteBufferBytes)"

lemma demo_server_ok: "server_ok demo_server"
  unfolding demo_server_def
  by (rule handle_accept_ok [OF init_ok])
    (simp add: TcpServer_init_def accept_client_def Let_def)

lemma demo_server_connections: "connections demo_server 5 = Some \<lparr>c_fd = 5, c_id = ClientId 1, read_buffer = [], write_buffer = []\<rparr>"
  "client_to_fd demo_server (ClientId 1) = Some 5" "transmitted demo_server = []"
  by (simp_all add: demo_server_def TcpServer_init_def accept_client_def Let_def)

theorem responses_in_order_witness:
  "let evs = [(\<lambda>_. [Sent 2, SendWouldBlock], Send (ClientId 1) [1, 2, 3]), (\<lambda>_. [], Send (ClientId 2) [9]),
      (\<lambda>_. [SendInterrupted, Sent 1], Writable 5)]; s' = fold out_step evs demo_server
   in server_ok s' \<and> prefix (stream (ClientId 1) s') [1, 2, 3]"
proof -
  have "outgoing (ClientId 1) demo_server = Some []"
    by (simp add: outgoing_def stream_def demo_server_connections)
  from responses_in_order [OF demo_server_ok this, of "[(\<lambda>_. [Sent 2, SendWouldBlock], Send (ClientId 1) [1, 2, 3]),
      (\<lambda>_. [], Send (ClientId 2) [9]), (\<lambda>_. [SendInterrupted, Sent 1], Writable 5)]"]
  show ?thesis by (simp del: out_step.simps fold_simps add: Let_def)
qed


section \<open>The incoming streams\<close>

lemma prefix_frame:
  assumes "length p < 2 ^ 32"
  shows "prefix_length (frame_message p @ r) = of_nat (length p)"
    and "frame_message p = take 4 (frame_message p) @ p" and "length (frame_message p) = 4 + length p"
proof -
  let ?n = "of_nat (length p) :: u32"
  have n: "unat ?n = length p" using assms by (simp add: unat_of_nat take_bit_eq_mod)
  have f: "frame_message p = [ucast (drop_bit 24 ?n), ucast (drop_bit 16 ?n), ucast (drop_bit 8 ?n), ucast ?n] @ p"
    using n by (simp add: frame_message_def Let_def)
  show "prefix_length (frame_message p @ r) = ?n"
    unfolding f prefix_length_def
    by (rule bit_word_eqI) (auto simp: bit_simps)
  show "frame_message p = take 4 (frame_message p) @ p" and "length (frame_message p) = 4 + length p"
    unfolding f by simp_all
qed

definition frames :: "bytes list \<Rightarrow> bytes" where
  "frames ps = concat (map frame_message ps)"

lemma frames_simps [simp]: "frames [] = []" "frames (p # ps) = frame_message p @ frames ps"
  "frames (ps @ qs) = frames ps @ frames qs"
  by (simp_all add: frames_def)

text \<open>A buffer whose first frame is still to be completed.\<close>

definition incomplete :: "bytes \<Rightarrow> bool" where
  "incomplete b \<longleftrightarrow> length b < 4 \<or>
     (prefix_length b \<le> kMaxFrameSize \<and> length b < 4 + unat (prefix_length b))"

lemma prefix_length_append: "4 \<le> length b \<Longrightarrow> prefix_length (b @ c) = prefix_length b"
  by (cases b) (auto simp: prefix_length_def nth_append)

lemma drop_frame:
  assumes "length p \<le> 4096"
  shows "drop 4 (frame_message p) = p"
proof -
  have "frame_message p = take 4 (frame_message p) @ p" using assms prefix_frame(2) [of p] by simp
  then show ?thesis by (metis append_take_drop_id same_append_eq)
qed

lemma frame_size:
  assumes "length p \<le> 4096"
  shows "\<not> prefix_length (frame_message p @ r) > kMaxFrameSize" and "unat (prefix_length (frame_message p @ r)) = length p"
  using assms prefix_frame(1) [of p r]
  by (simp_all add: kMaxFrameSize_def word_less_nat_alt word_le_nat_alt unat_of_nat take_bit_eq_mod not_less)

lemma split_frames:
  assumes "b @ c = frames ps" and "\<forall>p \<in> set ps. length p \<le> 4096"
  obtains qs ps' r where "ps = qs @ ps'" and "b = frames qs @ r" and "incomplete r" and "r @ c = frames ps'"
  using assms
proof (induction ps arbitrary: b thesis)
  case Nil
  then show ?case by (intro Nil(1) [of "[]" "[]" "[]"]) (auto simp: incomplete_def)
next
  case (Cons p ps)
  have len: "length (frame_message p) = 4 + length p" "length p \<le> 4096"
    using Cons.prems prefix_frame(3) [of p] by auto
  show ?case
  proof (cases "length (frame_message p) \<le> length b")
    case True
    let ?n = "length (frame_message p)" and ?b' = "drop (length (frame_message p)) b"
    have e: "b @ c = frame_message p @ frames ps" using Cons.prems(2) by simp
    have "take ?n b = frame_message p" using arg_cong [OF e, of "take ?n"] True by simp
    then have b': "b = frame_message p @ ?b'" by (metis append_take_drop_id)
    have c': "?b' @ c = frames ps" using arg_cong [OF e, of "drop ?n"] True by simp
    have "\<forall>q \<in> set ps. length q \<le> 4096" using Cons.prems by simp
    then obtain qs ps' r where "ps = qs @ ps'" "?b' = frames qs @ r" "incomplete r" "r @ c = frames ps'"
      using Cons.IH [OF _ c'] by blast
    then show ?thesis using Cons.prems(1) [of "p # qs" ps' r] b' by simp
  next
    case False
    have "b @ c = frame_message p @ frames ps" using Cons.prems(2) by simp
    from arg_cong [OF this, of "take (length b)"] False have "b = take (length b) (frame_message p)" by simp
    then obtain x where x: "frame_message p = b @ x" by (metis append_take_drop_id)
    have "incomplete b"
    proof (cases "length b < 4")
      case b4: False
      have "prefix_length b = prefix_length (frame_message p @ [])"
        using b4 by (simp add: x prefix_length_append)
      then show ?thesis
        using frame_size [OF len(2), of "[]"] False len by (simp add: incomplete_def not_less)
    qed (simp add: incomplete_def)
    then show ?thesis using Cons.prems(1) [of "[]" "p # ps" b] Cons.prems(2) by simp
  qed
qed

text \<open>
  A handler that takes these payloads without touching the server: it moves its own state
  from \<open>w\<close> to \<open>w'\<close>.
\<close>

fun quietly :: "'w frame_handler \<Rightarrow> ClientId \<Rightarrow> bytes list \<Rightarrow> 'w \<Rightarrow> 'w \<Rightarrow> bool" where
  "quietly h c [] w w' \<longleftrightarrow> w' = w"
| "quietly h c (p # ps) w w' \<longleftrightarrow> (\<exists>w1. (\<forall>s. h c p (w, s) = Some (w1, s)) \<and> quietly h c ps w1 w')"

lemma quietly_append: "quietly h c (ps @ qs) w w' \<longleftrightarrow> (\<exists>w1. quietly h c ps w w1 \<and> quietly h c qs w1 w')"
  by (induction ps arbitrary: w) auto

lemma frame_loop_stop:
  assumes "connections s fd = Some conn" and "incomplete (read_buffer conn)"
  shows "frame_loop h fd (w, s) = Some (w, s)"
  using assms by (subst frame_loop.simps) (auto simp: incomplete_def)

lemma frame_loop_frame:
  assumes conn: "connections s fd = Some conn" and b: "read_buffer conn = frame_message p @ r"
    and p: "length p \<le> 4096" and h: "h (c_id conn) p (w, s) = Some (w', s')"
    and conn': "connections s' fd = Some conn'" "read_buffer conn' = read_buffer conn"
  shows "frame_loop h fd (w, s) = frame_loop h fd (w', set_connection fd (conn'\<lparr>read_buffer := r\<rparr>) s')"
proof -
  have len: "length (frame_message p) = 4 + length p" using p prefix_frame(3) [of p] by simp
  have "take (length p) (drop 4 (frame_message p @ r)) = p" using len drop_frame [OF p] by simp
  moreover have "drop (4 + length p) (frame_message p @ r) = r" using len by simp
  ultimately show ?thesis
    using conn conn' b h frame_size [OF p, of r] len by (subst frame_loop.simps) simp
qed

lemma frame_loop_frames:
  assumes "connections s fd = Some conn" and "read_buffer conn = frames ps @ r" and "incomplete r"
    and "\<forall>p \<in> set ps. length p \<le> 4096" and "quietly h (c_id conn) ps w w'"
  shows "frame_loop h fd (w, s) = Some (w', set_connection fd (conn\<lparr>read_buffer := r\<rparr>) s)"
  using assms
proof (induction ps arbitrary: s conn w)
  case Nil
  have "set_connection fd (conn\<lparr>read_buffer := r\<rparr>) s = s"
    using Nil(1,2) by (simp add: set_connection_def fun_upd_idem)
  then show ?case using Nil frame_loop_stop [of s fd conn h w] by simp
next
  case (Cons p ps)
  obtain w1 where w1: "\<And>s. h (c_id conn) p (w, s) = Some (w1, s)" "quietly h (c_id conn) ps w1 w'"
    using Cons.prems(5) by auto
  let ?conn = "conn\<lparr>read_buffer := frames ps @ r\<rparr>" and ?s = "set_connection fd (conn\<lparr>read_buffer := frames ps @ r\<rparr>) s"
  have "frame_loop h fd (w, s) = frame_loop h fd (w1, ?s)"
    using Cons.prems w1(1) [of s] by (intro frame_loop_frame [where p = p]) auto
  also have "\<dots> = Some (w', set_connection fd (?conn\<lparr>read_buffer := r\<rparr>) ?s)"
    using Cons.prems(3,4) w1(2) by (intro Cons.IH) (auto simp: set_connection_def)
  finally show ?case by (simp add: set_connection_def)
qed

text \<open>One event per list of answers; none of them ends the connection.\<close>

fun clean :: "read_answer list \<Rightarrow> bool" where
  "clean [] \<longleftrightarrow> True"
| "clean (ReadData bs # as) \<longleftrightarrow> bs \<noteq> [] \<and> clean as"
| "clean (ReadWouldBlock # as) \<longleftrightarrow> True"
| "clean (ReadInterrupted # as) \<longleftrightarrow> clean as"
| "clean (ReadFailed # as) \<longleftrightarrow> False"

fun received :: "read_answer list \<Rightarrow> bytes" where
  "received (ReadData bs # as) = bs @ received as"
| "received (ReadInterrupted # as) = received as"
| "received _ = []"

fun receive :: "'w frame_handler \<Rightarrow> int \<Rightarrow> read_answer list list \<Rightarrow> 'w \<times> TcpServer \<Rightarrow> ('w \<times> TcpServer) option" where
  "receive h fd [] ws = Some ws"
| "receive h fd (as # events) ws = do {
     ws' \<leftarrow> handle_read h fd (fst ws, (snd ws)\<lparr>reads := (reads (snd ws))(fd := as)\<rparr>);
     receive h fd events ws'
   }"

lemma read_loop_clean: "clean as \<Longrightarrow> \<exists>rest. read_loop as buf = Some (buf @ received as, rest)"
proof (induction as arbitrary: buf rule: clean.induct)
  case (2 bs as)
  then show ?case using 2(1) [of "buf @ bs"] by auto
qed auto

lemma handle_read_clean:
  assumes "connections s fd = Some conn" and "clean (reads s fd)"
  shows "\<exists>rest. handle_read h fd (w, s) =
    frame_loop h fd (w, set_connection fd (conn\<lparr>read_buffer := read_buffer conn @ received (reads s fd)\<rparr>)
      (s\<lparr>reads := (reads s)(fd := rest)\<rparr>))"
  using read_loop_clean [OF assms(2), of "read_buffer conn"] assms(1) by (auto simp: handle_read_def)

lemma receive_frames:
  assumes "connections s fd = Some conn" and "\<forall>as \<in> set events. clean as"
    and "read_buffer conn @ concat (map received events) = frames ps" and "\<forall>p \<in> set ps. length p \<le> 4096"
    and "incomplete (read_buffer conn)" and "quietly h (c_id conn) ps w w'"
  shows "\<exists>s'. receive h fd events (w, s) = Some (w', s') \<and> connections s' fd = Some (conn\<lparr>read_buffer := []\<rparr>)"
  using assms
proof (induction events arbitrary: s conn ps w)
  case Nil
  have "ps = []"
  proof (cases ps)
    case (Cons p qs)
    have len: "length p \<le> 4096" using Nil.prems(4) Cons by simp
    have b: "read_buffer conn = frame_message p @ frames qs" using Nil.prems(3) Cons by simp
    have "\<not> incomplete (read_buffer conn)"
      unfolding b incomplete_def using prefix_frame(3) [of p] frame_size [OF len, of "frames qs"] len by simp
    then show ?thesis using Nil.prems(5) by simp
  qed simp
  then have "read_buffer conn = []" "w' = w" using Nil.prems(3,6) by simp_all
  then show ?case using Nil.prems(1) by simp
next
  case (Cons as events)
  let ?s = "s\<lparr>reads := (reads s)(fd := as)\<rparr>"
  let ?b = "read_buffer conn @ received as"
  have "?b @ concat (map received events) = frames ps" using Cons.prems(3) by simp
  then obtain qs ps' r where q: "ps = qs @ ps'" "?b = frames qs @ r" "incomplete r"
    "r @ concat (map received events) = frames ps'"
    using Cons.prems(4) by (rule split_frames)
  obtain w1 where w1: "quietly h (c_id conn) qs w w1" "quietly h (c_id conn) ps' w1 w'"
    using Cons.prems(6) by (auto simp: q(1) quietly_append)
  obtain rest where "handle_read h fd (w, ?s) =
      frame_loop h fd (w, set_connection fd (conn\<lparr>read_buffer := ?b\<rparr>) (?s\<lparr>reads := (reads ?s)(fd := rest)\<rparr>))"
    using handle_read_clean [of ?s fd conn h w] Cons.prems(1,2) by auto
  also have "\<dots> = Some (w1, set_connection fd ((conn\<lparr>read_buffer := ?b\<rparr>)\<lparr>read_buffer := r\<rparr>)
      (set_connection fd (conn\<lparr>read_buffer := ?b\<rparr>) (?s\<lparr>reads := (reads ?s)(fd := rest)\<rparr>)))"
    using Cons.prems(4) q w1(1) by (intro frame_loop_frames [where ps = qs]) (auto simp: set_connection_def)
  finally obtain s1 where s1: "handle_read h fd (w, ?s) = Some (w1, s1)"
    "connections s1 fd = Some (conn\<lparr>read_buffer := r\<rparr>)"
    by (auto simp: set_connection_def)
  have "\<exists>s'. receive h fd events (w1, s1) = Some (w', s') \<and>
      connections s' fd = Some ((conn\<lparr>read_buffer := r\<rparr>)\<lparr>read_buffer := []\<rparr>)"
    using Cons.prems(2,4) q w1(2) by (intro Cons.IH [where ps = ps'] s1(2)) auto
  then show ?case using s1(1) by auto
qed


text \<open>The handler that only notes what it is given.\<close>

definition note_frame :: "(ClientId \<times> bytes) list frame_handler" where
  "note_frame c p = (\<lambda>(log, s). Some (log @ [(c, p)], s))"

lemma note_frame_quietly: "quietly note_frame c ps log (log @ map (\<lambda>p. (c, p)) ps)"
proof (induction ps arbitrary: log)
  case (Cons p ps)
  then show ?case using Cons.IH [of "log @ [(c, p)]"] by (auto simp: note_frame_def)
qed simp

text \<open>
  C26. However the kernel cuts a stream of framed payloads into reads and events, with
  interruptions in between, the handler is given exactly the payloads, in order and under the
  client's id, and the read buffer is empty at the end.
\<close>

theorem frames_reassembled:
  assumes "connections s fd = Some conn" and "read_buffer conn = []" and "\<forall>as \<in> set events. clean as"
    and "concat (map received events) = concat (map frame_message ps)"
    and "\<forall>p \<in> set ps. length p \<le> unat kMaxFrameSize"
  shows "\<exists>s'. receive note_frame fd events (log, s) = Some (log @ map (\<lambda>p. (c_id conn, p)) ps, s') \<and>
    connections s' fd = Some conn"
proof -
  have "\<exists>s'. receive note_frame fd events (log, s) = Some (log @ map (\<lambda>p. (c_id conn, p)) ps, s') \<and>
      connections s' fd = Some (conn\<lparr>read_buffer := []\<rparr>)"
  proof (rule receive_frames [OF assms(1,3) _ _ _ note_frame_quietly])
    show "read_buffer conn @ concat (map received events) = frames ps"
      using assms(2,4) by (simp add: frames_def)
    show "\<forall>p \<in> set ps. length p \<le> 4096" using assms(5) by (simp add: kMaxFrameSize_def)
    show "incomplete (read_buffer conn)" using assms(2) by (simp add: incomplete_def)
  qed
  moreover have "conn\<lparr>read_buffer := []\<rparr> = conn" using assms(2) by simp
  ultimately show ?thesis by simp
qed

theorem frames_reassembled_witness:
  "\<exists>s'. receive note_frame 5 [[ReadData [0, 0], ReadInterrupted, ReadData [0]], [ReadData [1, 7, 0, 0, 0], ReadWouldBlock],
       [ReadData [0]]] ([], demo_server) = Some ([(ClientId 1, [7]), (ClientId 1, [])], s')"
proof -
  have "concat (map received [[ReadData [0, 0], ReadInterrupted, ReadData [0]], [ReadData [1, 7, 0, 0, 0], ReadWouldBlock],
       [ReadData [0]]]) = concat (map frame_message [[7], []])"
    by (simp add: frame_message_def Let_def)
  from frames_reassembled [OF demo_server_connections(1) _ _ this, of "[]"]
  show ?thesis by (auto simp: kMaxFrameSize_def)
qed


section \<open>Handlers\<close>

text \<open>
  What the server relies on of its frame handler: it keeps the connection table well formed,
  and an invariant of the handler's own state.
\<close>

locale frame_handler =
  fixes handler :: "'w frame_handler" and inv :: "'w \<Rightarrow> bool"
  assumes keeps: "server_ok (snd ws) \<Longrightarrow> inv (fst ws) \<Longrightarrow> handler c p ws = Some ws' \<Longrightarrow>
    server_ok (snd ws') \<and> inv (fst ws')"
begin

lemma frame_loop_ok:
  assumes "frame_loop handler fd ws = Some ws'" and "server_ok (snd ws)" and "inv (fst ws)"
  shows "server_ok (snd ws') \<and> inv (fst ws')"
proof -
  let ?P = "\<lambda>h fd ws ws'. h = handler \<longrightarrow> server_ok (snd ws) \<and> inv (fst ws) \<longrightarrow> server_ok (snd ws') \<and> inv (fst ws')"
  have "?P handler fd ws ws'"
  proof (rule frame_loop.raw_induct [where P = ?P, OF _ assms(1)], intro impI)
    fix loop h fd ws ws'
    assume IH: "\<And>h fd ws ws'. loop h fd ws = Some ws' \<Longrightarrow> ?P h fd ws ws'"
      and run: "Option.bind (connections (snd ws) fd) (\<lambda>conn.
       if length (read_buffer conn) < 4 then Some ws
       else if prefix_length (read_buffer conn) > kMaxFrameSize then Some (fst ws, close_connection fd (snd ws))
       else if length (read_buffer conn) < 4 + unat (prefix_length (read_buffer conn)) then Some ws
       else
         Option.bind (h (c_id conn)
             (take (unat (prefix_length (read_buffer conn))) (drop 4 (read_buffer conn))) ws) (\<lambda>ws'.
           Option.bind (connections (snd ws') fd) (\<lambda>conn'.
             loop h fd (fst ws', set_connection fd
               (conn'\<lparr>read_buffer := drop (4 + unat (prefix_length (read_buffer conn))) (read_buffer conn')\<rparr>) (snd ws'))))) =
         Some ws'"
      and h: "h = handler" and ok: "server_ok (snd ws) \<and> inv (fst ws)"
    obtain conn where conn: "connections (snd ws) fd = Some conn" using run by (auto elim: bind_SomeE)
    let ?b = "read_buffer conn"
    have "ws' = ws \<or> ws' = (fst ws, close_connection fd (snd ws)) \<or>
        (\<exists>ws1 conn1 b. handler (c_id conn) (take (unat (prefix_length ?b)) (drop 4 ?b)) ws = Some ws1 \<and>
           connections (snd ws1) fd = Some conn1 \<and>
           loop h fd (fst ws1, set_connection fd (conn1\<lparr>read_buffer := b\<rparr>) (snd ws1)) = Some ws')"
      using run conn h by (auto split: if_splits elim!: bind_SomeE)
    then show "server_ok (snd ws') \<and> inv (fst ws')"
    proof (elim disjE exE conjE)
      fix ws1 conn1 b
      assume s: "handler (c_id conn) (take (unat (prefix_length ?b)) (drop 4 ?b)) ws = Some ws1"
        "connections (snd ws1) fd = Some conn1"
        "loop h fd (fst ws1, set_connection fd (conn1\<lparr>read_buffer := b\<rparr>) (snd ws1)) = Some ws'"
      have ok1: "server_ok (snd ws1)" "inv (fst ws1)" using keeps [OF _ _ s(1)] ok by auto
      have "server_ok (set_connection fd (conn1\<lparr>read_buffer := b\<rparr>) (snd ws1))"
        using server_okD(4) [OF ok1(1) s(2)] by (intro set_connection_ok [OF ok1(1) s(2)]) auto
      then show ?thesis using IH [OF s(3)] h ok1(2) by simp
    qed (use ok close_ok in auto)
  qed
  then show ?thesis using assms(2,3) by simp
qed

lemma handle_read_ok:
  assumes "handle_read handler fd ws = Some ws'" and ok: "server_ok (snd ws)" and w: "inv (fst ws)"
  shows "server_ok (snd ws') \<and> inv (fst ws')"
proof (cases "connections (snd ws) fd")
  case None
  then show ?thesis using assms by (simp add: handle_read_def)
next
  case c: (Some conn)
  show ?thesis
  proof (cases "read_loop (reads (snd ws) fd) (read_buffer conn)")
    case None
    then show ?thesis using assms c close_ok [OF ok] by (auto simp: handle_read_def)
  next
    case (Some p)
    obtain buf as where p: "p = (buf, as)" by (cases p)
    let ?s = "(snd ws)\<lparr>reads := (reads (snd ws))(fd := as)\<rparr>"
    have run: "frame_loop handler fd (fst ws, set_connection fd (conn\<lparr>read_buffer := buf\<rparr>) ?s) = Some ws'"
      using assms(1) unfolding handle_read_def c Some p option.case prod.case .
    have "server_ok (set_connection fd (conn\<lparr>read_buffer := buf\<rparr>) ?s)"
      by (rule set_connection_ok [of ?s fd conn]) (use ok c server_okD(4) [OF ok c] in simp_all)
    then show ?thesis using w by (intro frame_loop_ok [OF run]) (simp_all only: fst_conv snd_conv)
  qed
qed

lemma handle_event_ok:
  assumes "handle_event handler ev ws = Some ws'" and ok: "server_ok (snd ws)" and w: "inv (fst ws)"
  shows "server_ok (snd ws') \<and> inv (fst ws')"
proof (cases "ev_hup ev")
  case True
  then have "Some (fst ws, close_connection (ev_fd ev) (snd ws)) = Some ws'"
    using assms(1) unfolding handle_event_def by (simp only: if_True)
  then have "ws' = (fst ws, close_connection (ev_fd ev) (snd ws))" by (rule option.inject [THEN iffD1, THEN sym])
  then show ?thesis using close_ok [OF ok] w by (simp only: fst_conv snd_conv simp_thms)
next
  case False
  then have "Option.bind (if ev_in ev then handle_read handler (ev_fd ev) ws else Some ws)
      (\<lambda>ws1. Some (if ev_out ev then (fst ws1, handle_write (ev_fd ev) (snd ws1)) else ws1)) = Some ws'"
    using assms(1) by (simp only: handle_event_def if_False)
  then obtain ws1 where ws1: "(if ev_in ev then handle_read handler (ev_fd ev) ws else Some ws) = Some ws1"
    "(if ev_out ev then (fst ws1, handle_write (ev_fd ev) (snd ws1)) else ws1) = ws'"
    unfolding bind_eq_Some_conv option.inject by blast
  have ok1: "server_ok (snd ws1) \<and> inv (fst ws1)"
  proof (cases "ev_in ev")
    case True
    then have "handle_read handler (ev_fd ev) ws = Some ws1" using ws1(1) by (simp only: if_True)
    then show ?thesis using ok w by (rule handle_read_ok)
  next
    case False
    then have "ws = ws1" using ws1(1) by (simp only: if_False option.inject)
    then show ?thesis using ok w by (simp only: simp_thms)
  qed
  have "snd ws' = (if ev_out ev then handle_write (ev_fd ev) (snd ws1) else snd ws1)" and "fst ws' = fst ws1"
    using ws1(2) by (auto split: if_splits)
  then show ?thesis using ok1 handle_write_ok by auto
qed

end

end
