(* ===== verification/Exchange_Server.thy ===== *)
theory Exchange_Server
  imports Risk_Engine Spsc_Ring Gateway_Codec Tcp_Server
begin

text \<open>
  \<^verbatim>\<open>src/apps/exchange_server\<close>: the two threads of the server and what connects them. The I/O
  thread runs the epoll loop of the TCP server with the frame handler and the drain handler
  of \<^verbatim>\<open>main.cpp\<close>; the engine thread runs the engine loop. They share the two rings, the eventfd
  and the shutdown flags. A step of a thread is the code between two accesses to what is
  shared; an operation of a ring is one access, which \<^verbatim>\<open>Spsc_Ring\<close> justifies. The engine
  behind the port is an argument whose calls may throw.
\<close>

section \<open>Command line (main.cpp)\<close>

definition c_isspace :: "char \<Rightarrow> bool" where
  "c_isspace c \<longleftrightarrow> c = CHR '' '' \<or> c \<in> {CHR 0x09, CHR 0x0A, CHR 0x0B, CHR 0x0C, CHR 0x0D}"

text \<open>\<open>std::atoi\<close>; a value outside \<open>int\<close> is undefined.\<close>

definition atoi :: "string \<Rightarrow> int option" where
  "atoi s =
     (let l = dropWhile c_isspace s;
          neg = (l \<noteq> [] \<and> hd l = CHR ''-'');
          l' = (if l \<noteq> [] \<and> hd l \<in> {CHR ''-'', CHR ''+''} then tl l else l);
          n = int (digits_value (takeWhile is_digit l'));
          v = (if neg then - n else n)
      in if - (2 ^ 31) \<le> v \<and> v < 2 ^ 31 then Some v else None)"

fun parse_port :: "string list \<Rightarrow> 16 word option" where
  "parse_port [] = Some 9000"
| "parse_port (arg # argv) =
     (if prefix ''--protocol='' arg then parse_port argv
      else do {
        port \<leftarrow> atoi arg;
        if port > 0 \<and> port \<le> 65535 then Some (of_int port) else parse_port argv
      })"

datatype ProtocolMode = Binary | Plaintext

fun parse_protocol :: "string list \<Rightarrow> ProtocolMode" where
  "parse_protocol [] = Binary"
| "parse_protocol (arg # argv) =
     (if arg = ''--protocol=plaintext'' then Plaintext
      else if arg = ''--protocol=binary'' then Binary
      else parse_protocol argv)"

text \<open>The three protocol functions that are bound once at the start.\<close>

record protocol =
  parse_fn :: "bytes \<Rightarrow> ParseResult option"
  render_fn :: "EngineResponse \<Rightarrow> bytes option"
  render_error_fn :: "string \<Rightarrow> bytes option"

definition string_of :: "bytes \<Rightarrow> string" where
  "string_of bs = map (\<lambda>b. char_of (unat b)) bs"

definition bytes_of :: "string \<Rightarrow> bytes" where
  "bytes_of s = map of_char s"

definition bind_protocol :: "endian \<Rightarrow> ProtocolMode \<Rightarrow> protocol" where
  "bind_protocol en mode =
     (case mode of
        Binary \<Rightarrow> \<lparr>parse_fn = parse_binary en, render_fn = render_binary en,
          render_error_fn = render_binary_error en\<rparr>
      | Plaintext \<Rightarrow> \<lparr>parse_fn = (\<lambda>p. Some (text_parse (string_of p))),
          render_fn = (\<lambda>r. Some (bytes_of (render r))),
          render_error_fn = (\<lambda>m. Some (bytes_of (render_error m)))\<rparr>)"


section \<open>Dispatch and wakeup (engine\_loop.hpp)\<close>

text \<open>A call of the engine port returns or throws; \<open>None\<close> is undefined behaviour behind it.\<close>

datatype 'a outcome = Returned 'a | Threw

type_synonym 'e submit_call = "'e \<Rightarrow> NewOrder \<Rightarrow> (EngineResponse outcome \<times> 'e) option"
type_synonym 'e cancel_call = "'e \<Rightarrow> OrderId \<Rightarrow> (EngineResponse outcome \<times> 'e) option"

fun command_order_id :: "EngineCommand \<Rightarrow> OrderId" where
  "command_order_id (CmdLimit lo) = lo_id lo"
| "command_order_id (CmdMarket mo) = mo_id mo"
| "command_order_id (CmdCancel cr) = cr_id cr"

definition dispatch_command ::
    "'e submit_call \<Rightarrow> 'e cancel_call \<Rightarrow> 'e \<Rightarrow> TaggedCommand \<Rightarrow> (EngineResponse \<times> 'e) option" where
  "dispatch_command sub can e cmd = do {
     (out, e') \<leftarrow> (case tc_command cmd of
         CmdLimit lo \<Rightarrow> sub e (NewLimit (lo\<lparr>lo_owner := tc_client cmd\<rparr>))
       | CmdMarket mo \<Rightarrow> sub e (NewMarket (mo\<lparr>mo_owner := tc_client cmd\<rparr>))
       | CmdCancel cr \<Rightarrow> can e (cr_id cr));
     Some (case out of
         Returned resp \<Rightarrow> resp
       | Threw \<Rightarrow> \<lparr>status = InternalError, trades = [], remaining_qty = Quantity 0,
           r_order_id = command_order_id (tc_command cmd)\<rparr>, e')
   }"

record WakeupCoalescer =
  w_pending :: bool

definition note_response :: "WakeupCoalescer \<Rightarrow> WakeupCoalescer" where
  "note_response w = w\<lparr>w_pending := True\<rparr>"

definition should_notify_on_idle :: "WakeupCoalescer \<Rightarrow> bool \<times> WakeupCoalescer" where
  "should_notify_on_idle w = (if \<not> w_pending w then (False, w) else (True, w\<lparr>w_pending := False\<rparr>))"


section \<open>The handlers of the I/O thread (main.cpp)\<close>

text \<open>
  The text of the refusal when the inbound ring is full; its dash is three bytes of UTF-8.
\<close>

definition busy_message :: string where
  "busy_message = ''system busy '' @ [CHR 0xE2, CHR 0x80, CHR 0x94] @ '' order not accepted''"

definition reply_error :: "protocol \<Rightarrow> ClientId \<Rightarrow> string \<Rightarrow> 'q \<times> TcpServer \<Rightarrow> ('q \<times> TcpServer) option" where
  "reply_error pr client message ws = do {
     err_msg \<leftarrow> render_error_fn pr message;
     Some (fst ws, send_to_client client (frame_message err_msg) (snd ws))
   }"

text \<open>The two branches of the visitor: an error's message, or a command.\<close>

fun command_of :: "ParseResult \<Rightarrow> string + EngineCommand" where
  "command_of (ParsedLimit lo) = Inr (CmdLimit lo)"
| "command_of (ParsedMarket mo) = Inr (CmdMarket mo)"
| "command_of (ParsedCancel cr) = Inr (CmdCancel cr)"
| "command_of (ParseError message) = Inl message"

definition on_frame :: "protocol \<Rightarrow> TaggedCommand ring frame_handler" where
  "on_frame pr client payload ws = do {
     result \<leftarrow> parse_fn pr payload;
     case command_of result of
       Inl message \<Rightarrow> reply_error pr client message ws
     | Inr command \<Rightarrow>
         (case try_push (fst ws) \<lparr>tc_client = client, tc_command = command\<rparr> of
            (pushed, q) \<Rightarrow>
              if \<not> pushed then reply_error pr client busy_message (q, snd ws)
              else Some (q, snd ws))
   }"

text \<open>One pass of the drain handler's loop, and whether it goes on.\<close>

definition drain_pass :: "protocol \<Rightarrow> TaggedResponse ring \<times> TcpServer \<Rightarrow> (bool \<times> TaggedResponse ring \<times> TcpServer) option" where
  "drain_pass pr os =
     (case try_pop (fst os) of
        (None, q) \<Rightarrow> Some (False, q, snd os)
      | (Some resp, q) \<Rightarrow> do {
          rendered \<leftarrow> render_fn pr (tr_response resp);
          Some (True, q, send_to_client (tr_client resp) (frame_message rendered) (snd os))
        })"


section \<open>The two threads\<close>

text \<open>
  Where the engine thread is: at the head of its loop, in the spin on the full outbound ring
  with the response it has to push, between the push and \<open>note_response\<close>, or past the loop.
\<close>

datatype engine_at = LoopHead | Spinning TaggedResponse | Noting | EngineStopped

text \<open>
  The events of one \<open>epoll_wait\<close>: the listener with what its accept calls return, the
  eventfd, or a connection. The I/O thread is at the head of its loop, in \<open>epoll_wait\<close>, inside a
  batch of events, draining the outbound ring inside a batch, or past the loop.
\<close>

datatype io_event = EvListener "accept_answer list" | EvEventfd | EvConnection epoll_event

datatype io_at = IoLoop | IoWait | IoBatch "io_event list" | IoDrain "io_event list" | IoStopped

record 'e exchange =
  x_engine :: 'e
  x_inbound :: "TaggedCommand ring"
  x_outbound :: "TaggedResponse ring"
  x_wakeup :: WakeupCoalescer
  x_eventfd :: nat
  x_server :: TcpServer
  x_shutdown :: bool  \<comment> \<open>\<open>g_shutdown\<close>\<close>
  x_server_shutdown :: bool  \<comment> \<open>\<open>shutdown_requested_\<close>\<close>
  x_at :: engine_at
  x_io :: io_at

definition notify :: "'e exchange \<Rightarrow> 'e exchange" where
  "notify x =
     (case should_notify_on_idle (x_wakeup x) of
        (now, w) \<Rightarrow> x\<lparr>x_wakeup := w, x_eventfd := (if now then Suc (x_eventfd x) else x_eventfd x)\<rparr>)"

definition engine_turn :: "'e submit_call \<Rightarrow> 'e cancel_call \<Rightarrow> 'e exchange \<Rightarrow> 'e exchange option" where
  "engine_turn sub can x =
     (case x_at x of
        LoopHead \<Rightarrow>
          if x_shutdown x then
            (let x' = notify x
             in Some (x'\<lparr>x_server_shutdown := True, x_eventfd := Suc (x_eventfd x'), x_at := EngineStopped\<rparr>))
          else
            (case try_pop (x_inbound x) of
               (None, q) \<Rightarrow> Some (notify (x\<lparr>x_inbound := q\<rparr>))
             | (Some cmd, q) \<Rightarrow> do {
                 (resp, e') \<leftarrow> dispatch_command sub can (x_engine x) cmd;
                 Some (x\<lparr>x_inbound := q, x_engine := e',
                   x_at := Spinning \<lparr>tr_client = tc_client cmd, tr_response = resp\<rparr>\<rparr>)
               })
      | Spinning tagged \<Rightarrow>
          if ring_size (x_outbound x) \<ge> of_nat (ring_capacity (x_outbound x)) then Some x
          else Some (x\<lparr>x_outbound := snd (try_push (x_outbound x) tagged), x_at := Noting\<rparr>)
      | Noting \<Rightarrow> Some (x\<lparr>x_wakeup := note_response (x_wakeup x), x_at := LoopHead\<rparr>)
      | EngineStopped \<Rightarrow> Some x)"

text \<open>\<open>run()\<close> past its loop: all connections are closed.\<close>

definition io_stop :: "'e exchange \<Rightarrow> 'e exchange" where
  "io_stop x = x\<lparr>x_server := (x_server x)\<lparr>connections := (\<lambda>_. None), client_to_fd := (\<lambda>_. None)\<rparr>,
     x_io := IoStopped\<rparr>"

text \<open>
  What the kernel does at a turn of the I/O thread: the events \<open>epoll_wait\<close> returns, and the
  answers to the reads and sends of the turn.
\<close>

record kernel =
  k_batch :: "io_event list"
  k_reads :: "int \<Rightarrow> read_answer list"
  k_sends :: "int \<Rightarrow> send_answer list"

definition io_turn :: "protocol \<Rightarrow> kernel \<Rightarrow> 'e exchange \<Rightarrow> 'e exchange option" where
  "io_turn pr k x =
     (let s = (x_server x)\<lparr>reads := k_reads k, sends := k_sends k\<rparr>
      in case x_io x of
        IoLoop \<Rightarrow> Some (if x_server_shutdown x then io_stop x else x\<lparr>x_io := IoWait\<rparr>)
      | IoWait \<Rightarrow> Some (x\<lparr>x_io := IoBatch (k_batch k)\<rparr>)
      | IoBatch [] \<Rightarrow> Some (x\<lparr>x_io := IoLoop\<rparr>)
      | IoBatch (EvListener as # evs) \<Rightarrow> Some (x\<lparr>x_server := handle_accept as s, x_io := IoBatch evs\<rparr>)
      | IoBatch (EvEventfd # evs) \<Rightarrow> Some (x\<lparr>x_eventfd := 0, x_io := IoDrain evs\<rparr>)
      | IoBatch (EvConnection ev # evs) \<Rightarrow> do {
          (q, s') \<leftarrow> handle_event (on_frame pr) ev (x_inbound x, s);
          Some (x\<lparr>x_inbound := q, x_server := s', x_io := IoBatch evs\<rparr>)
        }
      | IoDrain evs \<Rightarrow> do {
          (popped, q, s') \<leftarrow> drain_pass pr (x_outbound x, s);
          let x' = x\<lparr>x_outbound := q, x_server := s'\<rparr>;
          Some (if popped then x' else if x_server_shutdown x then io_stop x' else x'\<lparr>x_io := IoBatch evs\<rparr>)
        }
      | IoStopped \<Rightarrow> Some x)"

definition signal_handler :: "'e exchange \<Rightarrow> 'e exchange" where
  "signal_handler x = x\<lparr>x_shutdown := True, x_eventfd := Suc (x_eventfd x)\<rparr>"

text \<open>
  A run interleaves the turns of the two threads and signals. It carries the commands that
  were accepted into the inbound ring and the responses that were taken out of the outbound
  ring, in order. The kernel reports the eventfd only when its counter is not zero, and gives
  out no descriptor that is open.
\<close>

definition newly_accepted :: "'e exchange \<Rightarrow> 'e exchange \<Rightarrow> TaggedCommand list" where
  "newly_accepted x x' = drop (length (content (x_inbound x))) (content (x_inbound x'))"

definition newly_sent :: "'e exchange \<Rightarrow> 'e exchange \<Rightarrow> TaggedResponse list" where
  "newly_sent x x' = take (length (content (x_outbound x)) - length (content (x_outbound x'))) (content (x_outbound x))"

definition kernel_ok :: "kernel \<Rightarrow> 'e exchange \<Rightarrow> bool" where
  "kernel_ok k x \<longleftrightarrow>
     (case x_io x of
        IoWait \<Rightarrow> EvEventfd \<in> set (k_batch k) \<longrightarrow> 0 < x_eventfd x
      | IoBatch (EvListener as # _) \<Rightarrow> accepts_fresh as ((x_server x)\<lparr>reads := k_reads k, sends := k_sends k\<rparr>)
      | _ \<Rightarrow> True)"

inductive exchange_run ::
    "'e submit_call \<Rightarrow> 'e cancel_call \<Rightarrow> protocol \<Rightarrow> 'e exchange \<Rightarrow>
     TaggedCommand list \<Rightarrow> TaggedResponse list \<Rightarrow> 'e exchange \<Rightarrow> bool"
  for sub can pr x0 where
  run_start: "exchange_run sub can pr x0 [] [] x0"
| run_engine: "exchange_run sub can pr x0 acc sent x \<Longrightarrow> engine_turn sub can x = Some x' \<Longrightarrow>
     exchange_run sub can pr x0 acc sent x'"
| run_io: "exchange_run sub can pr x0 acc sent x \<Longrightarrow> kernel_ok k x \<Longrightarrow> io_turn pr k x = Some x' \<Longrightarrow>
     exchange_run sub can pr x0 (acc @ newly_accepted x x') (sent @ newly_sent x x') x'"
| run_signal: "exchange_run sub can pr x0 acc sent x \<Longrightarrow>
     exchange_run sub can pr x0 acc sent (signal_handler x)"

definition exchange_init :: "'e \<Rightarrow> nat \<Rightarrow> nat \<Rightarrow> TaggedCommand \<Rightarrow> TaggedResponse \<Rightarrow> TcpServer \<Rightarrow> 'e exchange" where
  "exchange_init e cin cout c0 r0 s = \<lparr>x_engine = e, x_inbound = ring_init cin c0, x_outbound = ring_init cout r0,
     x_wakeup = \<lparr>w_pending = False\<rparr>, x_eventfd = 0, x_server = s, x_shutdown = False,
     x_server_shutdown = False, x_at = LoopHead, x_io = IoLoop\<rparr>"

text \<open>
  What \<open>main\<close> sets up: the decorator over the matching engine as the port, whose calls
  return, the two rings and the default backlog bound.
\<close>

definition risk_submit_call :: "MatchingEngine RiskEngine submit_call" where
  "risk_submit_call R order = map_option (\<lambda>(resp, R'). (Returned resp, R')) (risk_submit (submit Retained) R order)"

definition risk_cancel_call :: "MatchingEngine RiskEngine cancel_call" where
  "risk_cancel_call R i = map_option (\<lambda>(resp, R'). (Returned resp, R')) (risk_cancel cancel R i)"

definition server_risk_config :: RiskConfig where
  "server_risk_config = \<lparr>price_band_pct = to_double (1/10), initial_reference_price = Price 10000,
     max_order_qty = Quantity 1000000, tick_size = Price 1, stp_enabled = True, stp_policy = RejectIncoming\<rparr>"

definition server_engine :: "MatchingEngine RiskEngine" where
  "server_engine = RiskEngine_init (MatchingEngine_init 1000000 (risk_stp server_risk_config)) server_risk_config"

definition blank_command :: TaggedCommand where
  "blank_command = \<lparr>tc_client = ClientId 0, tc_command = CmdLimit \<lparr>lo_id = OrderId 0, lo_side = Buy, lo_price = Price 0,
     lo_quantity = Quantity 0, lo_owner = ClientId 0\<rparr>\<rparr>"

definition blank_response :: TaggedResponse where
  "blank_response = \<lparr>tr_client = ClientId 0, tr_response = \<lparr>status = Accepted, trades = [], remaining_qty = Quantity 0,
     r_order_id = OrderId 0\<rparr>\<rparr>"

definition exchange_main :: "TcpServer \<Rightarrow> MatchingEngine RiskEngine exchange" where
  "exchange_main s = exchange_init server_engine 4096 65536 blank_command blank_response s"


section \<open>The frame handler\<close>

text \<open>
  A ring that was reached by pushes alone, at most \<open>n\<close> of them before the index would wrap.
\<close>

definition pushed_onto :: "'a ring \<Rightarrow> nat \<Rightarrow> 'a ring \<Rightarrow> bool" where
  "pushed_onto q0 n q \<longleftrightarrow> ring_capacity q0 \<le> n + length (content q0) \<and>
     (\<exists>xs. content q = content q0 @ xs \<and> ring_capacity q = ring_capacity q0 \<and> ring_budget (n - length xs) q)"

lemma push_onto:
  assumes "pushed_onto q0 n q"
  shows "pushed_onto q0 n (snd (try_push q x))"
proof -
  obtain xs where q: "content q = content q0 @ xs" "ring_capacity q = ring_capacity q0" "ring_budget (n - length xs) q"
    and n: "ring_capacity q0 \<le> n + length (content q0)"
    using assms by (auto simp: pushed_onto_def)
  show ?thesis
  proof (cases "length (content q) < ring_capacity q")
    case True
    then have "length (content q0) + length xs < ring_capacity q0"
      using q(1,2) by (metis length_append)
    then have "n - length xs = Suc (n - length (xs @ [x]))" using n by (simp del: length_content)
    then obtain q' where "try_push q x = (True, q')" "content q' = content q @ [x]"
      "ring_capacity q' = ring_capacity q" "ring_budget (n - length (xs @ [x])) q'"
      using rq.push_room [OF _ True, of "n - length (xs @ [x])" x] q(3) by auto
    then show ?thesis using q n by (auto simp: pushed_onto_def intro: exI [of _ "xs @ [x]"])
  next
    case False
    then show ?thesis using rq.push_full [OF q(3), of x] assms by simp
  qed
qed

lemma reply_error_keeps:
  assumes "reply_error pr c m ws = Some ws'" and "server_ok (snd ws)"
  shows "server_ok (snd ws')" and "fst ws' = fst ws"
  using assms by (auto simp: reply_error_def bind_eq_Some_conv send_to_client_ok)

lemma on_frame_keeps:
  assumes ok: "server_ok (snd ws)" and q: "pushed_onto q0 n (fst ws)" and run: "on_frame pr c p ws = Some ws'"
  shows "server_ok (snd ws') \<and> pushed_onto q0 n (fst ws')"
proof -
  obtain result where result: "parse_fn pr p = Some result"
    using run by (auto simp: on_frame_def bind_eq_Some_conv)
  show ?thesis
  proof (cases "command_of result")
    case (Inl message)
    then have "reply_error pr c message ws = Some ws'" using run result by (simp add: on_frame_def)
    from reply_error_keeps [OF this ok] q show ?thesis by simp
  next
    case (Inr command)
    obtain b q' where push: "try_push (fst ws) \<lparr>tc_client = c, tc_command = command\<rparr> = (b, q')"
      by fastforce
    then have q': "pushed_onto q0 n q'" using push_onto [OF q] by (metis snd_conv)
    have "(if \<not> b then reply_error pr c busy_message (q', snd ws) else Some (q', snd ws)) = Some ws'"
      using run result Inr push by (simp add: on_frame_def)
    then show ?thesis
      using reply_error_keeps [of pr c busy_message "(q', snd ws)" ws'] ok q' by (auto split: if_splits)
  qed
qed

interpretation xh: frame_handler "on_frame pr" "pushed_onto q0 n" for pr q0 n
  by unfold_locales (rule on_frame_keeps)


section \<open>What the threads do to the rings\<close>

fun serve :: "'e submit_call \<Rightarrow> 'e cancel_call \<Rightarrow> 'e \<Rightarrow> TaggedCommand list \<Rightarrow> (TaggedResponse list \<times> 'e) option" where
  "serve sub can e [] = Some ([], e)"
| "serve sub can e (cmd # cmds) = do {
     (resp, e') \<leftarrow> dispatch_command sub can e cmd;
     (resps, e'') \<leftarrow> serve sub can e' cmds;
     Some (\<lparr>tr_client = tc_client cmd, tr_response = resp\<rparr> # resps, e'')
   }"

lemma serve_snoc:
  assumes "serve sub can e cmds = Some (resps, e1)" and "dispatch_command sub can e1 cmd = Some (resp, e2)"
  shows "serve sub can e (cmds @ [cmd]) = Some (resps @ [\<lparr>tr_client = tc_client cmd, tr_response = resp\<rparr>], e2)"
  using assms
proof (induction cmds arbitrary: e resps)
  case (Cons c cmds)
  then obtain r e' rs where "dispatch_command sub can e c = Some (r, e')" "serve sub can e' cmds = Some (rs, e1)"
    "resps = \<lparr>tr_client = tc_client c, tr_response = r\<rparr> # rs"
    by (auto simp: bind_eq_Some_conv)
  then show ?case using Cons.IH [of e' rs] Cons.prems(2) by simp
qed simp

lemma serve_length: "serve sub can e cmds = Some (resps, e') \<Longrightarrow> length resps = length cmds"
  by (induction cmds arbitrary: e resps) (auto simp: bind_eq_Some_conv)

text \<open>The response the engine thread holds.\<close>

fun held :: "engine_at \<Rightarrow> TaggedResponse list" where
  "held (Spinning tagged) = [tagged]"
| "held _ = []"

text \<open>
  The invariant of a run: the accepted commands are those the engine has served followed by
  those in the inbound ring; their responses are those that were sent, those in the outbound
  ring and the one in the engine thread's hands; a response in the outbound ring has a wakeup
  on its way.
\<close>

definition run_budget :: nat where
  "run_budget = 2 ^ 64 - 1"

definition wakeup_due :: "'e exchange \<Rightarrow> bool" where
  "wakeup_due x \<longleftrightarrow> w_pending (x_wakeup x) \<or> x_at x = Noting \<or> 0 < x_eventfd x \<or> (\<exists>evs. x_io x = IoDrain evs) \<or>
     x_io x = IoStopped"

definition exchange_ok ::
    "'e submit_call \<Rightarrow> 'e cancel_call \<Rightarrow> 'e \<Rightarrow> nat \<Rightarrow> TaggedCommand list \<Rightarrow> TaggedResponse list \<Rightarrow> 'e exchange \<Rightarrow> bool" where
  "exchange_ok sub can e0 cin acc sent x \<longleftrightarrow>
     (\<exists>served. acc = served @ content (x_inbound x) \<and>
        serve sub can e0 served = Some (sent @ content (x_outbound x) @ held (x_at x), x_engine x)) \<and>
     ring_capacity (x_inbound x) = cin \<and>
     ring_budget (run_budget - length acc) (x_inbound x) \<and>
     ring_budget (run_budget - length (sent @ content (x_outbound x))) (x_outbound x) \<and>
     server_ok (x_server x) \<and>
     (content (x_outbound x) \<noteq> [] \<longrightarrow> wakeup_due x)"

lemma exchange_okI:
  assumes "acc = served @ content (x_inbound x)"
    and "serve sub can e0 served = Some (sent @ content (x_outbound x) @ held (x_at x), x_engine x)"
    and "ring_capacity (x_inbound x) = cin"
    and "ring_budget (run_budget - length acc) (x_inbound x)"
    and "ring_budget (run_budget - length (sent @ content (x_outbound x))) (x_outbound x)"
    and "server_ok (x_server x)" and "content (x_outbound x) \<noteq> [] \<Longrightarrow> wakeup_due x"
  shows "exchange_ok sub can e0 cin acc sent x"
  using assms unfolding exchange_ok_def by blast

lemma exchange_okE:
  assumes "exchange_ok sub can e0 cin acc sent x"
  obtains served where "acc = served @ content (x_inbound x)"
    and "serve sub can e0 served = Some (sent @ content (x_outbound x) @ held (x_at x), x_engine x)"
    and "ring_capacity (x_inbound x) = cin"
    and "ring_budget (run_budget - length acc) (x_inbound x)"
    and "ring_budget (run_budget - length (sent @ content (x_outbound x))) (x_outbound x)"
    and "server_ok (x_server x)" and "content (x_outbound x) \<noteq> [] \<longrightarrow> wakeup_due x"
  using assms unfolding exchange_ok_def by blast

lemma exchange_okD:
  assumes "exchange_ok sub can e0 cin acc sent x"
  shows "ring_budget (run_budget - length acc) (x_inbound x)"
    and "ring_budget (run_budget - length (sent @ content (x_outbound x))) (x_outbound x)"
    and "ring_capacity (x_inbound x) = cin"
  using assms unfolding exchange_ok_def by blast+

lemma exchange_init_ok:
  assumes "pow2_capacity cin" and "pow2_capacity cout" and "server_ok s"
  shows "exchange_ok sub can e cin [] [] (exchange_init e cin cout c0 r0 s)"
  by (rule exchange_okI [where served = "[]"])
    (use assms in \<open>simp_all add: exchange_init_def ring_init_content ring_init_budget run_budget_def\<close>)

lemma spin_iff:
  assumes "ring_budget n r"
  shows "ring_size r \<ge> of_nat (ring_capacity r) \<longleftrightarrow> ring_capacity r \<le> length (content r)"
  using assms ring_full_iff [of "ring_capacity r" "r_head r" "r_tail r"]
  by (simp add: ring_budget_def ring_ok_def ring_full_def ring_size_def)

lemma notify_simps [simp]:
  "x_inbound (notify x) = x_inbound x" "x_outbound (notify x) = x_outbound x" "x_at (notify x) = x_at x"
  "x_engine (notify x) = x_engine x" "x_server (notify x) = x_server x" "x_io (notify x) = x_io x"
  "x_eventfd x \<le> x_eventfd (notify x)" "\<not> w_pending (x_wakeup (notify x))"
  "w_pending (x_wakeup x) \<Longrightarrow> 0 < x_eventfd (notify x)"
  by (simp_all add: notify_def should_notify_on_idle_def)

lemma notify_due: "x_at x \<noteq> Noting \<Longrightarrow> wakeup_due x \<Longrightarrow> 0 < x_eventfd (notify x) \<or> (\<exists>evs. x_io x = IoDrain evs) \<or> x_io x = IoStopped"
  by (auto simp: wakeup_due_def notify_def should_notify_on_idle_def)

lemma loop_head_ok:
  assumes ok: "exchange_ok sub can e0 cin acc sent x" and at: "x_at x = LoopHead"
    and turn: "engine_turn sub can x = Some x'"
  shows "exchange_ok sub can e0 cin acc sent x'"
  using ok
proof (rule exchange_okE)
  fix served
  assume sv: "acc = served @ content (x_inbound x)"
    "serve sub can e0 served = Some (sent @ content (x_outbound x) @ held (x_at x), x_engine x)"
    and cap: "ring_capacity (x_inbound x) = cin"
    and bi: "ring_budget (run_budget - length acc) (x_inbound x)"
    and bo: "ring_budget (run_budget - length (sent @ content (x_outbound x))) (x_outbound x)"
    and so: "server_ok (x_server x)" and due: "content (x_outbound x) \<noteq> [] \<longrightarrow> wakeup_due x"
  show ?thesis
  proof (cases "x_shutdown x \<or> content (x_inbound x) = []")
    case True
    then have "x' = notify x \<or>
        x' = (notify x)\<lparr>x_server_shutdown := True, x_eventfd := Suc (x_eventfd (notify x)), x_at := EngineStopped\<rparr>"
      using turn at rq.pop_empty [OF bi] by (cases "x_shutdown x") (auto simp: engine_turn_def Let_def)
    then show ?thesis
      using sv cap bi bo so due notify_due [of x] at
      by (intro exchange_okI [where served = served]) (auto simp: wakeup_due_def)
  next
    case False
    then obtain cmd cmds where cmd: "content (x_inbound x) = cmd # cmds" by (auto simp: neq_Nil_conv)
    obtain q where q: "try_pop (x_inbound x) = (Some cmd, q)" "content q = cmds"
      "ring_capacity q = ring_capacity (x_inbound x)" "ring_budget (run_budget - length acc) q"
      using rq.pop_item [OF bi cmd] by blast
    obtain resp e' where d: "dispatch_command sub can (x_engine x) cmd = Some (resp, e')"
      and x': "x' = x\<lparr>x_inbound := q, x_engine := e',
        x_at := Spinning \<lparr>tr_client = tc_client cmd, tr_response = resp\<rparr>\<rparr>"
      using turn at False q(1) by (auto simp: engine_turn_def bind_eq_Some_conv)
    show ?thesis
      unfolding x' using serve_snoc [OF sv(2) d] sv(1) cmd q cap bo so due at
      by (intro exchange_okI [where served = "served @ [cmd]"]) (auto simp: wakeup_due_def)
  qed
qed

lemma spinning_ok:
  assumes ok: "exchange_ok sub can e0 cin acc sent x" and n: "length acc \<le> run_budget"
    and at: "x_at x = Spinning tagged" and turn: "engine_turn sub can x = Some x'"
  shows "exchange_ok sub can e0 cin acc sent x'"
  using ok
proof (rule exchange_okE)
  fix served
  let ?out = "content (x_outbound x)"
  assume sv: "acc = served @ content (x_inbound x)"
    "serve sub can e0 served = Some (sent @ ?out @ held (x_at x), x_engine x)"
    and rest: "ring_capacity (x_inbound x) = cin" "ring_budget (run_budget - length acc) (x_inbound x)"
      "server_ok (x_server x)"
    and bo: "ring_budget (run_budget - length (sent @ ?out)) (x_outbound x)"
  show ?thesis
  proof (cases "ring_capacity (x_outbound x) \<le> length ?out")
    case True
    then have "x' = x" using turn at spin_iff [OF bo] by (simp add: engine_turn_def)
    then show ?thesis using ok by simp
  next
    case False
    have "length (sent @ ?out @ [tagged]) \<le> length acc"
      using serve_length [OF sv(2)] sv(1) at by (simp del: length_content)
    then have "run_budget - length (sent @ ?out) = Suc (run_budget - length (sent @ ?out @ [tagged]))"
      using n by (simp del: length_content)
    then obtain q where q: "try_push (x_outbound x) tagged = (True, q)" "content q = ?out @ [tagged]"
      "ring_budget (run_budget - length (sent @ ?out @ [tagged])) q"
      using rq.push_room [of _ "x_outbound x" tagged] bo False by (metis not_le)
    have "x' = x\<lparr>x_outbound := q, x_at := Noting\<rparr>"
      using turn at spin_iff [OF bo] False q(1) by (simp add: engine_turn_def)
    then show ?thesis
      using sv rest q at
      by (intro exchange_okI [where served = served]) (auto simp: wakeup_due_def simp del: length_content)
  qed
qed

lemma engine_turn_ok:
  assumes ok: "exchange_ok sub can e0 cin acc sent x" and n: "length acc \<le> run_budget"
    and turn: "engine_turn sub can x = Some x'"
  shows "exchange_ok sub can e0 cin acc sent x'"
proof (cases "x_at x")
  case Noting
  then show ?thesis
    using turn ok by (auto simp: exchange_ok_def engine_turn_def note_response_def wakeup_due_def)
next
  case EngineStopped
  then show ?thesis using turn ok by (simp add: engine_turn_def)
qed (use loop_head_ok [OF ok _ turn] spinning_ok [OF ok n _ turn] in auto)

lemma server_answers [simp]: "server_ok (s\<lparr>reads := r, sends := w\<rparr>) = server_ok s"
  by (simp add: server_ok_def)

lemma stopped_server_ok: "server_ok (s\<lparr>connections := (\<lambda>_. None), client_to_fd := (\<lambda>_. None)\<rparr>)"
  by (simp add: server_ok_def)

lemma drain_pass_cases:
  assumes "drain_pass pr (q, s) = Some (popped, q', s')" and "ring_budget n q" and "server_ok s"
  shows "server_ok s' \<and> ring_budget n q' \<and>
    (if popped then \<exists>r. content q = r # content q' else content q' = content q \<and> content q = [])"
proof (cases "content q")
  case Nil
  then show ?thesis using assms rq.pop_empty [OF assms(2)] by (auto simp: drain_pass_def)
next
  case (Cons r rs)
  obtain q1 where "try_pop q = (Some r, q1)" "content q1 = rs" "ring_budget n q1"
    using rq.pop_item [OF assms(2) Cons] by blast
  then show ?thesis
    using assms Cons by (auto simp: drain_pass_def bind_eq_Some_conv send_to_client_ok)
qed

lemma newly_same:
  "x_inbound x' = x_inbound x \<Longrightarrow> newly_accepted x x' = []"
  "x_outbound x' = x_outbound x \<Longrightarrow> newly_sent x x' = []"
  by (simp_all add: newly_accepted_def newly_sent_def del: length_content)

lemma io_same_ok:
  assumes "exchange_ok sub can e0 cin acc sent x" and "server_ok (x_server x')"
    and "x_inbound x' = x_inbound x" "x_outbound x' = x_outbound x" "x_at x' = x_at x" "x_engine x' = x_engine x"
    and "content (x_outbound x) \<noteq> [] \<Longrightarrow> wakeup_due x \<Longrightarrow> wakeup_due x'"
  shows "exchange_ok sub can e0 cin (acc @ newly_accepted x x') (sent @ newly_sent x x') x'"
  using assms by (auto simp: exchange_ok_def newly_same)

lemma connection_ok:
  assumes ok: "exchange_ok sub can e0 cin acc sent x" and n: "length acc + cin \<le> run_budget"
    and s: "server_ok s" and run: "handle_event (on_frame pr) ev (x_inbound x, s) = Some (q, s')"
    and x': "x' = x\<lparr>x_inbound := q, x_server := s', x_io := IoBatch evs\<rparr>" and io: "x_io x = IoBatch evs'"
  shows "exchange_ok sub can e0 cin (acc @ newly_accepted x x') (sent @ newly_sent x x') x'"
  using ok
proof (rule exchange_okE)
  fix served
  assume sv: "acc = served @ content (x_inbound x)"
    "serve sub can e0 served = Some (sent @ content (x_outbound x) @ held (x_at x), x_engine x)"
    and cap: "ring_capacity (x_inbound x) = cin"
    and bi: "ring_budget (run_budget - length acc) (x_inbound x)"
    and rest: "ring_budget (run_budget - length (sent @ content (x_outbound x))) (x_outbound x)"
      "content (x_outbound x) \<noteq> [] \<longrightarrow> wakeup_due x"
  have "pushed_onto (x_inbound x) (run_budget - length acc) (x_inbound x)"
    using bi n cap by (auto simp: pushed_onto_def)
  from xh.handle_event_ok [OF run, of "x_inbound x" "run_budget - length acc"] this s
  have s': "server_ok s'" and q: "pushed_onto (x_inbound x) (run_budget - length acc) q" by auto
  obtain xs where xs: "content q = content (x_inbound x) @ xs" "ring_capacity q = cin"
    "ring_budget (run_budget - length acc - length xs) q"
    using q cap unfolding pushed_onto_def by blast
  have "newly_accepted x x' = xs" using xs(1) by (simp add: newly_accepted_def x' del: length_content)
  moreover have "newly_sent x x' = []" by (rule newly_same) (simp add: x')
  ultimately show ?thesis
    using sv rest xs s' io
    by (intro exchange_okI [where served = served]) (auto simp: x' wakeup_due_def add.assoc simp del: length_content)
qed

lemma drain_ok:
  assumes ok: "exchange_ok sub can e0 cin acc sent x" and s: "server_ok s"
    and run: "drain_pass pr (x_outbound x, s) = Some (popped, q, s')" and io: "x_io x = IoDrain evs"
    and x1: "x1 = x\<lparr>x_outbound := q, x_server := s'\<rparr>"
    and x': "x' = (if popped then x1 else if x_server_shutdown x then io_stop x1 else x1\<lparr>x_io := IoBatch evs\<rparr>)"
  shows "exchange_ok sub can e0 cin (acc @ newly_accepted x x') (sent @ newly_sent x x') x'"
  using ok
proof (rule exchange_okE)
  fix served
  assume sv: "acc = served @ content (x_inbound x)"
    "serve sub can e0 served = Some (sent @ content (x_outbound x) @ held (x_at x), x_engine x)"
    and rest: "ring_capacity (x_inbound x) = cin" "ring_budget (run_budget - length acc) (x_inbound x)"
    and bo: "ring_budget (run_budget - length (sent @ content (x_outbound x))) (x_outbound x)"
  note d = drain_pass_cases [OF run bo s]
  have x'_eqs: "x_inbound x' = x_inbound x" "x_outbound x' = q" "x_at x' = x_at x" "x_engine x' = x_engine x"
    by (simp_all add: x' x1 io_stop_def)
  have so: "server_ok (x_server x')" using d by (simp add: x' x1 io_stop_def stopped_server_ok)
  have acc: "newly_accepted x x' = []" by (rule newly_same) (rule x'_eqs)
  show ?thesis
  proof (cases popped)
    case True
    then obtain r where r: "content (x_outbound x) = r # content q" using d by auto
    then have "newly_sent x x' = [r]" by (simp add: newly_sent_def x'_eqs del: length_content)
    then show ?thesis
      using sv rest d r so acc x'_eqs True io
      by (intro exchange_okI [where served = served]) (auto simp: x' x1 wakeup_due_def simp del: length_content)
  next
    case False
    then have "content q = []" "content (x_outbound x) = []" using d by auto
    then show ?thesis
      using sv rest d so acc x'_eqs
      by (intro exchange_okI [where served = served]) (auto simp: newly_sent_def simp del: length_content)
  qed
qed

lemma io_at_cases:
  obtains (loop) "a = IoLoop" | (wait) "a = IoWait" | (ended) "a = IoBatch []"
    | (listener) as evs where "a = IoBatch (EvListener as # evs)"
    | (eventfd) evs where "a = IoBatch (EvEventfd # evs)"
    | (connection) ev evs where "a = IoBatch (EvConnection ev # evs)"
    | (drain) evs where "a = IoDrain evs" | (stopped) "a = IoStopped"
proof (cases a)
  case (IoBatch evs)
  then show ?thesis using that(3-6) by (cases evs; cases "hd evs") simp_all
qed (use that in blast)+

lemma io_turn_simps:
  "x_io x = IoWait \<Longrightarrow> io_turn pr k x = Some (x\<lparr>x_io := IoBatch (k_batch k)\<rparr>)"
  "x_io x = IoBatch [] \<Longrightarrow> io_turn pr k x = Some (x\<lparr>x_io := IoLoop\<rparr>)"
  "x_io x = IoBatch (EvListener as # evs) \<Longrightarrow> io_turn pr k x =
     Some (x\<lparr>x_server := handle_accept as ((x_server x)\<lparr>reads := k_reads k, sends := k_sends k\<rparr>), x_io := IoBatch evs\<rparr>)"
  "x_io x = IoBatch (EvEventfd # evs) \<Longrightarrow> io_turn pr k x = Some (x\<lparr>x_eventfd := 0, x_io := IoDrain evs\<rparr>)"
  "x_io x = IoStopped \<Longrightarrow> io_turn pr k x = Some x"
  "x_io x = IoLoop \<Longrightarrow> io_turn pr k x = Some (if x_server_shutdown x then io_stop x else x\<lparr>x_io := IoWait\<rparr>)"
  by (simp_all add: io_turn_def Let_def)

lemma io_turn_connection:
  assumes "x_io x = IoBatch (EvConnection ev # evs)" and "io_turn pr k x = Some x'"
  obtains q s where "handle_event (on_frame pr) ev (x_inbound x, (x_server x)\<lparr>reads := k_reads k, sends := k_sends k\<rparr>) = Some (q, s)"
    and "x' = x\<lparr>x_inbound := q, x_server := s, x_io := IoBatch evs\<rparr>"
  using assms by (auto simp: io_turn_def Let_def bind_eq_Some_conv)

lemma io_turn_drain:
  assumes "x_io x = IoDrain evs" and "io_turn pr k x = Some x'"
  obtains popped q s x1 where
    "drain_pass pr (x_outbound x, (x_server x)\<lparr>reads := k_reads k, sends := k_sends k\<rparr>) = Some (popped, q, s)"
    and "x1 = x\<lparr>x_outbound := q, x_server := s\<rparr>"
    and "x' = (if popped then x1 else if x_server_shutdown x then io_stop x1 else x1\<lparr>x_io := IoBatch evs\<rparr>)"
  using assms unfolding io_turn_def Let_def assms(1) io_at.case bind_eq_Some_conv by fastforce

lemma io_turn_ok:
  assumes ok: "exchange_ok sub can e0 cin acc sent x" and n: "length acc + cin \<le> run_budget"
    and k: "kernel_ok k x" and turn: "io_turn pr k x = Some x'"
  shows "exchange_ok sub can e0 cin (acc @ newly_accepted x x') (sent @ newly_sent x x') x'"
proof -
  let ?s = "(x_server x)\<lparr>reads := k_reads k, sends := k_sends k\<rparr>"
  have s: "server_ok (x_server x)" using ok by (rule exchange_okE)
  then have s': "server_ok ?s" by simp
  show ?thesis
  proof (cases "x_io x" rule: io_at_cases)
    case (connection ev evs)
    from connection turn obtain q s1 where "handle_event (on_frame pr) ev (x_inbound x, ?s) = Some (q, s1)"
      "x' = x\<lparr>x_inbound := q, x_server := s1, x_io := IoBatch evs\<rparr>" by (rule io_turn_connection)
    from connection_ok [OF ok n s' this connection] show ?thesis .
  next
    case (drain evs)
    from drain turn obtain popped q s1 x1 where "drain_pass pr (x_outbound x, ?s) = Some (popped, q, s1)"
      "x1 = x\<lparr>x_outbound := q, x_server := s1\<rparr>"
      "x' = (if popped then x1 else if x_server_shutdown x then io_stop x1 else x1\<lparr>x_io := IoBatch evs\<rparr>)"
      by (rule io_turn_drain)
    from drain_ok [OF ok s' this(1) drain this(2,3)] show ?thesis .
  next
    case (listener as evs)
    then have "server_ok (handle_accept as ?s)" using k s' by (intro handle_accept_ok) (simp_all add: kernel_ok_def)
    moreover have "x' = x\<lparr>x_server := handle_accept as ?s, x_io := IoBatch evs\<rparr>"
      using turn unfolding io_turn_simps(3) [OF listener] by simp
    ultimately show ?thesis using listener by (intro io_same_ok [OF ok]) (simp_all add: wakeup_due_def)
  next
    case loop
    have "x' = (if x_server_shutdown x then io_stop x else x\<lparr>x_io := IoWait\<rparr>)"
      using turn unfolding io_turn_simps(6) [OF loop] by simp
    then show ?thesis
      using s loop by (intro io_same_ok [OF ok]) (simp_all add: io_stop_def wakeup_due_def stopped_server_ok)
  next
    case wait
    have "x' = x\<lparr>x_io := IoBatch (k_batch k)\<rparr>" using turn unfolding io_turn_simps(1) [OF wait] by simp
    then show ?thesis using s wait by (intro io_same_ok [OF ok]) (simp_all add: wakeup_due_def)
  next
    case ended
    have "x' = x\<lparr>x_io := IoLoop\<rparr>" using turn unfolding io_turn_simps(2) [OF ended] by simp
    then show ?thesis using s ended by (intro io_same_ok [OF ok]) (simp_all add: wakeup_due_def)
  next
    case (eventfd evs)
    have "x' = x\<lparr>x_eventfd := 0, x_io := IoDrain evs\<rparr>"
      using turn unfolding io_turn_simps(4) [OF eventfd] by simp
    then show ?thesis using s by (intro io_same_ok [OF ok]) (simp_all add: wakeup_due_def)
  next
    case stopped
    have "x' = x" using turn unfolding io_turn_simps(5) [OF stopped] by simp
    then show ?thesis using ok newly_same [of x' x] by simp
  qed
qed

lemma exchange_run_keeps:
  assumes "exchange_run sub can pr x0 acc sent x" and "exchange_ok sub can e cin acc0 sent0 x0"
    and "length (acc0 @ acc) + cin < 2 ^ 64"
  shows "exchange_ok sub can e cin (acc0 @ acc) (sent0 @ sent) x"
  using assms(1,3)
proof (induction rule: exchange_run.induct)
  case run_start
  show ?case using assms(2) by simp
next
  case (run_engine acc sent x x')
  have "length (acc0 @ acc) \<le> run_budget" using run_engine.prems by (simp add: run_budget_def)
  from engine_turn_ok [OF run_engine.IH [OF run_engine.prems] this run_engine.hyps(2)] show ?case .
next
  case (run_io acc sent x k x')
  have n: "length (acc0 @ acc) + cin < 2 ^ 64" using run_io.prems by simp
  then have "length (acc0 @ acc) + cin \<le> run_budget" by (simp add: run_budget_def)
  from io_turn_ok [OF run_io.IH [OF n] this run_io.hyps(2,3)] show ?case by simp
next
  case (run_signal acc sent x)
  show ?case
    using run_signal.IH [OF run_signal.prems]
    by (rule exchange_okE, intro exchange_okI) (simp_all add: signal_handler_def wakeup_due_def)
qed

lemma exchange_run_ok:
  assumes "exchange_run sub can pr (exchange_init e cin cout c0 r0 s) acc sent x"
    and "pow2_capacity cin" and "pow2_capacity cout" and "server_ok s" and "length acc + cin < 2 ^ 64"
  shows "exchange_ok sub can e cin acc sent x"
  using exchange_run_keeps [OF assms(1) exchange_init_ok [OF assms(2-4)]] assms(5) by simp

lemma exchange_run_trans:
  assumes "exchange_run sub can pr x0 acc sent x" and "exchange_run sub can pr x acc' sent' x'"
  shows "exchange_run sub can pr x0 (acc @ acc') (sent @ sent') x'"
  using assms(2)
proof (induction rule: exchange_run.induct)
  case run_start
  show ?case using assms(1) by simp
next
  case (run_engine acc' sent' x x')
  from exchange_run.run_engine [OF run_engine.IH run_engine.hyps(2)] show ?case .
next
  case (run_io acc' sent' x k x')
  from exchange_run.run_io [OF run_io.IH run_io.hyps(2,3)] show ?case by simp
next
  case (run_signal acc' sent' x)
  from exchange_run.run_signal [OF run_signal.IH] show ?case .
qed


section \<open>Progress\<close>

text \<open>The engine thread takes a response it holds to the outbound ring when there is room.\<close>

lemma engine_pushes:
  assumes "x_at x = Spinning tagged" and "ring_budget (Suc n) (x_outbound x)"
    and "length (content (x_outbound x)) < ring_capacity (x_outbound x)"
  shows "\<exists>q. content q = content (x_outbound x) @ [tagged] \<and> ring_capacity q = ring_capacity (x_outbound x) \<and>
    ring_budget n q \<and>
    exchange_run sub can pr x [] [] (x\<lparr>x_outbound := q, x_wakeup := \<lparr>w_pending = True\<rparr>, x_at := LoopHead\<rparr>)"
proof -
  obtain q where q: "try_push (x_outbound x) tagged = (True, q)" "content q = content (x_outbound x) @ [tagged]"
    "ring_capacity q = ring_capacity (x_outbound x)" "ring_budget n q"
    using rq.push_room [OF assms(2,3)] by blast
  let ?x1 = "x\<lparr>x_outbound := q, x_at := Noting\<rparr>"
  have "engine_turn sub can x = Some ?x1"
    using assms(1,3) spin_iff [OF assms(2)] q(1) by (simp add: engine_turn_def)
  from run_engine [OF run_start this] have r1: "exchange_run sub can pr x [] [] ?x1" .
  have "engine_turn sub can ?x1 = Some (x\<lparr>x_outbound := q, x_wakeup := \<lparr>w_pending = True\<rparr>, x_at := LoopHead\<rparr>)"
    by (simp add: engine_turn_def note_response_def)
  from run_engine [OF r1 this] show ?thesis using q by blast
qed

lemma engine_serves:
  assumes "x_at x = LoopHead" and "\<not> x_shutdown x" and "content (x_inbound x) = cmd # cmds"
    and "ring_budget m (x_inbound x)" and "ring_budget (Suc n) (x_outbound x)"
    and "length (content (x_outbound x)) < ring_capacity (x_outbound x)"
    and "dispatch_command sub can (x_engine x) cmd = Some (resp, e')"
  shows "\<exists>x'. exchange_run sub can pr x [] [] x' \<and> x_at x' = LoopHead \<and> \<not> x_shutdown x' \<and>
    content (x_inbound x') = cmds \<and> ring_budget m (x_inbound x') \<and>
    content (x_outbound x') = content (x_outbound x) @ [\<lparr>tr_client = tc_client cmd, tr_response = resp\<rparr>] \<and>
    ring_capacity (x_inbound x') = ring_capacity (x_inbound x) \<and>
    ring_capacity (x_outbound x') = ring_capacity (x_outbound x) \<and> ring_budget n (x_outbound x') \<and>
    x_engine x' = e' \<and> w_pending (x_wakeup x') \<and> x_eventfd x' = x_eventfd x \<and> x_server x' = x_server x \<and>
    x_io x' = x_io x \<and> x_server_shutdown x' = x_server_shutdown x"
proof -
  obtain q where q: "try_pop (x_inbound x) = (Some cmd, q)" "content q = cmds"
    "ring_capacity q = ring_capacity (x_inbound x)" "ring_budget m q"
    using rq.pop_item [OF assms(4,3)] by blast
  let ?tagged = "\<lparr>tr_client = tc_client cmd, tr_response = resp\<rparr>"
  let ?x1 = "x\<lparr>x_inbound := q, x_engine := e', x_at := Spinning ?tagged\<rparr>"
  have "engine_turn sub can x = Some ?x1" using assms(1,2,7) q(1) by (simp add: engine_turn_def)
  from run_engine [OF run_start this] have r1: "exchange_run sub can pr x [] [] ?x1" .
  obtain q' where q': "content q' = content (x_outbound x) @ [?tagged]"
    "ring_capacity q' = ring_capacity (x_outbound x)" "ring_budget n q'"
    "exchange_run sub can pr ?x1 [] [] (?x1\<lparr>x_outbound := q', x_wakeup := \<lparr>w_pending = True\<rparr>, x_at := LoopHead\<rparr>)"
    using engine_pushes [of ?x1 ?tagged n sub can pr] assms(5,6) by auto
  let ?x2 = "?x1\<lparr>x_outbound := q', x_wakeup := \<lparr>w_pending = True\<rparr>, x_at := LoopHead\<rparr>"
  have "exchange_run sub can pr x [] [] ?x2" using exchange_run_trans [OF r1 q'(4)] by simp
  then show ?thesis using assms(2) q q' by (intro exI [of _ ?x2]) simp
qed


text \<open>The engine thread serves all commands that are waiting, and then writes the eventfd.\<close>

lemma engine_serves_all:
  assumes "x_at x = LoopHead" and "\<not> x_shutdown x" and "content (x_inbound x) = cmds"
    and "ring_budget m (x_inbound x)" and "ring_budget (length cmds) (x_outbound x)"
    and "length (content (x_outbound x)) + length cmds \<le> ring_capacity (x_outbound x)"
    and "serve sub can (x_engine x) cmds = Some (resps, e')"
  shows "\<exists>x'. exchange_run sub can pr x [] [] x' \<and> x_at x' = LoopHead \<and> \<not> x_shutdown x' \<and>
    content (x_inbound x') = [] \<and> ring_budget m (x_inbound x') \<and>
    content (x_outbound x') = content (x_outbound x) @ resps \<and> ring_budget 0 (x_outbound x') \<and>
    x_engine x' = e' \<and> (w_pending (x_wakeup x') \<longleftrightarrow> w_pending (x_wakeup x) \<or> cmds \<noteq> []) \<and> x_eventfd x' = x_eventfd x \<and> x_server x' = x_server x \<and>
    x_io x' = x_io x \<and> x_server_shutdown x' = x_server_shutdown x"
  using assms
proof (induction cmds arbitrary: x resps)
  case Nil
  then show ?case by (intro exI [of _ x]) (auto intro: run_start)
next
  case (Cons cmd cmds)
  obtain resp e1 rs where d: "dispatch_command sub can (x_engine x) cmd = Some (resp, e1)"
    "serve sub can e1 cmds = Some (rs, e')" "resps = \<lparr>tr_client = tc_client cmd, tr_response = resp\<rparr> # rs"
    using Cons.prems(7) by (auto simp: bind_eq_Some_conv)
  have "ring_budget (Suc (length cmds)) (x_outbound x)" using Cons.prems(5) by simp
  moreover have "length (content (x_outbound x)) < ring_capacity (x_outbound x)" using Cons.prems(6) by simp
  ultimately obtain x1 where r1: "exchange_run sub can pr x [] [] x1" and x1: "x_at x1 = LoopHead" "\<not> x_shutdown x1"
    "content (x_inbound x1) = cmds" "ring_budget m (x_inbound x1)"
    "content (x_outbound x1) = content (x_outbound x) @ [\<lparr>tr_client = tc_client cmd, tr_response = resp\<rparr>]"
    "ring_capacity (x_outbound x1) = ring_capacity (x_outbound x)" "ring_budget (length cmds) (x_outbound x1)"
    "x_engine x1 = e1" "w_pending (x_wakeup x1)" "x_eventfd x1 = x_eventfd x" "x_server x1 = x_server x"
    "x_io x1 = x_io x" "x_server_shutdown x1 = x_server_shutdown x"
    using engine_serves [OF Cons.prems(1-4) _ _ d(1), of "length cmds" pr] by blast
  have "length (content (x_outbound x1)) + length cmds \<le> ring_capacity (x_outbound x1)"
    unfolding x1(5,6) using Cons.prems(6) by simp
  from Cons.IH [OF x1(1-4) x1(7) this, of rs] x1(8) d(2)
  obtain x' where r': "exchange_run sub can pr x1 [] [] x'" and x': "x_at x' = LoopHead" "\<not> x_shutdown x'"
    "content (x_inbound x') = []" "ring_budget m (x_inbound x')"
    "content (x_outbound x') = content (x_outbound x1) @ rs" "ring_budget 0 (x_outbound x')" "x_engine x' = e'"
    "w_pending (x_wakeup x') \<longleftrightarrow> w_pending (x_wakeup x1) \<or> cmds \<noteq> []" "x_eventfd x' = x_eventfd x1" "x_server x' = x_server x1"
    "x_io x' = x_io x1" "x_server_shutdown x' = x_server_shutdown x1"
    by auto
  have "exchange_run sub can pr x [] [] x'" using exchange_run_trans [OF r1 r'] by simp
  then show ?case using x' x1 d(3) by (intro exI [of _ x']) simp
qed

lemma ring_budget_mono: "ring_budget n r \<Longrightarrow> m \<le> n \<Longrightarrow> ring_budget m r"
  by (simp add: ring_budget_def)

lemma engine_settles:
  assumes ok: "exchange_ok sub can e cin acc sent x" and n: "length acc + cin < 2 ^ 64"
    and at: "x_at x = LoopHead" "\<not> x_shutdown x"
    and room: "length (content (x_outbound x)) + length (content (x_inbound x)) \<le> ring_capacity (x_outbound x)"
    and answers: "serve sub can (x_engine x) (content (x_inbound x)) \<noteq> None"
  shows "\<exists>x'. exchange_run sub can pr x [] [] x' \<and> x_at x' = LoopHead \<and> content (x_inbound x') = [] \<and>
    x_io x' = x_io x \<and> x_server_shutdown x' = x_server_shutdown x \<and> \<not> w_pending (x_wakeup x')"
  using ok
proof (rule exchange_okE)
  fix served
  assume sv: "acc = served @ content (x_inbound x)"
    "serve sub can e served = Some (sent @ content (x_outbound x) @ held (x_at x), x_engine x)"
    and bi: "ring_budget (run_budget - length acc) (x_inbound x)"
    and bo: "ring_budget (run_budget - length (sent @ content (x_outbound x))) (x_outbound x)"
  obtain resps e' where "serve sub can (x_engine x) (content (x_inbound x)) = Some (resps, e')" using answers by auto
  moreover have "length (sent @ content (x_outbound x)) + length (content (x_inbound x)) \<le> run_budget"
    using serve_length [OF sv(2)] sv(1) n at(1) by (simp add: run_budget_def del: length_content)
  then have "ring_budget (length (content (x_inbound x))) (x_outbound x)"
    by (intro ring_budget_mono [OF bo]) linarith
  ultimately obtain x1 where r1: "exchange_run sub can pr x [] [] x1" and x1: "x_at x1 = LoopHead" "\<not> x_shutdown x1"
    "content (x_inbound x1) = []" "ring_budget (run_budget - length acc) (x_inbound x1)"
    "x_io x1 = x_io x" "x_server_shutdown x1 = x_server_shutdown x"
    using engine_serves_all [OF at refl bi _ room, of sub can resps e' pr] by auto
  have "engine_turn sub can x1 = Some (notify x1)"
    using x1 rq.pop_empty [OF x1(4,3)] by (simp add: engine_turn_def)
  from run_engine [OF r1 this] x1 show ?thesis
    by (intro exI [of _ "notify x1"]) (simp add: notify_def should_notify_on_idle_def)
qed

text \<open>The I/O thread drains the outbound ring.\<close>

definition quiet_kernel :: kernel where
  "quiet_kernel = \<lparr>k_batch = [], k_reads = (\<lambda>_. []), k_sends = (\<lambda>_. [])\<rparr>"

lemma drain_takes:
  assumes "x_io x = IoDrain evs" and "content (x_outbound x) = r # rs" and "ring_budget n (x_outbound x)"
    and "render_fn pr (tr_response r) \<noteq> None"
  shows "\<exists>q s. content q = rs \<and> ring_budget n q \<and> exchange_run sub can pr x [] [r] (x\<lparr>x_outbound := q, x_server := s\<rparr>)"
proof -
  obtain q where q: "try_pop (x_outbound x) = (Some r, q)" "content q = rs" "ring_budget n q"
    using rq.pop_item [OF assms(3,2)] by blast
  obtain bs where bs: "render_fn pr (tr_response r) = Some bs" using assms(4) by blast
  let ?s = "send_to_client (tr_client r) (frame_message bs) ((x_server x)\<lparr>reads := k_reads quiet_kernel, sends := k_sends quiet_kernel\<rparr>)"
  let ?x = "x\<lparr>x_outbound := q, x_server := ?s\<rparr>"
  have "io_turn pr quiet_kernel x = Some ?x"
    using assms(1) q(1) bs by (simp add: io_turn_def drain_pass_def Let_def)
  moreover have "kernel_ok quiet_kernel x" using assms(1) by (simp add: kernel_ok_def)
  moreover have "newly_accepted x ?x = []" "newly_sent x ?x = [r]"
    using q(2) assms(2) by (simp_all add: newly_accepted_def newly_sent_def del: length_content)
  ultimately have "exchange_run sub can pr x [] [r] ?x"
    using run_io [OF run_start, of quiet_kernel x pr ?x sub can] by simp
  then show ?thesis using q by blast
qed

lemma drain_takes_all:
  assumes "x_io x = IoDrain evs" and "content (x_outbound x) = rs" and "ring_budget n (x_outbound x)"
    and "\<forall>r. render_fn pr r \<noteq> None"
  shows "\<exists>q s. content q = [] \<and> ring_budget n q \<and> exchange_run sub can pr x [] rs (x\<lparr>x_outbound := q, x_server := s\<rparr>)"
  using assms
proof (induction rs arbitrary: x)
  case Nil
  then show ?case by (intro exI [of _ "x_outbound x"] exI [of _ "x_server x"]) (simp add: run_start)
next
  case (Cons r rs)
  obtain q s where q: "content q = rs" "ring_budget n q"
    "exchange_run sub can pr x [] [r] (x\<lparr>x_outbound := q, x_server := s\<rparr>)"
    using drain_takes [OF Cons.prems(1,2,3)] Cons.prems(4) by blast
  obtain q' s' where q': "content q' = []" "ring_budget n q'"
    "exchange_run sub can pr (x\<lparr>x_outbound := q, x_server := s\<rparr>) [] rs (x\<lparr>x_outbound := q', x_server := s'\<rparr>)"
    using Cons.IH [of "x\<lparr>x_outbound := q, x_server := s\<rparr>"] Cons.prems(1,4) q(1,2) by auto
  from exchange_run_trans [OF q(3) q'(3)] have
    "exchange_run sub can pr x [] (r # rs) (x\<lparr>x_outbound := q', x_server := s'\<rparr>)" by simp
  then show ?case using q'(1,2) by blast
qed


lemma quiet_io:
  assumes "io_turn pr k x = Some x'" and "kernel_ok k x" and "x_inbound x' = x_inbound x" and "x_outbound x' = x_outbound x"
  shows "exchange_run sub can pr x [] [] x'"
  using run_io [OF run_start assms(2,1), of sub can] newly_same [of x' x] assms(3,4) by simp

lemma io_returns:
  assumes "x_io x = IoBatch [] \<or> x_io x = IoLoop" and "\<not> x_server_shutdown x"
  shows "exchange_run sub can pr x [] [] (x\<lparr>x_io := IoWait\<rparr>)"
proof -
  have loop: "exchange_run sub can pr y [] [] (y\<lparr>x_io := IoWait\<rparr>)" if "x_io y = IoLoop" "\<not> x_server_shutdown y" for y
    by (rule quiet_io [of pr quiet_kernel]) (use that in \<open>simp_all add: io_turn_simps kernel_ok_def\<close>)
  show ?thesis
  proof (cases "x_io x = IoLoop")
    case True
    then show ?thesis using loop assms(2) by simp
  next
    case False
    then have "exchange_run sub can pr x [] [] (x\<lparr>x_io := IoLoop\<rparr>)"
      by (intro quiet_io [of pr quiet_kernel]) (use assms(1) in \<open>simp_all add: io_turn_simps kernel_ok_def\<close>)
    from exchange_run_trans [OF this loop [of "x\<lparr>x_io := IoLoop\<rparr>"]] show ?thesis using assms(2) by simp
  qed
qed

lemma io_delivers:
  assumes "x_io x = IoWait" and "0 < x_eventfd x" and "\<not> x_server_shutdown x" and "ring_budget n (x_outbound x)"
    and "\<forall>r. render_fn pr r \<noteq> None"
  shows "\<exists>q s. content q = [] \<and>
    exchange_run sub can pr x [] (content (x_outbound x)) (x\<lparr>x_eventfd := 0, x_outbound := q, x_server := s, x_io := IoWait\<rparr>)"
proof -
  let ?k = "quiet_kernel\<lparr>k_batch := [EvEventfd]\<rparr>"
  let ?x1 = "x\<lparr>x_io := IoBatch [EvEventfd]\<rparr>" and ?x2 = "x\<lparr>x_eventfd := 0, x_io := IoDrain []\<rparr>"
  have "exchange_run sub can pr x [] [] ?x1"
    by (rule quiet_io [of pr ?k]) (use assms(1,2) in \<open>simp_all add: io_turn_simps kernel_ok_def\<close>)
  moreover have "exchange_run sub can pr ?x1 [] [] ?x2"
    by (rule quiet_io [of pr quiet_kernel]) (simp_all add: io_turn_simps kernel_ok_def)
  ultimately have r2: "exchange_run sub can pr x [] [] ?x2" using exchange_run_trans by fastforce
  obtain q s where q: "content q = []" "ring_budget n q"
    and r3: "exchange_run sub can pr ?x2 [] (content (x_outbound x)) (?x2\<lparr>x_outbound := q, x_server := s\<rparr>)"
    using drain_takes_all [of ?x2 "[]" "content (x_outbound x)" n pr sub can] assms(4,5) by auto
  let ?x3 = "?x2\<lparr>x_outbound := q, x_server := s\<rparr>"
  let ?s = "s\<lparr>reads := k_reads quiet_kernel, sends := k_sends quiet_kernel\<rparr>"
  let ?x4 = "?x3\<lparr>x_server := ?s, x_io := IoBatch []\<rparr>" and ?x5 = "?x3\<lparr>x_server := ?s, x_io := IoWait\<rparr>"
  have "exchange_run sub can pr ?x3 [] [] ?x4"
    by (rule quiet_io [of pr quiet_kernel])
      (use assms(3) rq.pop_empty [OF q(2,1)] in \<open>simp_all add: io_turn_def drain_pass_def kernel_ok_def\<close>)
  moreover have "exchange_run sub can pr ?x4 [] [] ?x5"
    using io_returns [of ?x4 sub can pr] assms(3) by simp
  ultimately have "exchange_run sub can pr ?x3 [] [] ?x5" using exchange_run_trans by fastforce
  from exchange_run_trans [OF r2 exchange_run_trans [OF r3 this]]
  show ?thesis using q(1) by (intro exI [of _ q] exI [of _ ?s]) simp
qed

text \<open>The I/O thread takes a request of a connected client into the inbound ring.\<close>

lemma on_frame_quietly:
  assumes "parse_fn pr p = Some result" and "command_of result = Inr command"
    and "try_push q \<lparr>tc_client = c, tc_command = command\<rparr> = (True, q')"
  shows "quietly (on_frame pr) c [p] q q'"
  using assms by (simp add: on_frame_def)

lemma io_accepts:
  assumes io: "x_io x = IoWait \<or> x_io x = IoLoop" "\<not> x_server_shutdown x"
    and conn: "connections (x_server x) fd = Some conn" "read_buffer conn = []"
    and parsed: "parse_fn pr p = Some result" "command_of result = Inr command" and p: "length p \<le> 4096"
    and room: "ring_budget (Suc n) (x_inbound x)" "length (content (x_inbound x)) < ring_capacity (x_inbound x)"
    and tc: "tc = \<lparr>tc_client = c_id conn, tc_command = command\<rparr>"
  shows "\<exists>q s. content q = content (x_inbound x) @ [tc] \<and> ring_capacity q = ring_capacity (x_inbound x) \<and>
    ring_budget n q \<and> connections s fd = Some conn \<and>
    exchange_run sub can pr x [tc] [] (x\<lparr>x_inbound := q, x_server := s, x_io := IoWait\<rparr>)"
proof -
  obtain q where q: "try_push (x_inbound x) tc = (True, q)" "content q = content (x_inbound x) @ [tc]"
    "ring_capacity q = ring_capacity (x_inbound x)" "ring_budget n q"
    using rq.push_room [OF room] by blast
  let ?ev = "EvConnection \<lparr>ev_fd = fd, ev_hup = False, ev_in = True, ev_out = False\<rparr>"
  let ?k = "quiet_kernel\<lparr>k_reads := (\<lambda>_. [ReadData (frame_message p)])\<rparr>"
  let ?s = "(x_server x)\<lparr>reads := k_reads ?k, sends := k_sends ?k\<rparr>"
  have ne: "frame_message p \<noteq> []" using prefix_frame(3) [of p] p by fastforce
  let ?s1 = "?s\<lparr>reads := (reads ?s)(fd := [])\<rparr>" and ?conn = "conn\<lparr>read_buffer := frame_message p\<rparr>"
  have "handle_read (on_frame pr) fd (x_inbound x, ?s) =
      frame_loop (on_frame pr) fd (x_inbound x, set_connection fd ?conn ?s1)"
    using conn ne by (simp add: handle_read_def)
  also have "\<dots> = Some (q, set_connection fd (?conn\<lparr>read_buffer := []\<rparr>) (set_connection fd ?conn ?s1))"
    using p on_frame_quietly [OF parsed q(1) [unfolded tc]]
    by (intro frame_loop_frames [where ps = "[p]"]) (simp_all add: set_connection_def incomplete_def)
  finally obtain s where s: "handle_read (on_frame pr) fd (x_inbound x, ?s) = Some (q, s)" "connections s fd = Some conn"
    using conn(2) by (simp add: set_connection_def)
  let ?x1 = "x\<lparr>x_io := IoBatch [?ev]\<rparr>" and ?x2 = "x\<lparr>x_inbound := q, x_server := s, x_io := IoBatch []\<rparr>"
  have r0: "exchange_run sub can pr x [] [] (x\<lparr>x_io := IoWait\<rparr>)"
  proof (cases "x_io x = IoWait")
    case True
    then have "x\<lparr>x_io := IoWait\<rparr> = x" by (cases x) simp
    then show ?thesis using run_start [of sub can pr x] by simp
  qed (use io io_returns [of x sub can pr] in auto)
  have "exchange_run sub can pr (x\<lparr>x_io := IoWait\<rparr>) [] [] ?x1"
    by (rule quiet_io [of pr "quiet_kernel\<lparr>k_batch := [?ev]\<rparr>"]) (simp_all add: io_turn_simps kernel_ok_def)
  from exchange_run_trans [OF r0 this] have r1: "exchange_run sub can pr x [] [] ?x1" by simp
  have "io_turn pr ?k ?x1 = Some ?x2" using s(1) by (simp add: io_turn_def handle_event_def)
  moreover have "newly_accepted ?x1 ?x2 = [tc]" "newly_sent ?x1 ?x2 = []"
    using q(2) by (simp_all add: newly_accepted_def newly_sent_def del: length_content)
  moreover have "kernel_ok ?k ?x1" by (simp add: kernel_ok_def)
  ultimately have r2: "exchange_run sub can pr ?x1 [tc] [] ?x2"
    using run_io [OF run_start, of ?k ?x1 pr ?x2 sub can] by simp
  have r3: "exchange_run sub can pr ?x2 [] [] (x\<lparr>x_inbound := q, x_server := s, x_io := IoWait\<rparr>)"
    using io_returns [of ?x2 sub can pr] io(2) by simp
  from exchange_run_trans [OF r1 exchange_run_trans [OF r2 r3]] show ?thesis using q s(2) by fastforce
qed


section \<open>Properties\<close>

text \<open>
  An exchange with small rings, in which a client's request to cancel the unknown order 77 is
  accepted.
\<close>

abbreviation demo_run :: "TaggedCommand list \<Rightarrow> TaggedResponse list \<Rightarrow> MatchingEngine RiskEngine exchange \<Rightarrow> bool" where
  "demo_run \<equiv> exchange_run risk_submit_call risk_cancel_call (bind_protocol LittleEndian Binary)
     (exchange_init demo_risk 2 2 blank_command blank_response demo_server)"

definition demo_command :: TaggedCommand where
  "demo_command = \<lparr>tc_client = ClientId 1, tc_command = CmdCancel \<lparr>cr_id = OrderId 77\<rparr>\<rparr>"

definition demo_payload :: bytes where
  "demo_payload = wire (command_message (ClientId 1) (tc_command demo_command))"

lemma demo_parse: "parse_fn (bind_protocol LittleEndian Binary) demo_payload = Some (ParsedCancel \<lparr>cr_id = OrderId 77\<rparr>)"
  using decode_wire [of "command_message (ClientId 1) (tc_command demo_command)" LittleEndian "[]"]
  by (simp add: bind_protocol_def demo_payload_def parse_binary_def demo_command_def)

lemma demo_payload_length: "length demo_payload \<le> 4096"
  by (simp add: demo_payload_def demo_command_def)

lemma demo_unknown: "find_order (book demo) (OrderId 77) = None"
  by code_simp

lemma demo_dispatch: "\<exists>resp. dispatch_command risk_submit_call risk_cancel_call demo_risk demo_command = Some (resp, demo_risk)"
  using demo_unknown
  by (simp add: dispatch_command_def demo_command_def risk_cancel_call_def risk_cancel_def cancel_def demo_risk_def RiskEngine_init_def)

lemma demo_renders: "\<forall>r. render_fn (bind_protocol LittleEndian Binary) r \<noteq> None"
  by (simp add: bind_protocol_def render_binary_def render_trades_wire)

lemma demo_accepted:
  "\<exists>x. demo_run [demo_command] [] x \<and> x_at x = LoopHead \<and> x_io x = IoWait \<and> \<not> x_shutdown x \<and> \<not> x_server_shutdown x \<and>
     content (x_inbound x) = [demo_command] \<and> content (x_outbound x) = [] \<and> ring_capacity (x_outbound x) = 2 \<and>
     x_engine x = demo_risk"
proof -
  let ?x = "exchange_init demo_risk 2 2 blank_command blank_response demo_server"
  have "ring_budget 1 (x_inbound ?x)"
    by (simp add: exchange_init_def ring_init_budget pow2_capacity_2)
  then have "\<exists>q s. content q = content (x_inbound ?x) @ [demo_command] \<and> ring_capacity q = ring_capacity (x_inbound ?x) \<and>
      ring_budget 0 q \<and> connections s 5 = Some \<lparr>c_fd = 5, c_id = ClientId 1, read_buffer = [], write_buffer = []\<rparr> \<and>
      demo_run [demo_command] [] (?x\<lparr>x_inbound := q, x_server := s, x_io := IoWait\<rparr>)"
    by (intro io_accepts [OF _ _ _ _ demo_parse])
      (simp_all add: exchange_init_def demo_server_connections demo_payload_length ring_init_content demo_command_def)
  then obtain q s where q: "content q = [demo_command]"
    "demo_run [demo_command] [] (?x\<lparr>x_inbound := q, x_server := s, x_io := IoWait\<rparr>)"
    by (auto simp: exchange_init_def ring_init_content)
  then show ?thesis
    by (intro exI [of _ "?x\<lparr>x_inbound := q, x_server := s, x_io := IoWait\<rparr>"])
      (simp add: exchange_init_def ring_init_content)
qed

lemma demo_limits: "length [demo_command] + 2 < 2 ^ 64" by simp




lemma demo_quiescent:
  "\<exists>sent x. demo_run [demo_command] sent x \<and> x_at x = LoopHead \<and> \<not> w_pending (x_wakeup x) \<and> content (x_inbound x) = [] \<and>
     x_io x = IoWait \<and> x_eventfd x = 0"
proof -
  obtain x where run: "demo_run [demo_command] [] x" and x: "x_at x = LoopHead" "x_io x = IoWait" "\<not> x_shutdown x"
    "\<not> x_server_shutdown x" "content (x_inbound x) = [demo_command]" "content (x_outbound x) = []"
    "ring_capacity (x_outbound x) = 2" "x_engine x = demo_risk"
    using demo_accepted by blast
  note ok = exchange_run_ok [OF run pow2_capacity_2 pow2_capacity_2 demo_server_ok demo_limits]
  have "serve risk_submit_call risk_cancel_call (x_engine x) (content (x_inbound x)) \<noteq> None"
    using x(5,8) demo_dispatch by auto
  then obtain x1 where r1: "exchange_run risk_submit_call risk_cancel_call (bind_protocol LittleEndian Binary) x [] [] x1"
    and x1: "x_at x1 = LoopHead" "content (x_inbound x1) = []" "x_io x1 = IoWait" "\<not> x_server_shutdown x1"
      "\<not> w_pending (x_wakeup x1)"
    using engine_settles [OF ok demo_limits x(1,3)] x(2,4-7) by fastforce
  have run1: "demo_run [demo_command] [] x1" using exchange_run_trans [OF run r1] by simp
  obtain served where sv: "[demo_command] = served @ content (x_inbound x1)"
    "serve risk_submit_call risk_cancel_call demo_risk served = Some ([] @ content (x_outbound x1) @ held (x_at x1), x_engine x1)"
    and b: "ring_budget (run_budget - length ([] @ content (x_outbound x1))) (x_outbound x1)"
    and due: "content (x_outbound x1) \<noteq> [] \<longrightarrow> wakeup_due x1"
    using exchange_run_ok [OF run1 pow2_capacity_2 pow2_capacity_2 demo_server_ok demo_limits] by (rule exchange_okE)
  have "served = [demo_command]" using sv(1) x1(2) by simp
  then have "length (content (x_outbound x1)) = 1" using serve_length [OF sv(2)] x1(1) by (simp del: length_content)
  then have "0 < x_eventfd x1" using due x1(1,3,5) by (auto simp: wakeup_due_def simp del: length_content)
  then obtain q s where "exchange_run risk_submit_call risk_cancel_call (bind_protocol LittleEndian Binary) x1 []
      (content (x_outbound x1)) (x1\<lparr>x_eventfd := 0, x_outbound := q, x_server := s, x_io := IoWait\<rparr>)"
    using io_delivers [OF x1(3) _ x1(4) b demo_renders] by blast
  from exchange_run_trans [OF run1 this] x1 show ?thesis by fastforce
qed





section \<open>The deadlock of the coalesced wakeup\<close>

text \<open>
  The engine thread spins on the full outbound ring before it has written the eventfd, and
  the I/O thread, which alone empties that ring, waits for the eventfd.
\<close>

definition stuck :: "'e exchange \<Rightarrow> bool" where
  "stuck x \<longleftrightarrow> (\<exists>tagged. x_at x = Spinning tagged) \<and> of_nat (ring_capacity (x_outbound x)) \<le> ring_size (x_outbound x) \<and>
     x_eventfd x = 0 \<and> \<not> x_server_shutdown x \<and>
     (x_io x = IoLoop \<or> x_io x = IoWait \<or> (\<exists>evs. x_io x = IoBatch evs \<and> EvEventfd \<notin> set evs))"

lemma stuck_engine: "stuck x \<Longrightarrow> engine_turn sub can x = Some x"
  by (auto simp: stuck_def engine_turn_def)

lemma stuck_io:
  assumes "stuck x" and "kernel_ok k x" and "io_turn pr k x = Some x'"
  shows "stuck x' \<and> x_at x' = x_at x \<and> x_outbound x' = x_outbound x"
proof (cases "x_io x" rule: io_at_cases)
  case wait
  have "x' = x\<lparr>x_io := IoBatch (k_batch k)\<rparr>" using assms(1,3) by (simp add: io_turn_simps(1) [OF wait] stuck_def)
  moreover have "EvEventfd \<notin> set (k_batch k)" using assms(1,2) wait by (simp add: kernel_ok_def stuck_def)
  ultimately show ?thesis using assms(1) by (auto simp: stuck_def)
next
  case (connection ev evs)
  from connection assms(3) obtain q s where "x' = x\<lparr>x_inbound := q, x_server := s, x_io := IoBatch evs\<rparr>"
    by (rule io_turn_connection)
  then show ?thesis using assms(1) connection by (auto simp: stuck_def)
next
  case (listener as evs)
  then show ?thesis using assms(1,3) by (auto simp: io_turn_simps(3) [OF listener] stuck_def)
next
  case ended
  then show ?thesis using assms(1,3) by (auto simp: io_turn_simps(2) [OF ended] stuck_def)
next
  case loop
  then show ?thesis using assms(1,3) by (auto simp: io_turn_simps(6) [OF loop] stuck_def)
qed (use assms(1) in \<open>auto simp: stuck_def\<close>)

lemma stuck_run:
  assumes "exchange_run sub can pr x acc sent x'" and "stuck x"
  shows "x_shutdown x' \<or> (sent = [] \<and> stuck x' \<and> x_at x' = x_at x)"
  using assms(1)
proof (induction rule: exchange_run.induct)
  case (run_engine acc sent x1 x2)
  have "x_shutdown x2 = x_shutdown x1"
    using run_engine.hyps(2)
    by (auto simp: engine_turn_def notify_def Let_def bind_eq_Some_conv split: engine_at.splits prod.splits option.splits if_splits)
  then show ?case using run_engine.IH run_engine.hyps(2) stuck_engine [of x1 sub can] by auto
next
  case (run_io acc sent x1 k x2)
  show ?case
  proof (cases "x_shutdown x1")
    case True
    have "x_shutdown x2 = x_shutdown x1"
    proof (cases "x_io x1" rule: io_at_cases)
      case (connection ev evs)
      from this run_io.hyps(3) show ?thesis by (rule io_turn_connection) simp
    next
      case (drain evs)
      from this run_io.hyps(3) show ?thesis by (rule io_turn_drain) (simp add: io_stop_def)
    qed (use run_io.hyps(3) in \<open>auto simp: io_turn_simps io_stop_def split: if_splits\<close>)
    then show ?thesis using True by simp
  next
    case False
    then have "stuck x1" "sent = []" "x_at x1 = x_at x" using run_io.IH by auto
    then show ?thesis using stuck_io [OF _ run_io.hyps(2,3)] newly_same(2) [of x2 x1] by simp
  qed
qed (use assms(2) in \<open>auto simp: signal_handler_def\<close>)

text \<open>
  The way there: a client that keeps sending requests, each of which is accepted while the
  engine thread works on the one before, so that the inbound ring is never seen empty.
\<close>

lemma serve_append_dispatch:
  assumes "serve sub can e cmds = Some (resps, e')" and "serve sub can e (cmds @ [cmd]) \<noteq> None"
  shows "dispatch_command sub can e' cmd \<noteq> None"
  using assms
proof (induction cmds arbitrary: e resps)
  case (Cons c cmds)
  then obtain r e1 rs where "dispatch_command sub can e c = Some (r, e1)" "serve sub can e1 cmds = Some (rs, e')"
    by (auto simp: bind_eq_Some_conv)
  then show ?case using Cons.IH [of e1 rs] Cons.prems(2) by (auto simp: bind_eq_None_conv)
qed (auto simp: bind_eq_None_conv)


definition busy :: "TaggedCommand \<Rightarrow> int \<Rightarrow> Connection \<Rightarrow> nat \<Rightarrow> 'e exchange \<Rightarrow> bool" where
  "busy tc fd conn n x \<longleftrightarrow>
     x_at x = LoopHead \<and> x_io x = IoWait \<and> \<not> x_shutdown x \<and> \<not> x_server_shutdown x \<and> x_eventfd x = 0 \<and>
     content (x_inbound x) = [tc] \<and> length (content (x_outbound x)) = n \<and>
     connections (x_server x) fd = Some conn"

lemma busy_step:
  assumes x: "busy tc fd conn n x" and n: "n < ring_capacity (x_outbound x)" and cin: "0 < ring_capacity (x_inbound x)"
    and b: "ring_budget 1 (x_inbound x)" "ring_budget 1 (x_outbound x)"
    and parsed: "parse_fn pr p = Some result" "command_of result = Inr command" "length p \<le> 4096"
    and tc: "tc = \<lparr>tc_client = c_id conn, tc_command = command\<rparr>" "read_buffer conn = []"
    and d: "dispatch_command sub can (x_engine x) tc = Some (resp, e')"
  shows "\<exists>x'. exchange_run sub can pr x [tc] [] x' \<and> busy tc fd conn (Suc n) x' \<and>
    ring_capacity (x_outbound x') = ring_capacity (x_outbound x)"
proof -
  have at: "x_at x = LoopHead" "\<not> x_shutdown x" "content (x_inbound x) = [tc]" using x by (simp_all add: busy_def)
  have "length (content (x_outbound x)) < ring_capacity (x_outbound x)" using x n by (simp add: busy_def)
  then obtain x1 where r1: "exchange_run sub can pr x [] [] x1" and x1: "x_at x1 = LoopHead" "\<not> x_shutdown x1"
    "content (x_inbound x1) = []" "ring_budget (Suc 0) (x_inbound x1)"
    "content (x_outbound x1) = content (x_outbound x) @ [\<lparr>tr_client = tc_client tc, tr_response = resp\<rparr>]"
    "0 < ring_capacity (x_inbound x1)" "ring_capacity (x_outbound x1) = ring_capacity (x_outbound x)"
    "x_eventfd x1 = 0" "x_server x1 = x_server x" "x_io x1 = IoWait" "\<not> x_server_shutdown x1"
    using engine_serves [OF at _ _ _ d, of "Suc 0" 0 pr] b cin x by (auto simp: busy_def)
  obtain q s where q: "content q = [tc]" "connections s fd = Some conn"
    "exchange_run sub can pr x1 [tc] [] (x1\<lparr>x_inbound := q, x_server := s, x_io := IoWait\<rparr>)"
    using io_accepts [OF disjI1 [OF x1(10)] x1(11) _ tc(2) parsed x1(4) _ tc(1), of fd sub can] x1(3,6,9) x by (auto simp: busy_def)
  have "exchange_run sub can pr x [tc] [] (x1\<lparr>x_inbound := q, x_server := s, x_io := IoWait\<rparr>)"
    using exchange_run_trans [OF r1 q(3)] by simp
  then show ?thesis
    using x1 q(1,2) x
    by (intro exI [of _ "x1\<lparr>x_inbound := q, x_server := s, x_io := IoWait\<rparr>"]) (simp add: busy_def del: length_content)
qed

lemma busy_start:
  assumes "pow2_capacity cin" "pow2_capacity cout" and "connections s fd = Some conn" "read_buffer conn = []"
    and "parse_fn pr p = Some result" "command_of result = Inr command" "length p \<le> 4096"
    and "tc = \<lparr>tc_client = c_id conn, tc_command = command\<rparr>"
  shows "\<exists>x. exchange_run sub can pr (exchange_init e cin cout c0 r0 s) [tc] [] x \<and> busy tc fd conn 0 x \<and>
    ring_capacity (x_outbound x) = cout"
proof -
  let ?x = "exchange_init e cin cout c0 r0 s"
  have "\<exists>q s'. content q = content (x_inbound ?x) @ [tc] \<and> ring_capacity q = ring_capacity (x_inbound ?x) \<and>
      ring_budget 0 q \<and> connections s' fd = Some conn \<and>
      exchange_run sub can pr ?x [tc] [] (?x\<lparr>x_inbound := q, x_server := s', x_io := IoWait\<rparr>)"
    using assms pow2_capacity_bounds(1) [OF assms(1)]
    by (intro io_accepts) (simp_all add: exchange_init_def ring_init_content ring_init_budget del: length_content)
  then obtain q s' where "content q = [tc]" "connections s' fd = Some conn"
      "exchange_run sub can pr ?x [tc] [] (?x\<lparr>x_inbound := q, x_server := s', x_io := IoWait\<rparr>)"
    by (auto simp: exchange_init_def ring_init_content)
  then show ?thesis
    by (intro exI [of _ "?x\<lparr>x_inbound := q, x_server := s', x_io := IoWait\<rparr>"])
      (simp add: busy_def exchange_init_def ring_init_content del: length_content)
qed

lemma busy_dispatch:
  assumes "exchange_ok sub can e cin (replicate (Suc n) tc) [] x" and "busy tc fd conn m x"
    and "\<And>n. serve sub can e (replicate n tc) \<noteq> None"
  shows "\<exists>resp e'. dispatch_command sub can (x_engine x) tc = Some (resp, e')"
  using assms(1)
proof (rule exchange_okE)
  fix served
  assume sv: "replicate (Suc n) tc = served @ content (x_inbound x)"
    "serve sub can e served = Some ([] @ content (x_outbound x) @ held (x_at x), x_engine x)"
  have "served @ [tc] = replicate (Suc n) tc" using sv(1) assms(2) by (simp add: busy_def)
  then show ?thesis using serve_append_dispatch [OF sv(2), of tc] assms(3) [of "Suc n"] by auto
qed

lemma busy_run:
  assumes cap: "pow2_capacity cin" "pow2_capacity cout" and small: "cin + cout + 2 < 2 ^ 64" and s: "server_ok s"
    and conn: "connections s fd = Some conn" "read_buffer conn = []"
    and parsed: "parse_fn pr p = Some result" "command_of result = Inr command" "length p \<le> 4096"
    and tc: "tc = \<lparr>tc_client = c_id conn, tc_command = command\<rparr>"
    and answers: "\<And>n. serve sub can e (replicate n tc) \<noteq> None"
  shows "n \<le> cout \<Longrightarrow>
    \<exists>x. exchange_run sub can pr (exchange_init e cin cout c0 r0 s) (replicate (Suc n) tc) [] x \<and>
      busy tc fd conn n x \<and> ring_capacity (x_outbound x) = cout"
proof (induction n)
  case 0
  then show ?case using busy_start [OF cap conn parsed tc] by simp
next
  case (Suc n)
  then obtain x where run: "exchange_run sub can pr (exchange_init e cin cout c0 r0 s) (replicate (Suc n) tc) [] x"
    and x: "busy tc fd conn n x" and cout: "ring_capacity (x_outbound x) = cout"
    using Suc by auto
  have "length (replicate (Suc n) tc) + cin < 2 ^ 64" using Suc.prems small by simp
  note ok = exchange_run_ok [OF run cap s this]
  note b = exchange_okD(1,2) [OF ok] and cin = exchange_okD(3) [OF ok]
  have b1: "ring_budget 1 (x_inbound x)" "ring_budget 1 (x_outbound x)"
    using small Suc.prems x
    by (auto intro!: ring_budget_mono [OF b(1)] ring_budget_mono [OF b(2)] simp: run_budget_def busy_def simp del: length_content)
  obtain resp e' where d: "dispatch_command sub can (x_engine x) tc = Some (resp, e')"
    using busy_dispatch [OF ok x answers] by blast
  have "n < ring_capacity (x_outbound x)" using Suc.prems cout by simp
  moreover have "0 < ring_capacity (x_inbound x)" using pow2_capacity_bounds(1) [OF cap(1)] cin by simp
  ultimately obtain x' where "exchange_run sub can pr x [tc] [] x'" "busy tc fd conn (Suc n) x'"
    "ring_capacity (x_outbound x') = cout"
    using busy_step [OF x _ _ b1 parsed tc conn(2) d] cout by blast
  then show ?case using exchange_run_trans [OF run] by (fastforce simp: replicate_append_same)
qed

text \<open>
  C31. The coalesced wakeup can deadlock the server. A client whose requests arrive fast enough
  that the engine thread never sees the inbound ring empty drives it, with the requests that
  fill the outbound ring and one more, into a state in which the engine thread spins on the
  full ring without having written the eventfd; from there, whatever further requests arrive,
  the engine thread stays where it is and no response is ever sent, until a signal shuts the
  server down.
\<close>

theorem coalesced_wakeup_deadlock:
  assumes cap: "pow2_capacity cin" "pow2_capacity cout" and small: "cin + cout + 2 < 2 ^ 64" and s: "server_ok s"
    and conn: "connections s fd = Some conn" "read_buffer conn = []"
    and parsed: "parse_fn pr p = Some result" "command_of result = Inr command" "length p \<le> unat kMaxFrameSize"
    and answers: "\<And>n. serve sub can e (replicate n \<lparr>tc_client = c_id conn, tc_command = command\<rparr>) \<noteq> None"
  shows "\<exists>acc x. exchange_run sub can pr (exchange_init e cin cout c0 r0 s) acc [] x \<and> length acc = Suc cout \<and>
    (\<exists>tagged. x_at x = Spinning tagged) \<and>
    (\<forall>acc' sent' x'. exchange_run sub can pr x acc' sent' x' \<longrightarrow> x_shutdown x' \<or> (sent' = [] \<and> x_at x' = x_at x))"
proof -
  define tc where "tc = \<lparr>tc_client = c_id conn, tc_command = command\<rparr>"
  have ans: "serve sub can e (replicate n tc) \<noteq> None" for n using answers unfolding tc_def .
  have "length p \<le> 4096" using parsed(3) by (simp add: kMaxFrameSize_def)
  then obtain x where run: "exchange_run sub can pr (exchange_init e cin cout c0 r0 s) (replicate (Suc cout) tc) [] x"
    and x: "busy tc fd conn cout x" and cout: "ring_capacity (x_outbound x) = cout"
    using busy_run [OF cap small s conn parsed(1,2) _ tc_def ans, of cout] by auto
  have "length (replicate (Suc cout) tc) + cin < 2 ^ 64" using small by simp
  note ok = exchange_run_ok [OF run cap s this]
  note b = exchange_okD(1,2) [OF ok]
  obtain resp e' where d: "dispatch_command sub can (x_engine x) tc = Some (resp, e')"
    using busy_dispatch [OF ok x ans] by blast
  obtain q where q: "try_pop (x_inbound x) = (Some tc, q)"
    using rq.pop_item [OF b(1), of tc "[]"] x by (auto simp: busy_def)
  let ?x = "x\<lparr>x_inbound := q, x_engine := e', x_at := Spinning \<lparr>tr_client = tc_client tc, tr_response = resp\<rparr>\<rparr>"
  have "engine_turn sub can x = Some ?x" using x q d by (simp add: engine_turn_def busy_def)
  from run_engine [OF run this]
  have "exchange_run sub can pr (exchange_init e cin cout c0 r0 s) (replicate (Suc cout) tc) [] ?x" .
  moreover have "stuck ?x" using x cout spin_iff [OF b(2)] by (simp add: stuck_def busy_def)
  then have "x_shutdown x' \<or> (sent' = [] \<and> x_at x' = x_at ?x)" if "exchange_run sub can pr ?x acc' sent' x'" for acc' sent' x'
    using stuck_run [OF that] by blast
  moreover have "\<exists>tagged. x_at ?x = Spinning tagged" by simp
  moreover have "length (replicate (Suc cout) tc) = Suc cout" by simp
  ultimately show ?thesis by blast
qed

lemma server_dispatch:
  "\<exists>resp. dispatch_command risk_submit_call risk_cancel_call server_engine demo_command = Some (resp, server_engine)"
  by (simp add: dispatch_command_def demo_command_def risk_cancel_call_def risk_cancel_def cancel_def server_engine_def
      RiskEngine_init_def MatchingEngine_init_def OrderBook_init_def find_order_def)

lemma server_serves: "serve risk_submit_call risk_cancel_call server_engine (replicate n demo_command) \<noteq> None"
proof (induction n)
  case (Suc n)
  then show ?case using server_dispatch by auto
qed simp

lemma server_capacities: "pow2_capacity 4096" "pow2_capacity 65536"
  unfolding pow2_capacity_def by (rule exI [of _ 12], simp) (rule exI [of _ 16], simp)

theorem coalesced_wakeup_deadlock_witness:
  "\<exists>acc x. exchange_run risk_submit_call risk_cancel_call (bind_protocol LittleEndian Binary) (exchange_main demo_server) acc [] x \<and>
     length acc = 65537 \<and> (\<exists>tagged. x_at x = Spinning tagged) \<and>
     (\<forall>acc' sent' x'. exchange_run risk_submit_call risk_cancel_call (bind_protocol LittleEndian Binary) x acc' sent' x' \<longrightarrow>
        x_shutdown x' \<or> (sent' = [] \<and> x_at x' = x_at x))"
proof -
  let ?conn = "\<lparr>c_fd = 5, c_id = ClientId 1, read_buffer = [], write_buffer = []\<rparr>"
  have small: "4096 + 65536 + 2 < (2 :: nat) ^ 64" by simp
  have buffer: "read_buffer ?conn = []" by simp
  have cmd: "command_of (ParsedCancel \<lparr>cr_id = OrderId 77\<rparr>) = Inr (tc_command demo_command)" by (simp add: demo_command_def)
  have len: "length demo_payload \<le> unat kMaxFrameSize" using demo_payload_length by (simp add: kMaxFrameSize_def)
  have "serve risk_submit_call risk_cancel_call server_engine
      (replicate n \<lparr>tc_client = c_id ?conn, tc_command = tc_command demo_command\<rparr>) \<noteq> None" for n
    using server_serves [of n] by (simp add: demo_command_def)
  from coalesced_wakeup_deadlock [OF server_capacities small demo_server_ok demo_server_connections(1) buffer
      demo_parse cmd len this, of blank_command blank_response]
  show ?thesis unfolding exchange_main_def by simp
qed


section \<open>A handler that closes its connection\<close>

lemma close_closes: "connections (close_connection fd s) fd = None"
  by (simp add: close_connection_def split: option.splits)

lemma failed_send_closes:
  assumes ok: "server_ok s" and conn: "connections s fd = Some conn" and data: "data \<noteq> []" and fail: "sends s fd = SendFailed # as"
  shows "connections (send_to_client (c_id conn) data s) fd = None"
proof -
  let ?conn = "conn\<lparr>write_buffer := write_buffer conn @ data\<rparr>" and ?s = "set_connection fd (conn\<lparr>write_buffer := write_buffer conn @ data\<rparr>) s"
  have fd: "c_fd conn = fd" "client_to_fd s (c_id conn) = Some fd" using server_okD(1,2) [OF ok conn] by auto
  have "connections (flush_write_buffer ?conn ?s) fd = None"
    using fd data fail
    by (simp add: flush_write_buffer_def set_connection_def flush_loop.simps [of "SendFailed # as"] close_sends close_closes)
  then show ?thesis
    using fd conn by (simp add: send_to_client_def Let_def close_closes)
qed

text \<open>
  C32. The read loop uses a connection after its handler has destroyed it: when a client sends
  a frame that does not parse and the error reply cannot be sent, \<open>send_to_client\<close> erases the
  connection from the table inside the handler, and \<open>handle_read\<close> goes on with its reference
  to it. The model has no result for this event.
\<close>

theorem handler_destroys_connection:
  assumes ok: "server_ok s" and conn: "connections s fd = Some conn" "read_buffer conn = []"
    and input: "reads s fd = [ReadData (frame_message p)]" "length p \<le> unat kMaxFrameSize"
    and bad: "parse_fn pr p = Some (ParseError m)" "render_error_fn pr m \<noteq> None"
    and fail: "sends s fd = SendFailed # as"
  shows "handle_read (on_frame pr) fd (q, s) = None"
proof -
  obtain bs where bs: "render_error_fn pr m = Some bs" using bad(2) by blast
  have p: "length p \<le> 4096" using input(2) by (simp add: kMaxFrameSize_def)
  have frame: "frame_message p \<noteq> []" using prefix_frame(3) [of p] p by fastforce
  let ?conn = "conn\<lparr>read_buffer := frame_message p\<rparr>" and ?s1 = "s\<lparr>reads := (reads s)(fd := [])\<rparr>"
  let ?s = "set_connection fd ?conn ?s1"
  have ok': "server_ok ?s"
    by (rule set_connection_ok [of ?s1 fd conn]) (use ok conn server_okD(4) [OF ok conn(1)] in simp_all)
  have c: "connections ?s fd = Some ?conn" by (simp add: set_connection_def)
  have "frame_message bs \<noteq> []" by (simp add: frame_message_def Let_def)
  then have "connections (send_to_client (c_id conn) (frame_message bs) ?s) fd = None"
    using failed_send_closes [OF ok' c, of "frame_message bs" as] fail by (simp add: set_connection_def)
  moreover have "on_frame pr (c_id conn) p (q, ?s) = Some (q, send_to_client (c_id conn) (frame_message bs) ?s)"
    using bad(1) bs by (simp add: on_frame_def reply_error_def)
  moreover have "take (length p) (drop 4 (frame_message p)) = p"
    using drop_frame [OF p] by simp
  ultimately have "frame_loop (on_frame pr) fd (q, ?s) = None"
    using frame_size [OF p, of "[]"] prefix_frame(3) [of p] p c by (subst frame_loop.simps) simp
  then show ?thesis using conn input(1) frame by (simp add: handle_read_def)
qed

theorem handler_destroys_connection_witness:
  "handle_read (on_frame (bind_protocol LittleEndian Binary)) 5
     (ring_init 2 blank_command, demo_server\<lparr>reads := (\<lambda>_. [ReadData (frame_message [])]), sends := (\<lambda>_. [SendFailed])\<rparr>) = None"
proof (rule handler_destroys_connection)
  show "connections (demo_server\<lparr>reads := (\<lambda>_. [ReadData (frame_message [])]), sends := (\<lambda>_. [SendFailed])\<rparr>) 5 =
      Some \<lparr>c_fd = 5, c_id = ClientId 1, read_buffer = [], write_buffer = []\<rparr>"
    by (simp add: demo_server_connections)
  show "parse_fn (bind_protocol LittleEndian Binary) [] =
      Some (ParseError ''binary decode failed: invalid or truncated message'')"
    by (simp add: bind_protocol_def parse_binary_def decode_def)
qed (simp_all add: demo_server_ok bind_protocol_def render_binary_error_def)


section \<open>Shutdown\<close>

text \<open>
  The response to a command that is served just before a shutdown can be lost although the
  engine thread wakes the I/O thread for it: when the I/O thread is busy with other events at
  that moment, it sees the shutdown flag at the head of its loop before it comes to the eventfd.
\<close>

lemma shutdown_without_drain:
  assumes "x_at x = LoopHead" and "x_io x = IoBatch [EvListener []]"
  shows "\<exists>x'. exchange_run sub can pr x [] [] x' \<and> x_at x' = EngineStopped \<and> x_io x' = IoStopped \<and> x_outbound x' = x_outbound x"
proof -
  let ?x1 = "notify (signal_handler x)"
  let ?x2 = "?x1\<lparr>x_server_shutdown := True, x_eventfd := Suc (x_eventfd ?x1), x_at := EngineStopped\<rparr>"
  have "engine_turn sub can (signal_handler x) = Some ?x2"
    using assms(1) by (simp add: engine_turn_def signal_handler_def Let_def)
  from run_engine [OF run_signal [OF run_start] this] have r2: "exchange_run sub can pr x [] [] ?x2" .
  have io2: "x_io ?x2 = IoBatch [EvListener []]" using assms(2) by (simp add: signal_handler_def)
  let ?s = "handle_accept [] ((x_server ?x2)\<lparr>reads := k_reads quiet_kernel, sends := k_sends quiet_kernel\<rparr>)"
  let ?x3 = "?x2\<lparr>x_server := ?s, x_io := IoBatch []\<rparr>" and ?x4 = "?x2\<lparr>x_server := ?s, x_io := IoLoop\<rparr>"
  have r3: "exchange_run sub can pr ?x2 [] [] ?x3"
    by (rule quiet_io [of pr quiet_kernel]) (use io2 in \<open>simp_all add: io_turn_simps(3) [OF io2] kernel_ok_def\<close>)
  have r4: "exchange_run sub can pr ?x3 [] [] ?x4"
    by (rule quiet_io [of pr quiet_kernel]) (simp_all add: io_turn_simps kernel_ok_def)
  have r5: "exchange_run sub can pr ?x4 [] [] (io_stop ?x4)"
    by (rule quiet_io [of pr quiet_kernel]) (simp_all add: io_turn_simps kernel_ok_def io_stop_def)
  have "exchange_run sub can pr x [] [] (io_stop ?x4)"
    using exchange_run_trans [OF r2 exchange_run_trans [OF r3 exchange_run_trans [OF r4 r5]]] by simp
  then show ?thesis by (intro exI [of _ "io_stop ?x4"]) (simp add: io_stop_def signal_handler_def)
qed

lemma final_response_lost:
  "\<exists>x. demo_run [demo_command] [] x \<and> x_at x = EngineStopped \<and> x_io x = IoStopped \<and> length (content (x_outbound x)) = 1"
proof -
  let ?run = "exchange_run risk_submit_call risk_cancel_call (bind_protocol LittleEndian Binary)"
  obtain x where run: "demo_run [demo_command] [] x" and x: "x_at x = LoopHead" "x_io x = IoWait" "\<not> x_shutdown x"
    "content (x_inbound x) = [demo_command]" "content (x_outbound x) = []"
    "ring_capacity (x_outbound x) = 2" "x_engine x = demo_risk"
    using demo_accepted by blast
  note b = exchange_okD [OF exchange_run_ok [OF run pow2_capacity_2 pow2_capacity_2 demo_server_ok demo_limits]]
  let ?x1 = "x\<lparr>x_io := IoBatch [EvListener []]\<rparr>"
  have r1: "?run x [] [] ?x1"
    by (rule quiet_io [of _ "quiet_kernel\<lparr>k_batch := [EvListener []]\<rparr>"]) (use x in \<open>simp_all add: io_turn_simps kernel_ok_def\<close>)
  obtain resp where d: "dispatch_command risk_submit_call risk_cancel_call (x_engine ?x1) demo_command = Some (resp, demo_risk)"
    using demo_dispatch x(7) by auto
  have bi: "ring_budget (run_budget - length [demo_command]) (x_inbound ?x1)" using b(1) by simp
  have bo: "ring_budget (Suc 0) (x_outbound ?x1)" using ring_budget_mono [OF b(2)] x(5) by (simp add: run_budget_def)
  have room: "length (content (x_outbound ?x1)) < ring_capacity (x_outbound ?x1)"
    using x(5,6) by (simp del: length_content)
  have at: "x_at ?x1 = LoopHead" "\<not> x_shutdown ?x1" "content (x_inbound ?x1) = [demo_command]" using x by simp_all
  obtain x2 where r2: "?run ?x1 [] [] x2" and x2: "x_at x2 = LoopHead" "x_io x2 = IoBatch [EvListener []]"
    "content (x_outbound x2) = [\<lparr>tr_client = tc_client demo_command, tr_response = resp\<rparr>]"
    using engine_serves [OF at bi bo room d] x(5) by auto
  obtain x3 where r3: "?run x2 [] [] x3" and x3: "x_at x3 = EngineStopped" "x_io x3 = IoStopped" "x_outbound x3 = x_outbound x2"
    using shutdown_without_drain [OF x2(1,2)] by blast
  have "demo_run [demo_command] [] x3"
    using exchange_run_trans [OF run exchange_run_trans [OF r1 exchange_run_trans [OF r2 r3]]] by simp
  then show ?thesis using x2(3) x3 by (intro exI [of _ x3]) (simp del: length_content)
qed

end
