(* ===== verification/Feed_Messages.thy ===== *)
theory Feed_Messages
  imports Core_Types Byte_Order
begin

text \<open>
  \<^verbatim>\<open>src/adapters/udp/FeedMessage.hpp\<close> and \<^verbatim>\<open>TopOfBook.hpp\<close>: the messages of the market data feed
  and their layout in memory, which is what goes over the wire. The fields are aligned to
  their size, so a four-byte hole follows the symbol; a message is value-initialised before
  its fields are set, and the model has zeros in the hole.
\<close>

section \<open>Messages\<close>

datatype FeedType = TopOfBookType | TradeType | SnapshotType

fun feed_type_byte :: "FeedType \<Rightarrow> u8" where
  "feed_type_byte TopOfBookType = 1"
| "feed_type_byte TradeType = 2"
| "feed_type_byte SnapshotType = 3"

record FeedHeader =
  h_type :: FeedType
  h_sequence :: u64
  h_timestamp_ns :: u64

record TopOfBook =
  bid_price :: Price
  bid_qty :: Quantity
  ask_price :: Price
  ask_qty :: Quantity

text \<open>The four fields of the two messages that carry a view of the book are a \<open>TopOfBook\<close>.\<close>

record TopOfBookMessage =
  tm_header :: FeedHeader
  tm_symbol :: SymbolId
  tm_top :: TopOfBook

record TradeMessage =
  xm_header :: FeedHeader
  xm_symbol :: SymbolId
  xm_price :: Price
  xm_quantity :: Quantity
  xm_trade_sequence :: TradeSequence

record SnapshotMessage =
  sm_header :: FeedHeader
  sm_symbol :: SymbolId
  sm_top :: TopOfBook
  sm_as_of_sequence :: u64

datatype FeedMessage =
    FeedTop TopOfBookMessage
  | FeedTrade TradeMessage
  | FeedSnapshot SnapshotMessage


section \<open>Layout\<close>

definition sizeof_FeedHeader :: nat where "sizeof_FeedHeader = 24"
definition sizeof_TopOfBookMessage :: nat where "sizeof_TopOfBookMessage = 64"
definition sizeof_TradeMessage :: nat where "sizeof_TradeMessage = 56"
definition sizeof_SnapshotMessage :: nat where "sizeof_SnapshotMessage = 72"

lemmas sizeof_defs = sizeof_FeedHeader_def sizeof_TopOfBookMessage_def sizeof_TradeMessage_def sizeof_SnapshotMessage_def

definition header_bytes :: "endian \<Rightarrow> FeedHeader \<Rightarrow> u8 list" where
  "header_bytes en h = [feed_type_byte (h_type h)] @ replicate 7 0 @
     host_bytes en 8 (unat (h_sequence h)) @ host_bytes en 8 (unat (h_timestamp_ns h))"

definition symbol_bytes :: "endian \<Rightarrow> SymbolId \<Rightarrow> u8 list" where
  "symbol_bytes en s = host_bytes en 4 (unat (sym_value s)) @ replicate 4 0"

definition top_bytes :: "endian \<Rightarrow> TopOfBook \<Rightarrow> u8 list" where
  "top_bytes en t = host_bytes en 8 (unat (price_value (bid_price t))) @ host_bytes en 8 (unat (qty_value (bid_qty t))) @
     host_bytes en 8 (unat (price_value (ask_price t))) @ host_bytes en 8 (unat (qty_value (ask_qty t)))"

fun message_bytes :: "endian \<Rightarrow> FeedMessage \<Rightarrow> u8 list" where
  "message_bytes en (FeedTop m) = header_bytes en (tm_header m) @ symbol_bytes en (tm_symbol m) @ top_bytes en (tm_top m)"
| "message_bytes en (FeedTrade m) = header_bytes en (xm_header m) @ symbol_bytes en (xm_symbol m) @
     host_bytes en 8 (unat (price_value (xm_price m))) @ host_bytes en 8 (unat (qty_value (xm_quantity m))) @
     host_bytes en 8 (unat (tseq_value (xm_trade_sequence m)))"
| "message_bytes en (FeedSnapshot m) = header_bytes en (sm_header m) @ symbol_bytes en (sm_symbol m) @
     top_bytes en (sm_top m) @ host_bytes en 8 (unat (sm_as_of_sequence m))"

text \<open>The fields of a received object, at their offsets.\<close>

definition u64_at :: "endian \<Rightarrow> u8 list \<Rightarrow> nat \<Rightarrow> u64" where
  "u64_at en data offset = of_nat (host_value en (take 8 (drop offset data)))"

definition u32_at :: "endian \<Rightarrow> u8 list \<Rightarrow> nat \<Rightarrow> u32" where
  "u32_at en data offset = of_nat (host_value en (take 4 (drop offset data)))"

definition header_at :: "endian \<Rightarrow> FeedType \<Rightarrow> u8 list \<Rightarrow> FeedHeader" where
  "header_at en t data = \<lparr>h_type = t, h_sequence = u64_at en data 8, h_timestamp_ns = u64_at en data 16\<rparr>"

definition top_at :: "endian \<Rightarrow> u8 list \<Rightarrow> TopOfBook" where
  "top_at en data = \<lparr>bid_price = Price (u64_at en data 32), bid_qty = Quantity (u64_at en data 40),
     ask_price = Price (u64_at en data 48), ask_qty = Quantity (u64_at en data 56)\<rparr>"

definition top_message_at :: "endian \<Rightarrow> u8 list \<Rightarrow> TopOfBookMessage" where
  "top_message_at en data = \<lparr>tm_header = header_at en TopOfBookType data, tm_symbol = SymbolId (u32_at en data 24),
     tm_top = top_at en data\<rparr>"

definition trade_message_at :: "endian \<Rightarrow> u8 list \<Rightarrow> TradeMessage" where
  "trade_message_at en data = \<lparr>xm_header = header_at en TradeType data, xm_symbol = SymbolId (u32_at en data 24),
     xm_price = Price (u64_at en data 32), xm_quantity = Quantity (u64_at en data 40),
     xm_trade_sequence = TradeSequence (u64_at en data 48)\<rparr>"

definition snapshot_message_at :: "endian \<Rightarrow> u8 list \<Rightarrow> SnapshotMessage" where
  "snapshot_message_at en data = \<lparr>sm_header = header_at en SnapshotType data, sm_symbol = SymbolId (u32_at en data 24),
     sm_top = top_at en data, sm_as_of_sequence = u64_at en data 64\<rparr>"


section \<open>What is written is what is read\<close>

lemma host_value_bytes:
  assumes "v < 256 ^ n"
  shows "host_value en (host_bytes en n v) = v"
  using assms by (cases en) (simp_all add: host_value_def host_bytes_def be_value_be_bytes)

lemma u64_at_field: "offset = length pre \<Longrightarrow> u64_at en (pre @ host_bytes en 8 (unat v) @ post) offset = v"
  using unsigned_less [of v, where ?'a = nat] by (simp add: u64_at_def host_value_bytes)

lemma u32_at_field: "offset = length pre \<Longrightarrow> u32_at en (pre @ host_bytes en 4 (unat v) @ post) offset = v"
  using unsigned_less [of v, where ?'a = nat] by (simp add: u32_at_def host_value_bytes)

lemma length_header_bytes [simp]: "length (header_bytes en h) = 24"
  by (simp add: header_bytes_def)

lemma length_symbol_bytes [simp]: "length (symbol_bytes en s) = 8"
  by (simp add: symbol_bytes_def)

lemma length_top_bytes [simp]: "length (top_bytes en t) = 32"
  by (simp add: top_bytes_def)

lemma length_message_bytes:
  "length (message_bytes en (FeedTop m)) = sizeof_TopOfBookMessage"
  "length (message_bytes en (FeedTrade m')) = sizeof_TradeMessage"
  "length (message_bytes en (FeedSnapshot m'')) = sizeof_SnapshotMessage"
  by (simp_all add: sizeof_defs)

lemma header_at_bytes: "header_at en (h_type h) (header_bytes en h @ post) = h"
proof -
  have "u64_at en (header_bytes en h @ post) 8 = h_sequence h"
    using u64_at_field [of 8 "[feed_type_byte (h_type h)] @ replicate 7 0"] by (simp add: header_bytes_def)
  moreover have "u64_at en (header_bytes en h @ post) 16 = h_timestamp_ns h"
    using u64_at_field [of 16 "[feed_type_byte (h_type h)] @ replicate 7 0 @ host_bytes en 8 (unat (h_sequence h))"]
    by (simp add: header_bytes_def)
  ultimately show ?thesis by (simp add: header_at_def)
qed

lemma symbol_at_bytes: "u32_at en (header_bytes en h @ symbol_bytes en s @ post) 24 = sym_value s"
  using u32_at_field [of 24 "header_bytes en h"] by (simp add: symbol_bytes_def)

lemma top_at_bytes: "top_at en (header_bytes en h @ symbol_bytes en s @ top_bytes en t @ post) = t"
proof -
  let ?pre = "header_bytes en h @ symbol_bytes en s"
  let ?b = "host_bytes en 8 (unat (price_value (bid_price t)))" and ?q = "host_bytes en 8 (unat (qty_value (bid_qty t)))"
  let ?a = "host_bytes en 8 (unat (price_value (ask_price t)))"
  have "u64_at en (?pre @ top_bytes en t @ post) 32 = price_value (bid_price t)"
    using u64_at_field [of 32 ?pre] by (simp add: top_bytes_def)
  moreover have "u64_at en (?pre @ top_bytes en t @ post) 40 = qty_value (bid_qty t)"
    using u64_at_field [of 40 "?pre @ ?b"] by (simp add: top_bytes_def)
  moreover have "u64_at en (?pre @ top_bytes en t @ post) 48 = price_value (ask_price t)"
    using u64_at_field [of 48 "?pre @ ?b @ ?q"] by (simp add: top_bytes_def)
  moreover have "u64_at en (?pre @ top_bytes en t @ post) 56 = qty_value (ask_qty t)"
    using u64_at_field [of 56 "?pre @ ?b @ ?q @ ?a"] by (simp add: top_bytes_def)
  ultimately show ?thesis by (simp add: top_at_def)
qed

lemma top_message_bytes:
  assumes "h_type (tm_header m) = TopOfBookType"
  shows "top_message_at en (message_bytes en (FeedTop m)) = m"
  using header_at_bytes [of en "tm_header m"] symbol_at_bytes [of en "tm_header m" "tm_symbol m"]
    top_at_bytes [of en "tm_header m" "tm_symbol m" "tm_top m" "[]"] assms
  by (simp add: top_message_at_def)

lemma snapshot_message_bytes:
  assumes "h_type (sm_header m) = SnapshotType"
  shows "snapshot_message_at en (message_bytes en (FeedSnapshot m)) = m"
proof -
  have "u64_at en (message_bytes en (FeedSnapshot m)) 64 = sm_as_of_sequence m"
    using u64_at_field [of 64 "header_bytes en (sm_header m) @ symbol_bytes en (sm_symbol m) @ top_bytes en (sm_top m)" en _ "[]"]
    by simp
  then show ?thesis
    using header_at_bytes [of en "sm_header m"] symbol_at_bytes [of en "sm_header m" "sm_symbol m"]
      top_at_bytes [of en "sm_header m" "sm_symbol m" "sm_top m"] assms
    by (simp add: snapshot_message_at_def)
qed

lemma trade_message_bytes:
  assumes "h_type (xm_header m) = TradeType"
  shows "trade_message_at en (message_bytes en (FeedTrade m)) = m"
proof -
  let ?pre = "header_bytes en (xm_header m) @ symbol_bytes en (xm_symbol m)"
  let ?p = "host_bytes en 8 (unat (price_value (xm_price m)))" and ?q = "host_bytes en 8 (unat (qty_value (xm_quantity m)))"
  have "u64_at en (message_bytes en (FeedTrade m)) 32 = price_value (xm_price m)"
    using u64_at_field [of 32 ?pre] by simp
  moreover have "u64_at en (message_bytes en (FeedTrade m)) 40 = qty_value (xm_quantity m)"
    using u64_at_field [of 40 "?pre @ ?p"] by simp
  moreover have "u64_at en (message_bytes en (FeedTrade m)) 48 = tseq_value (xm_trade_sequence m)"
    using u64_at_field [of 48 "?pre @ ?p @ ?q" en _ "[]"] by simp
  ultimately show ?thesis
    using header_at_bytes [of en "xm_header m"] symbol_at_bytes [of en "xm_header m" "xm_symbol m"] assms
    by (simp add: trade_message_at_def)
qed

end
