(* ===== verification/Feed.thy ===== *)
theory Feed
  imports Feed_Messages
begin

text \<open>
  \<^verbatim>\<open>src/adapters/udp/udp_feed_publisher.cpp\<close> and \<^verbatim>\<open>book_builder.cpp\<close>: the publisher, which derives a
  top of book from the engine's events and numbers its messages, and the subscriber, which
  rebuilds it from whatever messages reach it. The publisher's state keeps the messages it has
  given to the send function, in order; which of them a subscriber receives, how often and in
  what order is not the publisher's to say. The clock is an argument.
\<close>

section \<open>The publisher\<close>

record SideState =
  ss_price :: Price
  ss_qty :: Quantity
  ss_count :: u64

record UdpFeedPublisher =
  up_symbol :: SymbolId
  up_snapshot_interval :: u64
  up_next_sequence :: u64
  up_messages_since_snapshot :: u64
  up_bid :: SideState
  up_ask :: SideState
  up_clock :: "u64 \<Rightarrow> u64"  \<comment> \<open>what the clock shows when the message of this number is made\<close>
  up_sent :: "FeedMessage list"

definition side_init :: SideState where
  "side_init = \<lparr>ss_price = Price 0, ss_qty = Quantity 0, ss_count = 0\<rparr>"

definition UdpFeedPublisher_init :: "SymbolId \<Rightarrow> u64 \<Rightarrow> (u64 \<Rightarrow> u64) \<Rightarrow> UdpFeedPublisher" where
  "UdpFeedPublisher_init symbol interval clock = \<lparr>up_symbol = symbol, up_snapshot_interval = interval,
     up_next_sequence = 1, up_messages_since_snapshot = 0, up_bid = side_init, up_ask = side_init,
     up_clock = clock, up_sent = []\<rparr>"

definition current_top_of_book :: "UdpFeedPublisher \<Rightarrow> TopOfBook" where
  "current_top_of_book p = \<lparr>bid_price = ss_price (up_bid p), bid_qty = ss_qty (up_bid p),
     ask_price = ss_price (up_ask p), ask_qty = ss_qty (up_ask p)\<rparr>"

definition make_header :: "FeedType \<Rightarrow> UdpFeedPublisher \<Rightarrow> FeedHeader \<times> UdpFeedPublisher" where
  "make_header t p = (\<lparr>h_type = t, h_sequence = up_next_sequence p, h_timestamp_ns = up_clock p (up_next_sequence p)\<rparr>,
     p\<lparr>up_next_sequence := up_next_sequence p + 1\<rparr>)"

definition send_to_all :: "FeedMessage \<Rightarrow> UdpFeedPublisher \<Rightarrow> UdpFeedPublisher" where
  "send_to_all m p = p\<lparr>up_sent := up_sent p @ [m]\<rparr>"

definition publish_top_of_book :: "UdpFeedPublisher \<Rightarrow> UdpFeedPublisher" where
  "publish_top_of_book p =
     (case make_header TopOfBookType p of
        (h, p') \<Rightarrow> send_to_all (FeedTop \<lparr>tm_header = h, tm_symbol = up_symbol p', tm_top = current_top_of_book p'\<rparr>) p')"

definition publish_snapshot :: "UdpFeedPublisher \<Rightarrow> UdpFeedPublisher" where
  "publish_snapshot p =
     (case make_header SnapshotType p of
        (h, p') \<Rightarrow> send_to_all (FeedSnapshot \<lparr>sm_header = h, sm_symbol = up_symbol p', sm_top = current_top_of_book p',
          sm_as_of_sequence = h_sequence h\<rparr>) p')"

definition check_snapshot_trigger :: "UdpFeedPublisher \<Rightarrow> UdpFeedPublisher" where
  "check_snapshot_trigger p =
     (let p' = p\<lparr>up_messages_since_snapshot := up_messages_since_snapshot p + 1\<rparr>
      in if up_messages_since_snapshot p' \<ge> up_snapshot_interval p'
         then (publish_snapshot p')\<lparr>up_messages_since_snapshot := 0\<rparr>
         else p')"

definition publish_trade :: "Trade \<Rightarrow> UdpFeedPublisher \<Rightarrow> UdpFeedPublisher" where
  "publish_trade trade p =
     (case make_header TradeType p of
        (h, p') \<Rightarrow> send_to_all (FeedTrade \<lparr>xm_header = h, xm_symbol = up_symbol p', xm_price = t_price trade,
          xm_quantity = t_quantity trade, xm_trade_sequence = trade_sequence trade\<rparr>) p')"

text \<open>A side that loses quantity, and an order if one is removed; an empty side is zeroed.\<close>

definition side_consume :: "Quantity \<Rightarrow> bool \<Rightarrow> SideState \<Rightarrow> SideState" where
  "side_consume q removed st =
     (let st1 = st\<lparr>ss_qty := (if qty_value q \<le> qty_value (ss_qty st) then Quantity (qty_value (ss_qty st) - qty_value q)
            else Quantity 0)\<rparr>;
          st2 = (if removed then st1\<lparr>ss_count := ss_count st1 - 1\<rparr> else st1)
      in if ss_count st2 = 0 then st2\<lparr>ss_price := Price 0, ss_qty := Quantity 0\<rparr> else st2)"

definition publish_update :: "UdpFeedPublisher \<Rightarrow> UdpFeedPublisher" where
  "publish_update p = check_snapshot_trigger (publish_top_of_book p)"

definition feed_on_trade :: "Trade \<Rightarrow> UdpFeedPublisher \<Rightarrow> UdpFeedPublisher" where
  "feed_on_trade trade p =
     (let p1 = check_snapshot_trigger (publish_trade trade p)
      in if ss_price (up_bid p1) = t_price trade \<and> ss_count (up_bid p1) > 0 then
           publish_update (p1\<lparr>up_bid := side_consume (t_quantity trade) (resting_order_removed trade) (up_bid p1)\<rparr>)
         else if ss_price (up_ask p1) = t_price trade \<and> ss_count (up_ask p1) > 0 then
           publish_update (p1\<lparr>up_ask := side_consume (t_quantity trade) (resting_order_removed trade) (up_ask p1)\<rparr>)
         else p1)"

text \<open>An order that joins a side: a better price replaces the best, an equal one adds to it.\<close>

definition side_join :: "bool \<Rightarrow> Price \<Rightarrow> Quantity \<Rightarrow> SideState \<Rightarrow> SideState option" where
  "side_join better price q st =
     (if ss_count st = 0 \<or> better then Some \<lparr>ss_price = price, ss_qty = q, ss_count = 1\<rparr>
      else if price = ss_price st then
        Some (st\<lparr>ss_qty := Quantity (qty_value (ss_qty st) + qty_value q), ss_count := ss_count st + 1\<rparr>)
      else None)"

definition feed_on_order_accepted :: "OrderAccepted \<Rightarrow> UdpFeedPublisher \<Rightarrow> UdpFeedPublisher" where
  "feed_on_order_accepted ev p =
     (if acc_price ev = Price 0 then p
      else if acc_side ev = Buy then
        if ss_count (up_ask p) > 0 \<and> acc_price ev \<ge> ss_price (up_ask p) then p
        else case side_join (acc_price ev > ss_price (up_bid p)) (acc_price ev) (acc_quantity ev) (up_bid p) of
            None \<Rightarrow> p | Some st \<Rightarrow> publish_update (p\<lparr>up_bid := st\<rparr>)
      else
        if ss_count (up_bid p) > 0 \<and> acc_price ev \<le> ss_price (up_bid p) then p
        else case side_join (acc_price ev < ss_price (up_ask p)) (acc_price ev) (acc_quantity ev) (up_ask p) of
            None \<Rightarrow> p | Some st \<Rightarrow> publish_update (p\<lparr>up_ask := st\<rparr>))"

definition feed_on_order_cancelled :: "OrderCancelled \<Rightarrow> UdpFeedPublisher \<Rightarrow> UdpFeedPublisher" where
  "feed_on_order_cancelled ev p =
     (if can_side ev = Buy \<and> can_price ev = ss_price (up_bid p) \<and> ss_count (up_bid p) > 0 then
        publish_update (p\<lparr>up_bid := side_consume (can_remaining_qty ev) True (up_bid p)\<rparr>)
      else if can_side ev = Sell \<and> can_price ev = ss_price (up_ask p) \<and> ss_count (up_ask p) > 0 then
        publish_update (p\<lparr>up_ask := side_consume (can_remaining_qty ev) True (up_ask p)\<rparr>)
      else p)"

fun feed_apply :: "SinkCall \<Rightarrow> UdpFeedPublisher \<Rightarrow> UdpFeedPublisher" where
  "feed_apply (on_trade trade) p = feed_on_trade trade p"
| "feed_apply (on_order_accepted ev) p = feed_on_order_accepted ev p"
| "feed_apply (on_order_cancelled ev) p = feed_on_order_cancelled ev p"


section \<open>The book builder\<close>

record PerSymbolState =
  ps_book :: "TopOfBook option"
  ps_last_sequence :: u64
  ps_anchored :: bool
  ps_stale :: bool

record UdpFeedBookBuilder =
  bb_symbols :: "SymbolId \<Rightarrow> PerSymbolState option"
  bb_gaps :: "(SymbolId \<times> u64 \<times> u64) list"  \<comment> \<open>the calls of the gap logger\<close>

definition UdpFeedBookBuilder_init :: UdpFeedBookBuilder where
  "UdpFeedBookBuilder_init = \<lparr>bb_symbols = (\<lambda>_. None), bb_gaps = []\<rparr>"

definition set_symbol :: "SymbolId \<Rightarrow> PerSymbolState \<Rightarrow> UdpFeedBookBuilder \<Rightarrow> UdpFeedBookBuilder" where
  "set_symbol s st b = b\<lparr>bb_symbols := (bb_symbols b)(s := Some st)\<rparr>"

text \<open>\<open>symbols_[s]\<close>: the entry, inserted with its defaults when there is none.\<close>

definition symbol_state :: "SymbolId \<Rightarrow> UdpFeedBookBuilder \<Rightarrow> PerSymbolState" where
  "symbol_state s b = (case bb_symbols b s of
     None \<Rightarrow> \<lparr>ps_book = None, ps_last_sequence = 0, ps_anchored = False, ps_stale = False\<rparr> | Some st \<Rightarrow> st)"

definition apply_snapshot :: "SnapshotMessage \<Rightarrow> UdpFeedBookBuilder \<Rightarrow> UdpFeedBookBuilder" where
  "apply_snapshot msg b = set_symbol (sm_symbol msg) ((symbol_state (sm_symbol msg) b)
     \<lparr>ps_anchored := True, ps_stale := False, ps_last_sequence := h_sequence (sm_header msg), ps_book := Some (sm_top msg)\<rparr>) b"

definition check_sequence :: "SymbolId \<Rightarrow> u64 \<Rightarrow> UdpFeedBookBuilder \<Rightarrow> UdpFeedBookBuilder" where
  "check_sequence s incoming b =
     (let st = symbol_state s b; expected = ps_last_sequence st + 1
      in if incoming \<noteq> expected
         then (set_symbol s (st\<lparr>ps_stale := True\<rparr>) b)\<lparr>bb_gaps := bb_gaps b @ [(s, expected, incoming)]\<rparr>
         else set_symbol s st b)"

text \<open>The common part of the two incremental messages; \<open>None\<close> when the message is discarded.\<close>

definition accept_sequence :: "SymbolId \<Rightarrow> u64 \<Rightarrow> UdpFeedBookBuilder \<Rightarrow> UdpFeedBookBuilder option" where
  "accept_sequence s incoming b =
     (case bb_symbols b s of
        None \<Rightarrow> None
      | Some st \<Rightarrow>
          if \<not> ps_anchored st then None
          else if incoming \<le> ps_last_sequence st then None
          else let b' = check_sequence s incoming b
               in Some (set_symbol s ((symbol_state s b')\<lparr>ps_last_sequence := incoming\<rparr>) b'))"

definition apply_top_of_book :: "TopOfBookMessage \<Rightarrow> UdpFeedBookBuilder \<Rightarrow> UdpFeedBookBuilder" where
  "apply_top_of_book msg b =
     (case accept_sequence (tm_symbol msg) (h_sequence (tm_header msg)) b of
        None \<Rightarrow> b
      | Some b' \<Rightarrow> set_symbol (tm_symbol msg) ((symbol_state (tm_symbol msg) b')\<lparr>ps_book := Some (tm_top msg)\<rparr>) b')"

definition apply_trade :: "TradeMessage \<Rightarrow> UdpFeedBookBuilder \<Rightarrow> UdpFeedBookBuilder" where
  "apply_trade msg b =
     (case accept_sequence (xm_symbol msg) (h_sequence (xm_header msg)) b of None \<Rightarrow> b | Some b' \<Rightarrow> b')"

definition on_message :: "endian \<Rightarrow> u8 list \<Rightarrow> UdpFeedBookBuilder \<Rightarrow> UdpFeedBookBuilder" where
  "on_message en data b =
     (if length data < sizeof_FeedHeader then b
      else let t = data ! 0
        in if t = feed_type_byte SnapshotType then
             (if length data < sizeof_SnapshotMessage then b else apply_snapshot (snapshot_message_at en data) b)
           else if t = feed_type_byte TopOfBookType then
             (if length data < sizeof_TopOfBookMessage then b else apply_top_of_book (top_message_at en data) b)
           else if t = feed_type_byte TradeType then
             (if length data < sizeof_TradeMessage then b else apply_trade (trade_message_at en data) b)
           else b)"

definition top_of_book :: "SymbolId \<Rightarrow> UdpFeedBookBuilder \<Rightarrow> TopOfBook option" where
  "top_of_book s b =
     (case bb_symbols b s of None \<Rightarrow> None | Some st \<Rightarrow> if \<not> ps_anchored st then None else ps_book st)"

definition is_stale :: "SymbolId \<Rightarrow> UdpFeedBookBuilder \<Rightarrow> bool" where
  "is_stale s b = (case bb_symbols b s of None \<Rightarrow> False | Some st \<Rightarrow> ps_stale st)"

definition is_anchored :: "SymbolId \<Rightarrow> UdpFeedBookBuilder \<Rightarrow> bool" where
  "is_anchored s b = (case bb_symbols b s of None \<Rightarrow> False | Some st \<Rightarrow> ps_anchored st)"


section \<open>What the publisher has published\<close>

fun message_sequence :: "FeedMessage \<Rightarrow> u64" where
  "message_sequence (FeedTop m) = h_sequence (tm_header m)"
| "message_sequence (FeedTrade m) = h_sequence (xm_header m)"
| "message_sequence (FeedSnapshot m) = h_sequence (sm_header m)"

text \<open>A message of this publisher: its type byte is that of its layout, its symbol the publisher's.\<close>

fun message_ok :: "SymbolId \<Rightarrow> FeedMessage \<Rightarrow> bool" where
  "message_ok s (FeedTop m) \<longleftrightarrow> h_type (tm_header m) = TopOfBookType \<and> tm_symbol m = s"
| "message_ok s (FeedTrade m) \<longleftrightarrow> h_type (xm_header m) = TradeType \<and> xm_symbol m = s"
| "message_ok s (FeedSnapshot m) \<longleftrightarrow> h_type (sm_header m) = SnapshotType \<and> sm_symbol m = s"

text \<open>The view of the book a stream of messages gives: that of the last one that carries it.\<close>

fun next_view :: "FeedMessage \<Rightarrow> TopOfBook \<Rightarrow> TopOfBook" where
  "next_view (FeedTop m) t = tm_top m"
| "next_view (FeedTrade m) t = t"
| "next_view (FeedSnapshot m) t = sm_top m"

definition empty_top :: TopOfBook where
  "empty_top = \<lparr>bid_price = Price 0, bid_qty = Quantity 0, ask_price = Price 0, ask_qty = Quantity 0\<rparr>"

definition view :: "FeedMessage list \<Rightarrow> TopOfBook" where
  "view ms = fold next_view ms empty_top"

lemma view_simps [simp]: "view [] = empty_top" "view (ms @ [m]) = next_view m (view ms)"
  by (simp_all add: view_def)

definition numbered :: "SymbolId \<Rightarrow> FeedMessage list \<Rightarrow> bool" where
  "numbered s ms \<longleftrightarrow> (\<forall>i < length ms. message_sequence (ms ! i) = of_nat (Suc i) \<and> message_ok s (ms ! i))"

lemma numbered_snoc:
  "numbered s ms \<Longrightarrow> message_sequence m = of_nat (Suc (length ms)) \<Longrightarrow> message_ok s m \<Longrightarrow> numbered s (ms @ [m])"
  by (auto simp: numbered_def nth_append less_Suc_eq)

definition publisher_ok :: "UdpFeedPublisher \<Rightarrow> bool" where
  "publisher_ok p \<longleftrightarrow> numbered (up_symbol p) (up_sent p) \<and> up_next_sequence p = of_nat (Suc (length (up_sent p)))"

text \<open>Its messages are numbered without gaps, and the last view it published is its own.\<close>

definition published :: "UdpFeedPublisher \<Rightarrow> bool" where
  "published p \<longleftrightarrow> publisher_ok p \<and> view (up_sent p) = current_top_of_book p"

lemmas publish_defs = make_header_def send_to_all_def current_top_of_book_def

lemma publish_top_of_book_ok:
  assumes "publisher_ok p"
  shows "published (publish_top_of_book p) \<and> up_symbol (publish_top_of_book p) = up_symbol p \<and>
    current_top_of_book (publish_top_of_book p) = current_top_of_book p"
  using assms by (auto simp: published_def publisher_ok_def publish_top_of_book_def publish_defs intro!: numbered_snoc)

lemma publish_snapshot_ok:
  assumes "publisher_ok p"
  shows "published (publish_snapshot p) \<and> up_symbol (publish_snapshot p) = up_symbol p \<and>
    current_top_of_book (publish_snapshot p) = current_top_of_book p"
  using assms by (auto simp: published_def publisher_ok_def publish_snapshot_def publish_defs intro!: numbered_snoc)

lemma publish_trade_ok:
  assumes "published p"
  shows "published (publish_trade trade p) \<and> up_symbol (publish_trade trade p) = up_symbol p"
  using assms by (auto simp: published_def publisher_ok_def publish_trade_def publish_defs intro!: numbered_snoc)

lemma published_counter [simp]:
  "published (p\<lparr>up_messages_since_snapshot := n\<rparr>) = published p"
  "publisher_ok (p\<lparr>up_messages_since_snapshot := n\<rparr>) = publisher_ok p"
  "publisher_ok (p\<lparr>up_bid := st\<rparr>) = publisher_ok p" "publisher_ok (p\<lparr>up_ask := st\<rparr>) = publisher_ok p"
  by (simp_all add: published_def publisher_ok_def current_top_of_book_def)

lemma check_snapshot_trigger_ok:
  assumes "published p"
  shows "published (check_snapshot_trigger p) \<and> up_symbol (check_snapshot_trigger p) = up_symbol p"
  using assms publish_snapshot_ok [of "p\<lparr>up_messages_since_snapshot := up_messages_since_snapshot p + 1\<rparr>"]
  by (simp add: check_snapshot_trigger_def Let_def published_def [of p])

lemma publish_update_ok:
  assumes "publisher_ok p"
  shows "published (publish_update p) \<and> up_symbol (publish_update p) = up_symbol p"
  using publish_top_of_book_ok [OF assms] check_snapshot_trigger_ok by (simp add: publish_update_def)

lemma feed_apply_ok:
  assumes "published p"
  shows "published (feed_apply ev p) \<and> up_symbol (feed_apply ev p) = up_symbol p"
proof (cases ev)
  case (on_trade trade)
  let ?p = "check_snapshot_trigger (publish_trade trade p)"
  have "published ?p" "up_symbol ?p = up_symbol p"
    using publish_trade_ok [OF assms] check_snapshot_trigger_ok by simp_all
  moreover from this have "publisher_ok ?p" by (simp add: published_def)
  ultimately show ?thesis
    using on_trade publish_update_ok [of "?p\<lparr>up_bid := st\<rparr>" for st] publish_update_ok [of "?p\<lparr>up_ask := st\<rparr>" for st]
    by (simp add: feed_on_trade_def Let_def)
next
  case (on_order_accepted e)
  have "publisher_ok p" using assms by (simp add: published_def)
  then show ?thesis
    using on_order_accepted assms publish_update_ok [of "p\<lparr>up_bid := st\<rparr>" for st] publish_update_ok [of "p\<lparr>up_ask := st\<rparr>" for st]
    by (simp add: feed_on_order_accepted_def split: option.splits)
next
  case (on_order_cancelled e)
  have "publisher_ok p" using assms by (simp add: published_def)
  then show ?thesis
    using on_order_cancelled assms publish_update_ok [of "p\<lparr>up_bid := st\<rparr>" for st] publish_update_ok [of "p\<lparr>up_ask := st\<rparr>" for st]
    by (simp add: feed_on_order_cancelled_def)
qed

lemma feed_run_ok:
  assumes "p = fold feed_apply events (UdpFeedPublisher_init s interval clock)"
  shows "published p" and "up_symbol p = s"
proof -
  have "published (UdpFeedPublisher_init s interval clock)"
    by (simp add: published_def publisher_ok_def numbered_def UdpFeedPublisher_init_def current_top_of_book_def
        side_init_def empty_top_def)
  then have "published (fold feed_apply events q) \<and> up_symbol (fold feed_apply events q) = s"
    if "published q" "up_symbol q = s" for q
    using that by (induction events arbitrary: q) (simp_all add: feed_apply_ok)
  then show "published p" and "up_symbol p = s"
    using \<open>published (UdpFeedPublisher_init s interval clock)\<close> unfolding assms
    by (simp_all add: UdpFeedPublisher_init_def)
qed


section \<open>What the subscriber makes of it\<close>

fun apply_message :: "FeedMessage \<Rightarrow> UdpFeedBookBuilder \<Rightarrow> UdpFeedBookBuilder" where
  "apply_message (FeedTop m) b = apply_top_of_book m b"
| "apply_message (FeedTrade m) b = apply_trade m b"
| "apply_message (FeedSnapshot m) b = apply_snapshot m b"

lemma on_message_bytes:
  assumes "message_ok s m"
  shows "on_message en (message_bytes en m) b = apply_message m b"
proof (cases m)
  case (FeedTop t)
  have "message_bytes en m ! 0 = 1" using FeedTop assms by (simp add: header_bytes_def)
  then show ?thesis
    using FeedTop assms top_message_bytes [of t en] length_message_bytes(1) [of en t]
    by (simp add: on_message_def sizeof_defs Let_def del: message_bytes.simps)
next
  case (FeedTrade t)
  have "message_bytes en m ! 0 = 2" using FeedTrade assms by (simp add: header_bytes_def)
  then show ?thesis
    using FeedTrade assms trade_message_bytes [of t en] length_message_bytes(2) [of en t]
    by (simp add: on_message_def sizeof_defs Let_def del: message_bytes.simps)
next
  case (FeedSnapshot t)
  have "message_bytes en m ! 0 = 3" using FeedSnapshot assms by (simp add: header_bytes_def)
  then show ?thesis
    using FeedSnapshot assms snapshot_message_bytes [of t en] length_message_bytes(3) [of en t]
    by (simp add: on_message_def sizeof_defs Let_def del: message_bytes.simps)
qed

text \<open>As long as it is not stale, the subscriber has the view of a prefix of the stream.\<close>

definition follows :: "SymbolId \<Rightarrow> FeedMessage list \<Rightarrow> UdpFeedBookBuilder \<Rightarrow> bool" where
  "follows s ms b \<longleftrightarrow> (\<forall>st. bb_symbols b s = Some st \<and> ps_anchored st \<and> \<not> ps_stale st \<longrightarrow>
     (\<exists>k \<le> length ms. ps_last_sequence st = of_nat k \<and> ps_book st = Some (view (take k ms))))"

lemma accept_sequence_Some:
  assumes "accept_sequence s q b = Some b'"
  obtains st where "bb_symbols b s = Some st" and "ps_anchored st" and
    "bb_symbols b' s = Some (st\<lparr>ps_stale := (ps_stale st \<or> q \<noteq> ps_last_sequence st + 1), ps_last_sequence := q\<rparr>)"
  using assms
  by (auto simp: accept_sequence_def check_sequence_def symbol_state_def set_symbol_def Let_def split: option.splits if_splits)

lemma view_take_Suc: "i < length ms \<Longrightarrow> view (take (Suc i) ms) = next_view (ms ! i) (view (take i ms))"
  by (simp add: take_Suc_conv_app_nth)

lemma next_index:
  assumes "(of_nat (Suc i) :: u64) = of_nat k + 1" and "Suc i < 2 ^ 64" and "Suc k < 2 ^ 64"
  shows "i = k"
proof -
  have "(of_nat (Suc i) :: u64) = of_nat (Suc k)" using assms(1) by (simp add: add.commute)
  then have "unat (of_nat (Suc i) :: u64) = unat (of_nat (Suc k) :: u64)" by (rule arg_cong)
  then show ?thesis using assms(2,3) by (simp only: unat_of_nat take_bit_eq_mod) simp
qed

lemma follows_incremental:
  assumes f: "follows s ms b" and n: "length ms < 2 ^ 64 - 1" and i: "i < length ms"
    and acc: "accept_sequence s (of_nat (Suc i)) b = Some b'"
    and st': "bb_symbols b'' s = Some st''" "\<And>st. bb_symbols b' s = Some st \<Longrightarrow>
      ps_last_sequence st'' = ps_last_sequence st \<and> ps_stale st'' = ps_stale st \<and>
      (ps_book st = Some (view (take i ms)) \<longrightarrow> ps_book st'' = Some (view (take (Suc i) ms)))"
  shows "follows s ms b''"
  unfolding follows_def
proof (intro allI impI)
  fix st1
  assume "bb_symbols b'' s = Some st1 \<and> ps_anchored st1 \<and> \<not> ps_stale st1"
  then have st1: "st1 = st''" "\<not> ps_stale st''" using st'(1) by auto
  obtain st where st: "bb_symbols b s = Some st" "ps_anchored st"
    "bb_symbols b' s = Some (st\<lparr>ps_stale := (ps_stale st \<or> of_nat (Suc i) \<noteq> ps_last_sequence st + 1),
       ps_last_sequence := of_nat (Suc i)\<rparr>)"
    using acc by (rule accept_sequence_Some)
  note new = st'(2) [OF st(3)]
  have fresh: "\<not> ps_stale st" "of_nat (Suc i) = ps_last_sequence st + 1" using new st1(2) by auto
  then obtain k where k: "k \<le> length ms" "ps_last_sequence st = of_nat k" "ps_book st = Some (view (take k ms))"
    using f st(1,2) unfolding follows_def by blast
  have "i = k" by (rule next_index) (use fresh(2) k n i in auto)
  then have "ps_book st'' = Some (view (take (Suc i) ms))" "ps_last_sequence st'' = of_nat (Suc i)"
    using new k(3) by auto
  then show "\<exists>k \<le> length ms. ps_last_sequence st1 = of_nat k \<and> ps_book st1 = Some (view (take k ms))"
    using i st1(1) by (intro exI [of _ "Suc i"]) simp
qed

lemma follows_apply:
  assumes f: "follows s ms b" and num: "numbered s ms" and n: "length ms < 2 ^ 64 - 1" and i: "i < length ms"
  shows "follows s ms (apply_message (ms ! i) b)"
proof -
  have q: "message_sequence (ms ! i) = of_nat (Suc i)" and ok: "message_ok s (ms ! i)"
    using num i by (auto simp: numbered_def)
  note v = view_take_Suc [OF i]
  show ?thesis
  proof (cases "ms ! i")
    case (FeedSnapshot m)
    then have "bb_symbols (apply_message (ms ! i) b) s = Some ((symbol_state s b)\<lparr>ps_anchored := True, ps_stale := False,
        ps_last_sequence := of_nat (Suc i), ps_book := Some (view (take (Suc i) ms))\<rparr>)"
      using ok q v by (simp add: apply_snapshot_def set_symbol_def)
    then show ?thesis using i by (auto simp: follows_def intro!: exI [of _ "Suc i"])
  next
    case (FeedTop m)
    show ?thesis
    proof (cases "accept_sequence s (of_nat (Suc i)) b")
      case (Some b')
      have b'': "bb_symbols (apply_message (ms ! i) b) s = Some ((symbol_state s b')\<lparr>ps_book := Some (tm_top m)\<rparr>)"
        using FeedTop ok q Some by (simp add: apply_top_of_book_def set_symbol_def)
      show ?thesis
        using v FeedTop by (intro follows_incremental [OF f n i Some b'']) (simp add: symbol_state_def)
    qed (use f FeedTop ok q in \<open>simp add: apply_top_of_book_def\<close>)
  next
    case (FeedTrade m)
    show ?thesis
    proof (cases "accept_sequence s (of_nat (Suc i)) b")
      case (Some b')
      then obtain st' where b': "bb_symbols b' s = Some st'" by (rule accept_sequence_Some)
      have "apply_message (ms ! i) b = b'" using FeedTrade ok q Some by (simp add: apply_trade_def)
      then have b'': "bb_symbols (apply_message (ms ! i) b) s = Some st'" using b' by simp
      show ?thesis
        using v FeedTrade b' by (intro follows_incremental [OF f n i Some b'']) simp
    qed (use f FeedTrade ok q in \<open>simp add: apply_trade_def\<close>)
  qed
qed

lemma follows_deliveries:
  assumes "numbered s ms" and "length ms < 2 ^ 64 - 1" and "set deliveries \<subseteq> message_bytes en ` set ms" and "follows s ms b"
  shows "follows s ms (fold (on_message en) deliveries b)"
  using assms(3,4)
proof (induction deliveries arbitrary: b)
  case (Cons d deliveries)
  obtain m where m: "m \<in> set ms" "d = message_bytes en m" using Cons.prems(1) by auto
  then obtain i where i: "i < length ms" "m = ms ! i" by (auto simp: in_set_conv_nth)
  then have "message_ok s m" using assms(1) by (auto simp: numbered_def)
  then have "follows s ms (on_message en d b)"
    using follows_apply [OF Cons.prems(2) assms(1,2) i(1)] i(2) m(2) on_message_bytes by simp
  then show ?case using Cons by simp
qed simp


section \<open>Properties\<close>

text \<open>
  C33. Whatever the network does with the publisher's messages, losing, repeating and
  reordering them at will, a subscriber that is anchored and does not report itself stale has a
  view that the publisher had: that of its stream up to the message the subscriber saw last.
  When that is the last message sent, the view is the publisher's current top of book.
\<close>

theorem feed_consistent:
  assumes "p = fold feed_apply events (UdpFeedPublisher_init s interval clock)"
    and "length (up_sent p) < 2 ^ 64 - 1"
    and "set deliveries \<subseteq> message_bytes en ` set (up_sent p)"
    and "b = fold (on_message en) deliveries UdpFeedBookBuilder_init"
    and "is_anchored s b" and "\<not> is_stale s b"
  shows "\<exists>k \<le> length (up_sent p). top_of_book s b = Some (view (take k (up_sent p))) \<and>
    ps_last_sequence (symbol_state s b) = of_nat k \<and>
    (k = length (up_sent p) \<longrightarrow> top_of_book s b = Some (current_top_of_book p))"
proof -
  note ok = feed_run_ok [OF assms(1)]
  have num: "numbered s (up_sent p)" and v: "view (up_sent p) = current_top_of_book p"
    using ok by (auto simp: published_def publisher_ok_def)
  have "follows s (up_sent p) UdpFeedBookBuilder_init" by (simp add: follows_def UdpFeedBookBuilder_init_def)
  from follows_deliveries [OF num assms(2,3) this] have f: "follows s (up_sent p) b" unfolding assms(4) .
  obtain st where st: "bb_symbols b s = Some st" "ps_anchored st" "\<not> ps_stale st"
    using assms(5,6) by (auto simp: is_anchored_def is_stale_def split: option.splits)
  then obtain k where "k \<le> length (up_sent p)" "ps_last_sequence st = of_nat k" "ps_book st = Some (view (take k (up_sent p)))"
    using f unfolding follows_def by blast
  then show ?thesis using st v by (intro exI [of _ k]) (simp add: top_of_book_def symbol_state_def)
qed

lemma deliver_messages:
  "\<forall>m \<in> set ms. message_ok s m \<Longrightarrow> fold (on_message en) (map (message_bytes en) ms) b = fold apply_message ms b"
  by (induction ms arbitrary: b) (simp_all add: on_message_bytes [of s])

text \<open>A publisher that sends a snapshot after every second message, and its messages after two orders.\<close>

definition demo_events :: "SinkCall list" where
  "demo_events = [on_order_accepted \<lparr>acc_id = OrderId 1, acc_side = Buy, acc_quantity = Quantity 5, acc_price = Price 100\<rparr>,
     on_order_accepted \<lparr>acc_id = OrderId 2, acc_side = Sell, acc_quantity = Quantity 7, acc_price = Price 103\<rparr>]"

definition demo_publisher :: UdpFeedPublisher where
  "demo_publisher = fold feed_apply demo_events (UdpFeedPublisher_init (SymbolId 1) 2 (\<lambda>n. n + 1000))"

definition demo_order :: "FeedMessage list" where
  "demo_order = [up_sent demo_publisher ! 1, up_sent demo_publisher ! 2, up_sent demo_publisher ! 0, up_sent demo_publisher ! 2]"

lemma demo_sent: "length (up_sent demo_publisher) = 3" "\<forall>m \<in> set demo_order. message_ok (SymbolId 1) m"
  "is_anchored (SymbolId 1) (fold apply_message demo_order UdpFeedBookBuilder_init)"
  "\<not> is_stale (SymbolId 1) (fold apply_message demo_order UdpFeedBookBuilder_init)"
  "top_of_book (SymbolId 1) (fold apply_message demo_order UdpFeedBookBuilder_init) = Some (current_top_of_book demo_publisher)"
  by code_simp+

theorem feed_consistent_witness:
  "\<exists>k \<le> 3. top_of_book (SymbolId 1) (fold (on_message LittleEndian) (map (message_bytes LittleEndian) demo_order)
     UdpFeedBookBuilder_init) = Some (view (take k (up_sent demo_publisher)))"
proof -
  let ?b = "fold (on_message LittleEndian) (map (message_bytes LittleEndian) demo_order) UdpFeedBookBuilder_init"
  have b: "?b = fold apply_message demo_order UdpFeedBookBuilder_init" using demo_sent(2) by (rule deliver_messages)
  have "length (up_sent demo_publisher) < 2 ^ 64 - 1" using demo_sent(1) by simp
  moreover have "set demo_order \<subseteq> set (up_sent demo_publisher)" using demo_sent(1) by (auto simp: demo_order_def)
  then have "set (map (message_bytes LittleEndian) demo_order) \<subseteq> message_bytes LittleEndian ` set (up_sent demo_publisher)" by auto
  ultimately show ?thesis
    using feed_consistent [OF demo_publisher_def _ _ refl, of "map (message_bytes LittleEndian) demo_order" LittleEndian]
      demo_sent(1,3,4) unfolding b by auto
qed

end
