(* ===== verification/Market_Data.thy ===== *)
theory Market_Data
  imports Feed Spsc_Ring Engine_Properties "HOL-Library.Sublist"
begin

text \<open>
  \<^verbatim>\<open>src/adapters/udp/queued_event_sink.hpp\<close>: the sink that the engine thread writes to, the ring
  behind it and the loop of the publisher thread; and what the feed shows of the engine's book.
\<close>

section \<open>Events in the ring\<close>

datatype FeedKind = KindTrade | KindOrderAccepted | KindOrderCancelled

record FeedEvent =
  fe_kind :: FeedKind
  fe_trade :: Trade
  fe_accepted :: OrderAccepted
  fe_cancelled :: OrderCancelled

definition blank_event :: FeedEvent where
  "blank_event = \<lparr>fe_kind = KindTrade,
     fe_trade = \<lparr>trade_sequence = TradeSequence 0, buy_order_id = OrderId 0, sell_order_id = OrderId 0, t_price = Price 0,
       t_quantity = Quantity 0, resting_order_removed = False\<rparr>,
     fe_accepted = \<lparr>acc_id = OrderId 0, acc_side = Buy, acc_quantity = Quantity 0, acc_price = Price 0\<rparr>,
     fe_cancelled = \<lparr>can_id = OrderId 0, can_remaining_qty = Quantity 0, can_side = Buy, can_price = Price 0\<rparr>\<rparr>"

definition from_trade :: "Trade \<Rightarrow> FeedEvent" where
  "from_trade t = blank_event\<lparr>fe_kind := KindTrade, fe_trade := t\<rparr>"

definition from_accepted :: "OrderAccepted \<Rightarrow> FeedEvent" where
  "from_accepted a = blank_event\<lparr>fe_kind := KindOrderAccepted, fe_accepted := a\<rparr>"

definition from_cancelled :: "OrderCancelled \<Rightarrow> FeedEvent" where
  "from_cancelled c = blank_event\<lparr>fe_kind := KindOrderCancelled, fe_cancelled := c\<rparr>"

definition apply_event :: "FeedEvent \<Rightarrow> UdpFeedPublisher \<Rightarrow> UdpFeedPublisher" where
  "apply_event e p =
     (case fe_kind e of
        KindTrade \<Rightarrow> feed_on_trade (fe_trade e) p
      | KindOrderAccepted \<Rightarrow> feed_on_order_accepted (fe_accepted e) p
      | KindOrderCancelled \<Rightarrow> feed_on_order_cancelled (fe_cancelled e) p)"


section \<open>The sink and the drain loop\<close>

record QueuedEventSink =
  qs_queue :: "FeedEvent ring"
  qs_dropped :: u64

definition QueuedEventSink_init :: "nat \<Rightarrow> QueuedEventSink" where
  "QueuedEventSink_init cap = \<lparr>qs_queue = ring_init cap blank_event, qs_dropped = 0\<rparr>"

definition offer :: "FeedEvent \<Rightarrow> QueuedEventSink \<Rightarrow> QueuedEventSink" where
  "offer e s =
     (case try_push (qs_queue s) e of
        (pushed, q) \<Rightarrow> if \<not> pushed then s\<lparr>qs_queue := q, qs_dropped := qs_dropped s + 1\<rparr> else s\<lparr>qs_queue := q\<rparr>)"

fun sink_call :: "SinkCall \<Rightarrow> QueuedEventSink \<Rightarrow> QueuedEventSink" where
  "sink_call (on_trade t) s = offer (from_trade t) s"
| "sink_call (on_order_accepted a) s = offer (from_accepted a) s"
| "sink_call (on_order_cancelled c) s = offer (from_cancelled c) s"

text \<open>One pass of the loop of \<open>drain_once\<close>, and whether there was an event.\<close>

definition feed_pass :: "QueuedEventSink \<times> UdpFeedPublisher \<Rightarrow> bool \<times> QueuedEventSink \<times> UdpFeedPublisher" where
  "feed_pass sp =
     (case try_pop (qs_queue (fst sp)) of
        (None, q) \<Rightarrow> (False, (fst sp)\<lparr>qs_queue := q\<rparr>, snd sp)
      | (Some e, q) \<Rightarrow> (True, (fst sp)\<lparr>qs_queue := q\<rparr>, apply_event e (snd sp)))"

function drain_once :: "nat \<Rightarrow> QueuedEventSink \<times> UdpFeedPublisher \<Rightarrow> nat \<times> QueuedEventSink \<times> UdpFeedPublisher" where
  "drain_once n sp =
     (case feed_pass sp of (popped, sp') \<Rightarrow> if popped then drain_once (Suc n) sp' else (n, sp'))"
  by auto

lemma try_pop_decreases:
  assumes "try_pop r = (Some e, r')"
  shows "unat (r_tail r') - unat (r_head r') < unat (r_tail r) - unat (r_head r)"
proof -
  have lt: "r_head r < r_tail r" and r': "r' = r\<lparr>r_head := r_head r + 1\<rparr>"
    using assms by (auto simp: try_pop_def Let_def not_le split: if_splits)
  have "r_head r \<noteq> - 1" using lt by (metis word_n1_ge not_le)
  then have "unat (r_head r + 1) = Suc (unat (r_head r))" by (rule unat_Suc_word)
  then show ?thesis using lt by (simp add: r' word_less_nat_alt)
qed

termination drain_once
proof (relation "measure (\<lambda>(n, sp). unat (r_tail (qs_queue (fst sp))) - unat (r_head (qs_queue (fst sp))))")
  fix n sp popped sp'
  assume "(popped, sp') = feed_pass sp" and "popped"
  then show "((Suc n, sp'), (n, sp)) \<in> measure (\<lambda>(n, sp). unat (r_tail (qs_queue (fst sp))) - unat (r_head (qs_queue (fst sp))))"
    using try_pop_decreases [of "qs_queue (fst sp)"]
    by (auto simp: feed_pass_def split: prod.splits option.splits)
qed simp

declare drain_once.simps [simp del]

text \<open>
  The engine thread's calls and the passes of the publisher thread, in any order; at the stop
  flag the publisher thread drains once more.
\<close>

datatype sink_step = Call SinkCall | FeedPass

fun sink_step_fun :: "sink_step \<Rightarrow> QueuedEventSink \<times> UdpFeedPublisher \<Rightarrow> QueuedEventSink \<times> UdpFeedPublisher" where
  "sink_step_fun (Call c) sp = (sink_call c (fst sp), snd sp)"
| "sink_step_fun FeedPass sp = snd (feed_pass sp)"

definition run_feed_publisher :: "sink_step list \<Rightarrow> QueuedEventSink \<times> UdpFeedPublisher \<Rightarrow> QueuedEventSink \<times> UdpFeedPublisher" where
  "run_feed_publisher steps sp = snd (drain_once 0 (fold sink_step_fun steps sp))"

fun calls :: "sink_step list \<Rightarrow> SinkCall list" where
  "calls [] = []"
| "calls (Call c # steps) = c # calls steps"
| "calls (FeedPass # steps) = calls steps"


section \<open>The queued path\<close>

fun event_of :: "SinkCall \<Rightarrow> FeedEvent" where
  "event_of (on_trade t) = from_trade t"
| "event_of (on_order_accepted a) = from_accepted a"
| "event_of (on_order_cancelled c) = from_cancelled c"

lemma apply_event_of: "apply_event (event_of c) p = feed_apply c p"
  by (cases c) (simp_all add: apply_event_def from_trade_def from_accepted_def from_cancelled_def)

lemma sink_call_offer: "sink_call c s = offer (event_of c) s"
  by (cases c) simp_all

text \<open>
  The invariant: the events taken so far are those applied to the publisher, followed by
  those in the ring; they are the calls without those that were dropped, which are counted.
\<close>

definition sink_ok :: "nat \<Rightarrow> UdpFeedPublisher \<Rightarrow> SinkCall list \<Rightarrow> QueuedEventSink \<times> UdpFeedPublisher \<Rightarrow> bool" where
  "sink_ok n p0 cs sp \<longleftrightarrow> ring_budget n (qs_queue (fst sp)) \<and>
     (\<exists>applied waiting d. subseq (applied @ waiting) cs \<and> length (applied @ waiting) + d = length cs \<and>
        qs_dropped (fst sp) = of_nat d \<and> content (qs_queue (fst sp)) = map event_of waiting \<and>
        snd sp = fold feed_apply applied p0)"

lemma sink_ok_call:
  assumes "sink_ok (Suc n) p0 cs sp"
  shows "sink_ok n p0 (cs @ [c]) (sink_step_fun (Call c) sp)"
proof -
  obtain applied waiting d where a: "subseq (applied @ waiting) cs" "length (applied @ waiting) + d = length cs"
    "qs_dropped (fst sp) = of_nat d" "content (qs_queue (fst sp)) = map event_of waiting"
    "snd sp = fold feed_apply applied p0" and b: "ring_budget (Suc n) (qs_queue (fst sp))"
    using assms by (auto simp: sink_ok_def)
  show ?thesis
  proof (cases "length (content (qs_queue (fst sp))) < ring_capacity (qs_queue (fst sp))")
    case True
    then obtain q where q: "try_push (qs_queue (fst sp)) (event_of c) = (True, q)"
      "content q = content (qs_queue (fst sp)) @ [event_of c]" "ring_budget n q"
      using rq.push_room [OF b True] by blast
    have "subseq (applied @ waiting @ [c]) (cs @ [c])" using list_emb_append_mono [OF a(1), of "[c]" "[c]"] by simp
    then show ?thesis
      using a q unfolding sink_ok_def
      by (intro conjI exI [of _ applied] exI [of _ "waiting @ [c]"] exI [of _ d])
        (auto simp: sink_call_offer offer_def simp del: length_content)
  next
    case False
    have "subseq (applied @ waiting) (cs @ [c])" using a(1) by (simp add: subseq_rev_drop_many)
    then show ?thesis
      using a rq.push_full [OF b, of "event_of c"] False rq.ok_less [OF b] unfolding sink_ok_def
      by (intro conjI exI [of _ applied] exI [of _ waiting] exI [of _ "Suc d"])
        (auto simp: sink_call_offer offer_def simp del: length_content)
  qed
qed

lemma sink_ok_pass:
  assumes "sink_ok n p0 cs sp"
  shows "sink_ok n p0 cs (snd (feed_pass sp))"
    and "\<not> fst (feed_pass sp) \<Longrightarrow> content (qs_queue (fst (snd (feed_pass sp)))) = []"
proof -
  obtain applied waiting d where a: "subseq (applied @ waiting) cs" "length (applied @ waiting) + d = length cs"
    "qs_dropped (fst sp) = of_nat d" "content (qs_queue (fst sp)) = map event_of waiting"
    "snd sp = fold feed_apply applied p0" and b: "ring_budget n (qs_queue (fst sp))"
    using assms by (auto simp: sink_ok_def)
  have "sink_ok n p0 cs (snd (feed_pass sp)) \<and>
      (fst (feed_pass sp) \<or> content (qs_queue (fst (snd (feed_pass sp)))) = [])"
  proof (cases waiting)
    case Nil
    then have "try_pop (qs_queue (fst sp)) = (None, qs_queue (fst sp))" using rq.pop_empty [OF b] a(4) by simp
    then have "feed_pass sp = (False, sp)" by (simp add: feed_pass_def)
    then show ?thesis using assms a(4) Nil by simp
  next
    case (Cons c cs')
    then obtain q where "try_pop (qs_queue (fst sp)) = (Some (event_of c), q)" "content q = map event_of cs'" "ring_budget n q"
      using rq.pop_item [OF b] a(4) by fastforce
    then show ?thesis
      using a Cons unfolding sink_ok_def
      by (intro conjI exI [of _ "applied @ [c]"] exI [of _ cs'] exI [of _ d])
        (auto simp: feed_pass_def apply_event_of)
  qed
  then show "sink_ok n p0 cs (snd (feed_pass sp))"
    and "\<not> fst (feed_pass sp) \<Longrightarrow> content (qs_queue (fst (snd (feed_pass sp)))) = []" by auto
qed

lemma sink_ok_steps:
  assumes "sink_ok (n + length (calls steps)) p0 cs sp"
  shows "sink_ok n p0 (cs @ calls steps) (fold sink_step_fun steps sp)"
  using assms
proof (induction steps arbitrary: cs sp)
  case (Cons st steps)
  show ?case
  proof (cases st)
    case (Call c)
    then have "sink_ok (Suc (n + length (calls steps))) p0 cs sp" using Cons.prems by simp
    from Cons.IH [OF sink_ok_call [OF this]] Call show ?thesis by simp
  next
    case FeedPass
    then have "sink_ok (n + length (calls steps)) p0 cs sp" using Cons.prems by simp
    from Cons.IH [OF sink_ok_pass(1) [OF this]] FeedPass show ?thesis by simp
  qed
qed simp

lemma drain_once_ok:
  assumes "sink_ok n p0 cs sp"
  shows "sink_ok n p0 cs (snd (drain_once k sp)) \<and> content (qs_queue (fst (snd (drain_once k sp)))) = []"
  using assms
proof (induction k sp rule: drain_once.induct)
  case (1 k sp)
  obtain popped sp' where pass: "feed_pass sp = (popped, sp')" by (cases "feed_pass sp")
  show ?case
  proof (cases popped)
    case True
    then show ?thesis using 1(1) [OF pass [symmetric] True] sink_ok_pass(1) [OF 1(2)] pass by (simp add: drain_once.simps [of k sp])
  next
    case False
    then show ?thesis using sink_ok_pass [OF 1(2)] pass by (simp add: drain_once.simps [of k sp])
  qed
qed


section \<open>Properties\<close>


definition demo_steps :: "sink_step list" where
  "demo_steps = [Call (on_order_accepted \<lparr>acc_id = OrderId 1, acc_side = Buy, acc_quantity = Quantity 5, acc_price = Price 100\<rparr>),
     Call (on_order_accepted \<lparr>acc_id = OrderId 2, acc_side = Sell, acc_quantity = Quantity 7, acc_price = Price 103\<rparr>),
     Call (on_order_cancelled \<lparr>can_id = OrderId 1, can_remaining_qty = Quantity 5, can_side = Buy, can_price = Price 100\<rparr>),
     FeedPass]"


text \<open>
  The engine with a resting sell of 5 at 100 after a buy of 8 at 100, and the engine with two
  bids of 5 and 2 at 100, between which a bid at 101 came and went.
\<close>

definition remainder_engine :: MatchingEngine where
  "remainder_engine = run (MatchingEngine_init 8 demo_stp) [Submit (limit_of 1 1 Sell 100 5), Submit (limit_of 2 1 Buy 100 8)]"

definition uncovered_engine :: MatchingEngine where
  "uncovered_engine = run (MatchingEngine_init 8 demo_stp) [Submit (limit_of 1 1 Buy 100 5), Submit (limit_of 1 2 Buy 101 1),
     CancelOrder (OrderId 2), Submit (limit_of 1 3 Buy 100 2)]"

definition feed_of :: "MatchingEngine \<Rightarrow> TopOfBook" where
  "feed_of e = current_top_of_book (fold feed_apply (sink e) (UdpFeedPublisher_init (SymbolId 1) 500 (\<lambda>n. n)))"

definition last_snapshot :: "MatchingEngine \<Rightarrow> TopOfBook option" where
  "last_snapshot e =
     (case last (up_sent (fold feed_apply (sink e) (UdpFeedPublisher_init (SymbolId 1) 1 (\<lambda>n. n)))) of
        FeedSnapshot m \<Rightarrow> Some (sm_top m) | _ \<Rightarrow> None)"


end
