(* ===== verification/Fix_Message.thy ===== *)
theory Fix_Message
  imports Text_Protocol
begin

text \<open>
  \<^verbatim>\<open>src/adapters/fix\<close>, the envelope: \<^verbatim>\<open>FixError.hpp\<close>, \<^verbatim>\<open>FixMessage.hpp\<close>, \<^verbatim>\<open>FixMessage.cpp\<close>, and from
  \<^verbatim>\<open>FixEncoder.cpp\<close> the functions that write a field and frame a body. A message is a list of
  characters. The main result is that what \<open>frame\<close> writes is what \<open>parse_validated\<close> accepts.
\<close>

section \<open>Errors and fields\<close>

datatype FixErrorReason =
    ChecksumMismatch
  | BodyLengthMismatch
  | MalformedField
  | EmptyMessage
  | InvalidClOrdIdFormat
  | UnsupportedSymbol
  | InvalidSide
  | UnsupportedOrdType
  | MissingPrice
  | InvalidQuantity
  | UnsupportedMessageType
  | MissingRequiredTag

record FixError =
  fe_reason :: FixErrorReason
  fe_offending_tag :: int
  fe_detail :: string

definition fix_error :: "FixErrorReason \<Rightarrow> int \<Rightarrow> string \<Rightarrow> FixError" where
  "fix_error r t d = \<lparr>fe_reason = r, fe_offending_tag = t, fe_detail = d\<rparr>"

definition kSOH :: char where
  "kSOH = CHR 0x01"

definition kBeginString :: string where
  "kBeginString = ''FIX.4.2''"

type_synonym TagMap = "(int \<times> string) list"

definition tag_add :: "int \<Rightarrow> string \<Rightarrow> TagMap \<Rightarrow> TagMap" where
  "tag_add tag val m = m @ [(tag, val)]"

fun tag_get :: "int \<Rightarrow> TagMap \<Rightarrow> string option" where
  "tag_get tag [] = None"
| "tag_get tag (f # fs) = (if fst f = tag then Some (snd f) else tag_get tag fs)"

definition tag_has :: "int \<Rightarrow> TagMap \<Rightarrow> bool" where
  "tag_has tag m \<longleftrightarrow> tag_get tag m \<noteq> None"


section \<open>Searching and numbers\<close>

text \<open>\<open>find\<close> and \<open>rfind\<close> of \<open>std::string_view\<close> with a string: the first and the last occurrence.\<close>

fun find_str :: "string \<Rightarrow> string \<Rightarrow> nat option" where
  "find_str n [] = (if n = [] then Some 0 else None)"
| "find_str n (c # s) = (if take (length n) (c # s) = n then Some 0 else map_option Suc (find_str n s))"

fun rfind_str :: "string \<Rightarrow> string \<Rightarrow> nat option" where
  "rfind_str n [] = (if n = [] then Some 0 else None)"
| "rfind_str n (c # s) =
     (case rfind_str n s of
        Some i \<Rightarrow> Some (Suc i)
      | None \<Rightarrow> if take (length n) (c # s) = n then Some 0 else None)"

text \<open>\<open>std::from_chars\<close> on a 32-bit \<open>int\<close>, and \<open>%d\<close> or \<open>std::to_string\<close> of one.\<close>

definition from_chars_int :: "string \<Rightarrow> (int \<times> string) option" where
  "from_chars_int s =
     (let neg = (s \<noteq> [] \<and> hd s = CHR ''-''); s' = (if neg then tl s else s);
          ds = takeWhile is_digit s'; v = (if neg then - int (digits_value ds) else int (digits_value ds))
      in if ds = [] \<or> v < - (2 ^ 31) \<or> 2 ^ 31 \<le> v then None else Some (v, dropWhile is_digit s'))"

definition show_int :: "int \<Rightarrow> string" where
  "show_int i = (if i < 0 then CHR ''-'' # show_nat (nat (- i)) else show_nat (nat i))"


section \<open>Tokenizing and validating (FixMessage.cpp)\<close>

text \<open>One field, without its terminator; the tag and the value, or why it is malformed.\<close>

definition split_field :: "string \<Rightarrow> FixError + int \<times> string" where
  "split_field field =
     (if field = [] then Inl (fix_error MalformedField (- 1) ''empty field (consecutive SOH)'')
      else let tag_sv = takeWhile (\<lambda>c. c \<noteq> CHR ''='') field
           in if CHR ''='' \<notin> set field \<or> tag_sv = []
              then Inl (fix_error MalformedField (- 1) ''field missing '=' or empty tag'')
              else case from_chars_int tag_sv of
                None \<Rightarrow> Inl (fix_error MalformedField (- 1) ''non-numeric tag'')
              | Some (tag, rest) \<Rightarrow>
                  if rest \<noteq> [] then Inl (fix_error MalformedField (- 1) ''non-numeric tag'')
                  else Inr (tag, drop (Suc (length tag_sv)) field))"

text \<open>The loop; its argument is the part of the message from \<open>pos\<close> on.\<close>

function tokenize_loop :: "TagMap \<Rightarrow> string \<Rightarrow> FixError + TagMap" where
  "tokenize_loop m s =
     (if s = [] then Inr m
      else if kSOH \<notin> set s then Inl (fix_error MalformedField (- 1) ''final field not SOH-terminated'')
      else case split_field (takeWhile (\<lambda>c. c \<noteq> kSOH) s) of
        Inl err \<Rightarrow> Inl err
      | Inr (tag, val) \<Rightarrow> tokenize_loop (tag_add tag val m) (tl (dropWhile (\<lambda>c. c \<noteq> kSOH) s)))"
  by pat_completeness auto

lemma length_tl_dropWhile: "s \<noteq> [] \<Longrightarrow> length (tl (dropWhile P s)) < length s"
  using length_dropWhile_le [of P s] by (cases s) (simp, fastforce simp: less_Suc_eq_le)

termination tokenize_loop
  by (relation "measure (\<lambda>(m, s). length s)") (simp_all add: length_tl_dropWhile del: length_tl)

declare tokenize_loop.simps [simp del]

definition fix_tokenize :: "string \<Rightarrow> FixError + TagMap" where
  "fix_tokenize raw =
     (if raw = [] then Inl (fix_error EmptyMessage (- 1) ''empty FIX message'') else tokenize_loop [] raw)"

definition compute_checksum :: "string \<Rightarrow> 8 word" where
  "compute_checksum s = of_nat (unat (foldl (\<lambda>sum c. sum + of_char c) (0 :: 32 word) s mod 256))"

definition compute_body_length :: "string \<Rightarrow> nat" where
  "compute_body_length full_message =
     (case find_str (kSOH # ''35='') full_message of
        None \<Rightarrow> 0
      | Some body_pos \<Rightarrow>
          (case rfind_str (kSOH # ''10='') full_message of
             None \<Rightarrow> 0
           | Some cksum_pos \<Rightarrow>
               let body_start = body_pos + 1; body_end = cksum_pos + 1
               in if body_end \<le> body_start then 0 else body_end - body_start))"

definition declared_checksum :: "string \<Rightarrow> int" where
  "declared_checksum v = (case from_chars_int v of None \<Rightarrow> - 1 | Some (d, _) \<Rightarrow> d)"

definition declared_body_length :: "string \<Rightarrow> int" where
  "declared_body_length v = (case from_chars_i64 v of None \<Rightarrow> - 1 | Some (d, _) \<Rightarrow> sint d)"

definition validate_body_length :: "string \<Rightarrow> TagMap \<Rightarrow> FixError + TagMap" where
  "validate_body_length raw m =
     (case tag_get 9 m of
        None \<Rightarrow> Inl (fix_error MissingRequiredTag 9 ''missing BodyLength (tag 9)'')
      | Some v \<Rightarrow>
          let declared_bl = declared_body_length v; computed_bl = compute_body_length raw
          in if declared_bl < 0 \<or> nat declared_bl \<noteq> computed_bl
             then Inl (fix_error BodyLengthMismatch 9
               (''declared='' @ show_int declared_bl @ '' computed='' @ show_nat computed_bl))
             else Inr m)"

definition parse_validated :: "string \<Rightarrow> FixError + TagMap" where
  "parse_validated raw =
     (case fix_tokenize raw of
        Inl err \<Rightarrow> Inl err
      | Inr m \<Rightarrow>
          (case (rfind_str (kSOH # ''10='') raw, tag_get 10 m) of
             (Some cksum_pos, Some v) \<Rightarrow>
               let computed = compute_checksum (take (cksum_pos + 1) raw); declared_cksum = declared_checksum v
               in if declared_cksum \<noteq> int (unat computed)
                  then Inl (fix_error ChecksumMismatch 10
                    (''declared='' @ show_int declared_cksum @ '' computed='' @ show_nat (unat computed)))
                  else validate_body_length raw m
           | _ \<Rightarrow> Inl (fix_error MissingRequiredTag 10 ''missing CheckSum (tag 10)'')))"


section \<open>Writing fields and framing a body (FixEncoder.cpp)\<close>

definition append_field :: "string \<Rightarrow> int \<Rightarrow> string \<Rightarrow> string" where
  "append_field out tag val = out @ show_int tag @ ''='' @ val @ [kSOH]"

text \<open>\<open>%03u\<close> of a byte.\<close>

definition pad3 :: "nat \<Rightarrow> string" where
  "pad3 n = [char_of (48 + n div 100), char_of (48 + n div 10 mod 10), char_of (48 + n mod 10)]"

definition frame :: "string \<Rightarrow> string" where
  "frame body =
     (let header = append_field (append_field [] 8 kBeginString) 9 (show_nat (length body));
          without_checksum = header @ body;
          cksum = compute_checksum without_checksum
      in append_field without_checksum 10 (pad3 (unat cksum)))"


section \<open>Tokenizing written fields\<close>

definition write_fields :: "TagMap \<Rightarrow> string" where
  "write_fields fs = foldl (\<lambda>out f. append_field out (fst f) (snd f)) [] fs"

definition field_ok :: "int \<times> string \<Rightarrow> bool" where
  "field_ok f \<longleftrightarrow> 0 \<le> fst f \<and> fst f < 2 ^ 31 \<and> kSOH \<notin> set (snd f)"

lemma write_fields_Nil [simp]: "write_fields [] = []"
  by (simp add: write_fields_def)

lemma write_fields_snoc [simp]: "write_fields (fs @ [f]) = append_field (write_fields fs) (fst f) (snd f)"
  by (simp add: write_fields_def)

lemma append_field_append: "append_field (a @ b) t v = a @ append_field b t v"
  by (simp add: append_field_def)

lemma write_fields_append: "write_fields (fs @ gs) = write_fields fs @ write_fields gs"
proof (induction gs rule: rev_induct)
  case (snoc g gs)
  have "write_fields (fs @ gs @ [g]) = append_field (write_fields (fs @ gs)) (fst g) (snd g)"
    using write_fields_snoc [of "fs @ gs" g] by simp
  with snoc show ?case by (simp add: append_field_append)
qed simp

lemma write_fields_Cons: "write_fields (f # fs) = show_int (fst f) @ ''='' @ snd f @ kSOH # write_fields fs"
  using write_fields_append [of "[f]" fs] by (simp add: write_fields_def append_field_def)

lemma special_not_digit [simp]: "\<not> is_digit kSOH" "\<not> is_digit (CHR ''='')" "kSOH \<noteq> CHR ''=''"
  by (simp_all add: is_digit_def kSOH_def)

lemma not_in_show_nat: "\<not> is_digit c \<Longrightarrow> c \<notin> set (show_nat n)"
  using show_nat_digits by blast

lemma from_chars_int_show: "0 \<le> t \<Longrightarrow> t < 2 ^ 31 \<Longrightarrow> from_chars_int (show_int t) = Some (t, [])"
  by (simp add: from_chars_int_def show_int_def hd_show_nat digits_value_show_nat Let_def dropWhile_eq_Nil_conv
      show_nat_digits)

lemma split_field_written:
  assumes "field_ok f"
  shows "split_field (show_int (fst f) @ CHR ''='' # snd f) = Inr f"
proof -
  have t: "0 \<le> fst f" "fst f < 2 ^ 31" using assms by (simp_all add: field_ok_def)
  have "CHR ''='' \<notin> set (show_int (fst f))" using t(1) by (simp add: show_int_def not_in_show_nat)
  then have tw: "takeWhile (\<lambda>c. c \<noteq> CHR ''='') (show_int (fst f) @ CHR ''='' # snd f) = show_int (fst f)"
    by (subst takeWhile_append2) auto
  have "show_int (fst f) \<noteq> []" using t(1) by (simp add: show_int_def)
  then show ?thesis using from_chars_int_show [OF t] by (simp add: split_field_def tw)
qed

lemma tokenize_written:
  assumes "\<forall>f \<in> set fs. field_ok f"
  shows "tokenize_loop m (write_fields fs) = Inr (m @ fs)"
  using assms
proof (induction fs arbitrary: m)
  case Nil
  then show ?case by (simp add: tokenize_loop.simps)
next
  case (Cons f fs)
  let ?field = "show_int (fst f) @ CHR ''='' # snd f"
  have f: "field_ok f" using Cons.prems by simp
  have w: "write_fields (f # fs) = ?field @ kSOH # write_fields fs" by (simp add: write_fields_Cons)
  have "kSOH \<notin> set ?field" using f by (auto simp: field_ok_def show_int_def not_in_show_nat)
  then have "takeWhile (\<lambda>c. c \<noteq> kSOH) (write_fields (f # fs)) = ?field"
    and "dropWhile (\<lambda>c. c \<noteq> kSOH) (write_fields (f # fs)) = kSOH # write_fields fs"
    unfolding w by (subst takeWhile_append2 dropWhile_append2; auto)+
  then have "tokenize_loop m (write_fields (f # fs)) = tokenize_loop (tag_add (fst f) (snd f) m) (write_fields fs)"
    using split_field_written [OF f] w by (subst tokenize_loop.simps) (simp add: case_prod_beta del: append_assoc)
  with Cons show ?case by (simp add: tag_add_def)
qed


section \<open>The envelope of a framed body\<close>

lemma find_str_skip:
  "kSOH \<notin> set u \<Longrightarrow> find_str (kSOH # n) (u @ s) = map_option (\<lambda>i. length u + i) (find_str (kSOH # n) s)"
  by (induction u; cases "find_str (kSOH # n) s") auto

lemma find_body_start:
  assumes "kSOH \<notin> set u" and "kSOH \<notin> set (CHR ''9'' # w)"
  shows "find_str (kSOH # ''35='') (u @ kSOH # (CHR ''9'' # w) @ kSOH # ''35='' @ r) =
    Some (length u + 1 + length (CHR ''9'' # w))"
proof -
  have "find_str (kSOH # ''35='') ((CHR ''9'' # w) @ kSOH # ''35='' @ r) = Some (length (CHR ''9'' # w))"
    using find_str_skip [OF assms(2), of "''35=''" "kSOH # ''35='' @ r"] by simp
  then have "find_str (kSOH # ''35='') (kSOH # (CHR ''9'' # w) @ kSOH # ''35='' @ r) = Some (Suc (length (CHR ''9'' # w)))"
    by simp
  then show ?thesis using find_str_skip [OF assms(1), of "''35=''" "kSOH # (CHR ''9'' # w) @ kSOH # ''35='' @ r"]
    by simp
qed

lemma rfind_str_none: "kSOH \<notin> set u \<Longrightarrow> n \<noteq> [] \<Longrightarrow> rfind_str (kSOH # n) (u @ [kSOH]) = None"
  by (induction u) auto

lemma rfind_str_last:
  assumes "rfind_str n s = None" and "take (length n) (c # s) = n"
  shows "rfind_str n (a @ c # s) = Some (length a)"
  using assms by (induction a) auto

lemma pad3_digits: "n < 256 \<Longrightarrow> c \<in> set (pad3 n) \<Longrightarrow> is_digit c"
  by (auto simp: pad3_def is_digit_def)

lemma digit_value_char: "d < 10 \<Longrightarrow> digit_value (char_of (48 + d)) = d" for d :: nat
  by (simp add: digit_value_def)

lemma digits_value_pad3:
  assumes "n < 256"
  shows "digits_value (pad3 n) = n"
proof -
  have "n div 10 = n div 100 * 10 + n div 10 mod 10"
    using div_mult_mod_eq [of "n div 10" 10] by (simp add: div_mult2_eq [symmetric])
  moreover have "n = n div 10 * 10 + n mod 10" by simp
  moreover have "n div 100 < 10" using assms by simp
  ultimately show ?thesis by (simp add: pad3_def digits_value_def digit_value_char del: char_of_nat)
qed

lemma declared_checksum_pad3: "declared_checksum (pad3 (unat w)) = int (unat w)" for w :: "8 word"
proof -
  have n: "unat w < 256" using unsigned_less [of w, where ?'a = nat] by simp
  have d: "takeWhile is_digit (pad3 (unat w)) = pad3 (unat w)" "dropWhile is_digit (pad3 (unat w)) = []"
    using pad3_digits [OF n] by (auto simp: takeWhile_eq_all_conv dropWhile_eq_Nil_conv)
  have h: "hd (pad3 (unat w)) \<noteq> CHR ''-''" using pad3_digits [OF n, of "hd (pad3 (unat w))"]
    by (auto simp: pad3_def)
  have "pad3 (unat w) \<noteq> []" by (simp add: pad3_def)
  moreover have bint256: "uint w < 256" using unsigned_less [of w, where ?'a = int] by simp
  moreover have "\<not> uint w < - 2147483648" "\<not> 2147483648 \<le> uint w"
    using order_trans [OF _ uint_ge_0, of "- 2147483648" w] order_less_trans [OF bint256, of 2147483648] by simp_all
  ultimately have "from_chars_int (pad3 (unat w)) = Some (int (unat w), [])"
    using n h digits_value_pad3 [OF n] by (simp add: from_chars_int_def Let_def d del: takeWhile_eq_all_conv dropWhile_eq_Nil_conv)
  then show ?thesis by (simp add: declared_checksum_def)
qed

lemma declared_body_length_show: "n < 2 ^ 63 \<Longrightarrow> declared_body_length (show_nat n) = int n"
  by (simp add: declared_body_length_def from_chars_i64_def hd_show_nat digits_value_show_nat Let_def
      signed_of_nat signed_take_bit_int_eq_self)

definition header_fields :: "string \<Rightarrow> TagMap" where
  "header_fields body = [(8, kBeginString), (9, show_nat (length body))]"

definition trailer_field :: "string \<Rightarrow> int \<times> string" where
  "trailer_field body = (10, pad3 (unat (compute_checksum (write_fields (header_fields body) @ body))))"

lemma frame_fields: "frame (write_fields fs) =
    write_fields (header_fields (write_fields fs) @ fs @ [trailer_field (write_fields fs)])"
proof -
  have "write_fields (header_fields b) = append_field (append_field [] 8 kBeginString) 9 (show_nat (length b))" for b
    by (simp add: header_fields_def write_fields_def)
  then show ?thesis
    by (simp add: frame_def Let_def trailer_field_def write_fields_append write_fields_Cons append_field_def)
qed

lemma show_envelope_tags:
  "show_int 8 = ''8''" "show_int 9 = ''9''" "show_int 10 = ''10''" "show_int 35 = ''35''"
  by code_simp+

lemma field_ok_envelope:
  "f \<in> set (header_fields b) \<Longrightarrow> field_ok f" "field_ok (trailer_field b)"
proof -
  show "f \<in> set (header_fields b) \<Longrightarrow> field_ok f"
    by (auto simp: header_fields_def field_ok_def kBeginString_def kSOH_def not_in_show_nat [unfolded kSOH_def] is_digit_def)
  show "field_ok (trailer_field b)"
    using pad3_digits [of _ kSOH] unsigned_less [of "compute_checksum (write_fields (header_fields b) @ b)", where ?'a = nat]
    by (auto simp: trailer_field_def field_ok_def)
qed

text \<open>The positions the validator looks for: the last \<open>10=\<close> and the first \<open>35=\<close>.\<close>

lemma frame_positions:
  fixes fs v defines "b \<equiv> write_fields ((35, v) # fs)"
  shows "rfind_str (kSOH # ''10='') (frame b) = Some (length (write_fields (header_fields b) @ b) - 1)"
    and "find_str (kSOH # ''35='') (frame b) = Some (length (write_fields (header_fields b)) - 1)"
proof -
  let ?h = "write_fields (header_fields b)" and ?t = "pad3 (unat (compute_checksum (write_fields (header_fields b) @ b)))"
  have fr: "frame b = ?h @ b @ ''10='' @ ?t @ [kSOH]"
    unfolding b_def frame_fields by (simp add: write_fields_append write_fields_Cons trailer_field_def show_envelope_tags)
  obtain a where a: "?h @ b = a @ [kSOH]"
    unfolding b_def by (metis append_assoc append_field_def rev_exhaust list.distinct(1) write_fields_append write_fields_snoc)
  have "kSOH \<notin> set (''10='' @ ?t)" using field_ok_envelope(2) [of b] by (simp add: trailer_field_def field_ok_def kSOH_def)
  then have "rfind_str (kSOH # ''10='') ((''10='' @ ?t) @ [kSOH]) = None" by (rule rfind_str_none) simp
  then have "rfind_str (kSOH # ''10='') (a @ kSOH # ''10='' @ ?t @ [kSOH]) = Some (length a)"
    by (intro rfind_str_last) simp_all
  moreover have "frame b = a @ kSOH # ''10='' @ ?t @ [kSOH]" unfolding fr using a by (metis append.assoc append_Cons append_Nil)
  ultimately show "rfind_str (kSOH # ''10='') (frame b) = Some (length (?h @ b) - 1)" using a by simp
  let ?u = "''8=FIX.4.2''" and ?w = "''9='' @ show_nat (length b)"
  have h: "?h = ?u @ kSOH # ?w @ [kSOH]"
    by (simp add: header_fields_def write_fields_Cons show_envelope_tags kBeginString_def)
  have n: "kSOH \<notin> set ?u" "kSOH \<notin> set ?w" by (simp_all add: kSOH_def not_in_show_nat [unfolded kSOH_def] is_digit_def)
  have b': "b = ''35='' @ v @ kSOH # write_fields fs"
    unfolding b_def by (simp add: write_fields_Cons show_envelope_tags)
  have eq: "frame b = ?u @ kSOH # (CHR ''9'' # CHR ''='' # show_nat (length b)) @ kSOH # ''35='' @ v @ kSOH # write_fields fs @ ''10='' @ ?t @ [kSOH]"
    unfolding fr h by (subst b') simp
  have "find_str (kSOH # ''35='') (frame b) = Some (length ?u + 1 + length (CHR ''9'' # CHR ''='' # show_nat (length b)))"
    unfolding eq by (rule find_body_start [OF n(1)]) (use n(2) in simp)
  then show "find_str (kSOH # ''35='') (frame b) = Some (length ?h - 1)" by (simp add: h)
qed

lemma tag_get_append [simp]:
  "tag_get t (m @ n) = (case tag_get t m of None \<Rightarrow> tag_get t n | Some v \<Rightarrow> Some v)"
  by (induction m) auto

lemma tag_get_None: "\<forall>f \<in> set m. fst f \<noteq> t \<Longrightarrow> tag_get t m = None"
  by (induction m) auto

lemma frame_parses:
  assumes fs: "\<forall>f \<in> set fs. field_ok f \<and> fst f \<noteq> 10" and v: "kSOH \<notin> set v"
    and len: "length (write_fields ((35, v) # fs)) < 2 ^ 63"
  defines "b \<equiv> write_fields ((35, v) # fs)"
  shows "parse_validated (frame b) = Inr (header_fields b @ ((35, v) # fs) @ [trailer_field b])"
proof -
  let ?m = "header_fields b @ ((35, v) # fs) @ [trailer_field b]" and ?h = "write_fields (header_fields b)"
  have fr: "frame b = write_fields ?m" unfolding b_def by (rule frame_fields)
  have ok: "\<forall>f \<in> set ?m. field_ok f" using fs v field_ok_envelope [where b = b] by (auto simp: field_ok_def)
  have ne: "frame b \<noteq> []" unfolding fr by (simp add: header_fields_def write_fields_Cons)
  have tok: "fix_tokenize (frame b) = Inr ?m" using tokenize_written [OF ok, of "[]"] ne unfolding fr
    by (simp add: fix_tokenize_def)
  note pos = frame_positions [where fs = fs and v = v, folded b_def]
  have lh: "0 < length ?h" by (simp add: header_fields_def write_fields_Cons)
  then have "take (length (?h @ b) - 1 + 1) (frame b) = ?h @ b"
    unfolding fr by (simp add: write_fields_append b_def flip: append_Cons)
  moreover have "tag_get 10 ?m = Some (snd (trailer_field b))"
    using tag_get_None [of fs 10] fs by (simp add: header_fields_def trailer_field_def)
  moreover have "tag_get 9 ?m = Some (show_nat (length b))" by (simp add: header_fields_def)
  moreover have "compute_body_length (frame b) = length b" using lh
    by (simp add: compute_body_length_def pos Let_def)
  ultimately show ?thesis
    using declared_checksum_pad3 declared_body_length_show [OF len, folded b_def] tok pos(1)
    by (simp add: parse_validated_def validate_body_length_def trailer_field_def Let_def)
qed

text \<open>
  C36. What the encoder frames, the validator accepts: for every body that starts with the
  message type, has no checksum field of its own and no separator in a value, the framed
  message passes the checksum and body-length tests and tokenizes into the fields written.
\<close>

theorem envelope_roundtrip:
  assumes "\<forall>f \<in> set fs. field_ok f \<and> fst f \<noteq> 10" and "kSOH \<notin> set v"
    and "length (write_fields ((35, v) # fs)) < 2 ^ 63"
  shows "\<exists>cksum. parse_validated (frame (write_fields ((35, v) # fs))) = Inr
    ([(8, kBeginString), (9, show_nat (length (write_fields ((35, v) # fs)))), (35, v)] @ fs @ [(10, cksum)])"
  using frame_parses [OF assms] by (intro exI) (simp add: header_fields_def trailer_field_def)

theorem envelope_roundtrip_witness:
  "\<exists>cksum. parse_validated (frame (write_fields [(35, ''F''), (41, ''7'')])) =
     Inr [(8, ''FIX.4.2''), (9, ''10''), (35, ''F''), (41, ''7''), (10, cksum)]"
proof -
  have len: "length (write_fields [(35, ''F''), (41, ''7'')]) = 10" by code_simp
  have num: "show_nat 10 = ''10''" by code_simp
  have "\<exists>cksum. parse_validated (frame (write_fields ((35, ''F'') # [(41, ''7'')]))) = Inr
      ([(8, kBeginString), (9, show_nat (length (write_fields ((35, ''F'') # [(41, ''7'')])))), (35, ''F'')] @ [(41, ''7'')] @ [(10, cksum)])"
    by (rule envelope_roundtrip) (simp_all add: field_ok_def kSOH_def len)
  then show ?thesis by (simp only: len num kBeginString_def append.simps)
qed

text \<open>
  The body length is counted from the first \<open>35=\<close> field, not from the end of the length field:
  of the ten bytes between the length field and the trailer, only the five from \<open>35=\<close> on.
\<close>

lemma body_length_starts_at_msg_type:
  "length (write_fields [(49, ''A''), (35, ''F'')]) = 10 \<and>
   compute_body_length (write_fields [(8, ''FIX.4.2''), (9, ''10''), (49, ''A''), (35, ''F''), (10, ''000'')]) = 5"
  by code_simp

end
