(* ===== verification/Fix_Session.thy ===== *)
theory Fix_Session
  imports Fix_Message Risk_Engine
begin

text \<open>
  \<^verbatim>\<open>src/adapters/fix\<close>, the business layer: the parser of orders and cancels
  (\<^verbatim>\<open>FixParser.cpp\<close>), the execution reports (\<^verbatim>\<open>FixEncoder.cpp\<close>) and the session that joins them
  to an engine (\<^verbatim>\<open>FixSession.cpp\<close>). The engine is any pair of a submit and a cancel function. The
  broken-down time that \<open>gmtime_r\<close> yields is an argument of the encoder.
\<close>

section \<open>The parser (FixParser.cpp)\<close>

definition kSupportedSymbol :: string where
  "kSupportedSymbol = ''MINI''"

datatype ParsedMessage = ParsedNewOrder NewOrder | ParsedCancelRequest CancelRequest

definition parse_uint64_field :: "TagMap \<Rightarrow> int \<Rightarrow> u64 option" where
  "parse_uint64_field m tag =
     (case tag_get tag m of
        None \<Rightarrow> None
      | Some v \<Rightarrow>
          if v = [] then None
          else case from_chars_u64 v of
            None \<Rightarrow> None
          | Some (val, rest) \<Rightarrow> if rest = [] then Some val else None)"

definition parse_int64_field :: "TagMap \<Rightarrow> int \<Rightarrow> i64 option" where
  "parse_int64_field m tag =
     (case tag_get tag m of
        None \<Rightarrow> None
      | Some v \<Rightarrow>
          if v = [] then None
          else case from_chars_i64 v of
            None \<Rightarrow> None
          | Some (val, rest) \<Rightarrow> if rest = [] then Some val else None)"

definition parse_ord_type :: "TagMap \<Rightarrow> u64 \<Rightarrow> Side \<Rightarrow> u64 \<Rightarrow> ClientId \<Rightarrow> FixError + ParsedMessage" where
  "parse_ord_type m id_val side qty_val owner =
     (case tag_get 40 m of
        None \<Rightarrow> Inl (fix_error MissingRequiredTag 40 ''missing OrdType (tag 40)'')
      | Some ordtype \<Rightarrow>
          if ordtype = ''2'' then
            (case parse_int64_field m 44 of
               None \<Rightarrow> Inl (fix_error MissingPrice 44 ''Limit order (OrdType=2) requires Price (tag 44)'')
             | Some price_val \<Rightarrow> Inr (ParsedNewOrder (NewLimit \<lparr>lo_id = OrderId id_val, lo_side = side,
                 lo_price = Price price_val, lo_quantity = Quantity qty_val, lo_owner = owner\<rparr>)))
          else if ordtype = ''1'' then
            Inr (ParsedNewOrder (NewMarket \<lparr>mo_id = OrderId id_val, mo_side = side,
              mo_quantity = Quantity qty_val, mo_owner = owner\<rparr>))
          else Inl (fix_error UnsupportedOrdType 40 ''OrdType (tag 40) must be 1 (Market) or 2 (Limit)''))"

definition parse_order_qty :: "TagMap \<Rightarrow> u64 \<Rightarrow> Side \<Rightarrow> ClientId \<Rightarrow> FixError + ParsedMessage" where
  "parse_order_qty m id_val side owner =
     (case parse_uint64_field m 38 of
        None \<Rightarrow> Inl (fix_error InvalidQuantity 38 ''OrderQty (tag 38) must be a positive integer'')
      | Some qty_val \<Rightarrow>
          if qty_val = 0 then Inl (fix_error InvalidQuantity 38 ''OrderQty (tag 38) must be a positive integer'')
          else parse_ord_type m id_val side qty_val owner)"

definition parse_new_order_single :: "TagMap \<Rightarrow> ClientId \<Rightarrow> FixError + ParsedMessage" where
  "parse_new_order_single m owner =
     (case parse_uint64_field m 11 of
        None \<Rightarrow> Inl (fix_error InvalidClOrdIdFormat 11 ''ClOrdID (tag 11) must be a numeric uint64'')
      | Some id_val \<Rightarrow>
     (case tag_get 55 m of
        None \<Rightarrow> Inl (fix_error MissingRequiredTag 55 ''missing Symbol (tag 55)'')
      | Some symbol \<Rightarrow>
     if symbol \<noteq> kSupportedSymbol
     then Inl (fix_error UnsupportedSymbol 55 ''symbol not supported (single-symbol exchange)'')
     else
     (case tag_get 54 m of
        None \<Rightarrow> Inl (fix_error MissingRequiredTag 54 ''missing Side (tag 54)'')
      | Some side_sv \<Rightarrow>
     if side_sv = ''1'' then parse_order_qty m id_val Buy owner
     else if side_sv = ''2'' then parse_order_qty m id_val Sell owner
     else Inl (fix_error InvalidSide 54 ''Side (tag 54) must be 1 (Buy) or 2 (Sell)''))))"

definition parse_cancel_request :: "TagMap \<Rightarrow> FixError + ParsedMessage" where
  "parse_cancel_request m =
     (case parse_uint64_field m 41 of
        Some id_val \<Rightarrow> Inr (ParsedCancelRequest \<lparr>cr_id = OrderId id_val\<rparr>)
      | None \<Rightarrow>
     (case parse_uint64_field m 11 of
        Some id_val \<Rightarrow> Inr (ParsedCancelRequest \<lparr>cr_id = OrderId id_val\<rparr>)
      | None \<Rightarrow>
     if tag_has 41 m \<or> tag_has 11 m
     then Inl (fix_error InvalidClOrdIdFormat 41 ''OrigClOrdID/ClOrdID must be a numeric uint64'')
     else Inl (fix_error MissingRequiredTag 41 ''cancel requires OrigClOrdID (tag 41) or ClOrdID (tag 11)'')))"

definition fix_parse :: "TagMap \<Rightarrow> ClientId \<Rightarrow> FixError + ParsedMessage" where
  "fix_parse m owner =
     (case tag_get 35 m of
        None \<Rightarrow> Inl (fix_error MissingRequiredTag 35 ''missing MsgType (tag 35)'')
      | Some msg_type \<Rightarrow>
          if msg_type = ''D'' then parse_new_order_single m owner
          else if msg_type = ''F'' then parse_cancel_request m
          else Inl (fix_error UnsupportedMessageType 35 ''only 35=D and 35=F are supported''))"


section \<open>Execution reports (FixEncoder.cpp)\<close>

record ExecReportContext =
  ctx_order_id :: OrderId
  ctx_side :: Side
  ctx_original_qty :: Quantity
  ctx_is_cancel :: bool

record FixEncoder =
  sender_comp_id :: string
  target_comp_id :: string
  next_seq_num :: u64
  next_exec_id :: u64

definition FixEncoder_init :: "string \<Rightarrow> string \<Rightarrow> FixEncoder" where
  "FixEncoder_init sender target =
     \<lparr>sender_comp_id = sender, target_comp_id = target, next_seq_num = 1, next_exec_id = 1\<rparr>"

text \<open>The fields of \<open>std::tm\<close> that the format reads, and \<open>strftime\<close> with \<open>%Y%m%d-%H:%M:%S\<close>.\<close>

record tm =
  tm_year :: nat
  tm_mon :: nat
  tm_mday :: nat
  tm_hour :: nat
  tm_min :: nat
  tm_sec :: nat

definition pad2 :: "nat \<Rightarrow> string" where
  "pad2 n = [char_of (48 + n div 10 mod 10), char_of (48 + n mod 10)]"

definition sending_time :: "tm \<Rightarrow> string" where
  "sending_time t = show_nat (1900 + tm_year t) @ pad2 (tm_mon t + 1) @ pad2 (tm_mday t) @ ''-'' @
     pad2 (tm_hour t) @ '':'' @ pad2 (tm_min t) @ '':'' @ pad2 (tm_sec t)"

definition total_filled :: "EngineResponse \<Rightarrow> u64" where
  "total_filled response = foldl (\<lambda>filled t. filled + qty_value (t_quantity t)) 0 (trades response)"

definition ord_status_for :: "EngineResponse \<Rightarrow> Quantity \<Rightarrow> bool \<Rightarrow> char" where
  "ord_status_for response original_qty is_cancel =
     (if status response \<noteq> Accepted then CHR ''8''
      else if is_cancel then CHR ''4''
      else let filled = total_filled response
           in if filled = 0 then CHR ''0''
              else if qty_value original_qty \<le> filled then CHR ''2''
              else CHR ''1'')"

definition encode_execution_report ::
    "tm \<Rightarrow> ExecReportContext \<Rightarrow> EngineResponse \<Rightarrow> FixEncoder \<Rightarrow> string \<times> FixEncoder" where
  "encode_execution_report now ctx response enc =
     (let body = append_field [] 35 ''8'';
          body = append_field body 49 (sender_comp_id enc);
          body = append_field body 56 (target_comp_id enc);
          body = append_field body 34 (to_string_u64 (next_seq_num enc));
          enc = enc\<lparr>next_seq_num := next_seq_num enc + 1\<rparr>;
          body = append_field body 52 (sending_time now);
          ord_status = ord_status_for response (ctx_original_qty ctx) (ctx_is_cancel ctx);
          body = append_field body 37 (to_string_u64 (oid (ctx_order_id ctx)));
          body = append_field body 11 (to_string_u64 (oid (ctx_order_id ctx)));
          body = append_field body 17 (to_string_u64 (next_exec_id enc));
          enc = enc\<lparr>next_exec_id := next_exec_id enc + 1\<rparr>;
          body = append_field body 39 [ord_status];
          body = append_field body 150 [ord_status];
          body = append_field body 54 (if ctx_side ctx = Buy then ''1'' else ''2'');
          body = append_field body 55 kSupportedSymbol;
          filled = total_filled response;
          body = append_field body 14 (to_string_u64 filled);
          body = append_field body 151 (to_string_u64 (qty_value (remaining_qty response)))
      in (frame body, enc))"


section \<open>The session (FixSession.cpp)\<close>

record 'e FixSession =
  fx_engine :: 'e
  fx_client_id :: ClientId
  fx_encoder :: FixEncoder

definition FixSession_init :: "'e \<Rightarrow> ClientId \<Rightarrow> string \<Rightarrow> string \<Rightarrow> 'e FixSession" where
  "FixSession_init e c our_comp_id peer_comp_id =
     \<lparr>fx_engine = e, fx_client_id = c, fx_encoder = FixEncoder_init our_comp_id peer_comp_id\<rparr>"

definition context_from_new_order :: "NewOrder \<Rightarrow> ExecReportContext" where
  "context_from_new_order order = \<lparr>ctx_order_id = new_order_id order, ctx_side = new_order_side order,
     ctx_original_qty = new_order_quantity order, ctx_is_cancel = False\<rparr>"

definition handle_message ::
    "'e submit_fn \<Rightarrow> 'e cancel_fn \<Rightarrow> tm \<Rightarrow> string \<Rightarrow> 'e FixSession \<Rightarrow> ((FixError + string) \<times> 'e FixSession) option" where
  "handle_message sub can now raw s =
     (case parse_validated raw of
        Inl err \<Rightarrow> Some (Inl err, s)
      | Inr m \<Rightarrow>
     (case fix_parse m (fx_client_id s) of
        Inl err \<Rightarrow> Some (Inl err, s)
      | Inr (ParsedNewOrder command) \<Rightarrow> do {
          let ctx = context_from_new_order command;
          (resp, e) \<leftarrow> sub (fx_engine s) command;
          let (report, enc) = encode_execution_report now ctx resp (fx_encoder s);
          Some (Inr report, s\<lparr>fx_engine := e, fx_encoder := enc\<rparr>)
        }
      | Inr (ParsedCancelRequest command) \<Rightarrow> do {
          (resp, e) \<leftarrow> can (fx_engine s) (cr_id command);
          let ctx = \<lparr>ctx_order_id = cr_id command, ctx_side = Buy, ctx_original_qty = Quantity 0, ctx_is_cancel = True\<rparr>;
          let (report, enc) = encode_execution_report now ctx resp (fx_encoder s);
          Some (Inr report, s\<lparr>fx_engine := e, fx_encoder := enc\<rparr>)
        }))"


section \<open>What a report says\<close>

lemma total_filled_sum: "unat (foldl (\<lambda>f t. f + qty_value (t_quantity t)) a ts) = unat a + traded ts"
  if "unat a + traded ts < 2 ^ 64" for a :: u64
  using that
proof (induction ts arbitrary: a)
  case Nil
  then show ?case by (simp add: traded_def)
next
  case (Cons t ts)
  have s: "traded (t # ts) = qty_nat (t_quantity t) + traded ts" by (simp add: traded_def)
  have "unat (a + qty_value (t_quantity t)) = unat a + qty_nat (t_quantity t)"
    using Cons.prems s by (simp add: qty_nat_def unat_word_ariths)
  then show ?case using Cons s by simp
qed

lemma length_show_nat: "n < 10 ^ k \<Longrightarrow> 0 < k \<Longrightarrow> length (show_nat n) \<le> k"
proof (induction k arbitrary: n)
  case (Suc k)
  show ?case
  proof (cases "n < 10")
    case True
    then show ?thesis by (simp add: show_nat.simps [of n])
  next
    case False
    then have "0 < k" using Suc.prems(1) by (cases k) auto
    moreover have "n div 10 < 10 ^ k" using Suc.prems(1) by (simp add: less_mult_imp_div_less mult.commute)
    ultimately have "length (show_nat (n div 10)) \<le> k" using Suc.IH by blast
    then show ?thesis using False by (simp add: show_nat.simps [of n])
  qed
qed simp

lemma length_to_string_u64: "length (to_string_u64 w) \<le> 20"
  unfolding to_string_u64_def using unsigned_less [of w, where ?'a = nat] by (intro length_show_nat) simp_all

definition tm_ok :: "tm \<Rightarrow> bool" where
  "tm_ok t \<longleftrightarrow> tm_year t < 8100"

definition encoder_ok :: "FixEncoder \<Rightarrow> bool" where
  "encoder_ok enc \<longleftrightarrow> kSOH \<notin> set (sender_comp_id enc) \<and> kSOH \<notin> set (target_comp_id enc) \<and>
     length (sender_comp_id enc) + length (target_comp_id enc) < 2 ^ 62"

definition report_fields :: "tm \<Rightarrow> ExecReportContext \<Rightarrow> EngineResponse \<Rightarrow> FixEncoder \<Rightarrow> TagMap" where
  "report_fields now ctx response enc =
     (let st = ord_status_for response (ctx_original_qty ctx) (ctx_is_cancel ctx)
      in [(49, sender_comp_id enc), (56, target_comp_id enc), (34, to_string_u64 (next_seq_num enc)),
          (52, sending_time now), (37, to_string_u64 (oid (ctx_order_id ctx))),
          (11, to_string_u64 (oid (ctx_order_id ctx))), (17, to_string_u64 (next_exec_id enc)),
          (39, [st]), (150, [st]), (54, if ctx_side ctx = Buy then ''1'' else ''2''), (55, kSupportedSymbol),
          (14, to_string_u64 (total_filled response)), (151, to_string_u64 (qty_value (remaining_qty response)))])"

lemma encode_report_fields:
  "encode_execution_report now ctx resp enc = (frame (write_fields ((35, ''8'') # report_fields now ctx resp enc)),
     enc\<lparr>next_seq_num := next_seq_num enc + 1, next_exec_id := next_exec_id enc + 1\<rparr>)"
  by (simp add: encode_execution_report_def report_fields_def write_fields_def Let_def)

lemma soh_neq [simp]:
  "kSOH \<noteq> CHR ''-''" "kSOH \<noteq> CHR '':''" "kSOH \<noteq> CHR ''0''" "kSOH \<noteq> CHR ''1''" "kSOH \<noteq> CHR ''2''"
  "kSOH \<noteq> CHR ''4''" "kSOH \<noteq> CHR ''8''"
  by (simp_all add: kSOH_def)

lemma pad2_no_soh: "kSOH \<notin> set (pad2 n)"
proof -
  have "is_digit c" if "c \<in> set (pad2 n)" for c using that by (auto simp: pad2_def is_digit_def)
  then show ?thesis using special_not_digit(1) by blast
qed

lemma no_soh:
  "kSOH \<notin> set (to_string_u64 w)" "kSOH \<notin> set (sending_time t)" "kSOH \<noteq> ord_status_for resp q c"
  by (simp_all add: to_string_u64_def sending_time_def not_in_show_nat pad2_no_soh ord_status_for_def Let_def)

lemma report_field_ok:
  assumes "encoder_ok enc" and "f \<in> set (report_fields now ctx resp enc)"
  shows "field_ok f \<and> fst f \<noteq> 10"
proof -
  have "kSOH \<notin> set kSupportedSymbol" by (simp add: kSupportedSymbol_def kSOH_def)
  then show ?thesis using assms no_soh unfolding report_fields_def Let_def
    by (auto simp: field_ok_def encoder_ok_def split: if_splits)
qed

lemma length_write_fields:
  "length (write_fields fs) = sum_list (map (\<lambda>f. length (show_int (fst f)) + length (snd f) + 2) fs)"
  by (induction fs) (simp_all add: write_fields_Cons)

lemma length_report_tags:
  "length (show_int 35) = 2" "length (show_int 49) = 2" "length (show_int 56) = 2" "length (show_int 34) = 2"
  "length (show_int 52) = 2" "length (show_int 37) = 2" "length (show_int 11) = 2" "length (show_int 17) = 2"
  "length (show_int 39) = 2" "length (show_int 150) = 3" "length (show_int 54) = 2" "length (show_int 55) = 2"
  "length (show_int 14) = 2" "length (show_int 151) = 3"
  by code_simp+

lemma length_report:
  assumes "encoder_ok enc" and "tm_ok now"
  shows "length (write_fields ((35, ''8'') # report_fields now ctx resp enc)) < 2 ^ 63"
proof -
  have "length (show_nat (1900 + tm_year now)) \<le> 4" using assms(2) by (intro length_show_nat) (simp_all add: tm_ok_def)
  then have "length (sending_time now) \<le> 17" by (simp add: sending_time_def pad2_def)
  moreover have "length kSupportedSymbol = 4" by (simp add: kSupportedSymbol_def)
  moreover have "length (if ctx_side ctx = Buy then ''1'' else ''2'') = 1" by simp
  ultimately have "length (write_fields ((35, ''8'') # report_fields now ctx resp enc)) \<le>
      length (sender_comp_id enc) + length (target_comp_id enc) + 300"
    using length_to_string_u64 [of "next_seq_num enc"]
      length_to_string_u64 [of "oid (ctx_order_id ctx)"] length_to_string_u64 [of "next_exec_id enc"]
      length_to_string_u64 [of "total_filled resp"] length_to_string_u64 [of "qty_value (remaining_qty resp)"]
    unfolding length_write_fields report_fields_def Let_def
    by (simp only: list.map sum_list.Cons sum_list.Nil fst_conv snd_conv list.size length_report_tags)
  also have "\<dots> < 2 ^ 62 + 300" using assms(1) by (simp add: encoder_ok_def)
  also have "\<dots> < 2 ^ 63" by simp
  finally show ?thesis .
qed

lemma report_parses:
  assumes "encoder_ok enc" and "tm_ok now"
  shows "\<exists>len cksum. parse_validated (fst (encode_execution_report now ctx resp enc)) =
    Inr ((8, kBeginString) # (9, len) # (35, ''8'') # report_fields now ctx resp enc @ [(10, cksum)])"
proof -
  have "\<forall>f \<in> set (report_fields now ctx resp enc). field_ok f \<and> fst f \<noteq> 10"
    using report_field_ok [OF assms(1)] by blast
  moreover have "kSOH \<notin> set ''8''" by simp
  ultimately show ?thesis
    using frame_parses [OF _ _ length_report [OF assms]] unfolding encode_report_fields
    by (simp add: header_fields_def trailer_field_def)
qed


text \<open>What a message asks for, and what a session keeps over one that was answered.\<close>

definition request_of :: "string \<Rightarrow> ClientId \<Rightarrow> FixError + ParsedMessage" where
  "request_of raw c = (case parse_validated raw of Inl err \<Rightarrow> Inl err | Inr m \<Rightarrow> fix_parse m c)"

definition next_session :: "'e FixSession \<Rightarrow> 'e FixSession \<Rightarrow> bool" where
  "next_session s s' \<longleftrightarrow> fx_client_id s' = fx_client_id s \<and> encoder_ok (fx_encoder s') \<and>
     next_seq_num (fx_encoder s') = next_seq_num (fx_encoder s) + 1"

text \<open>What the report of an order and of a cancel says, read back from its fields.\<close>

definition order_report :: "NewOrder \<Rightarrow> EngineResponse \<Rightarrow> TagMap \<Rightarrow> bool" where
  "order_report ord resp m \<longleftrightarrow>
     parse_uint64_field m 11 = Some (oid (new_order_id ord)) \<and>
     (case (parse_uint64_field m 14, parse_uint64_field m 151) of
        (Some cum, Some leaves) \<Rightarrow>
          if status resp = Accepted
          then unat cum + unat leaves = qty_nat (new_order_quantity ord) \<and>
            tag_get 39 m = Some (if cum = 0 then ''0'' else if leaves = 0 then ''2'' else ''1'')
          else cum = 0 \<and> tag_get 39 m = Some ''8''
      | _ \<Rightarrow> False)"

definition cancel_report :: "OrderId \<Rightarrow> EngineResponse \<Rightarrow> TagMap \<Rightarrow> bool" where
  "cancel_report i resp m \<longleftrightarrow> parse_uint64_field m 11 = Some (oid i) \<and>
     tag_get 39 m = Some (if status resp = Accepted then ''4'' else ''8'')"

lemma field_number: "tag_get t m = Some (to_string_u64 w) \<Longrightarrow> parse_uint64_field m t = Some w"
  using parse_to_string_u64 [of w] by (simp add: parse_uint64_field_def parse_uint64_def split: if_splits)


section \<open>Sessions over an engine that accounts for its fills\<close>

locale fills_api = engine_api sub can inv
  for sub :: "'e submit_fn" and can :: "'e cancel_fn" and inv :: "'e \<Rightarrow> bool" +
  assumes sub_fills: "inv e \<Longrightarrow> sub e ord = Some (resp, e') \<Longrightarrow> status resp = Accepted \<Longrightarrow>
    qty_nat (new_order_quantity ord) = traded (trades resp) + qty_nat (remaining_qty resp)"
begin

lemma filled_balance:
  assumes "inv e" and "sub e ord = Some (resp, e')" and "status resp = Accepted"
  shows "unat (total_filled resp) + qty_nat (remaining_qty resp) = qty_nat (new_order_quantity ord)"
proof -
  have "qty_nat (new_order_quantity ord) < 2 ^ 64"
    using unsigned_less [of "qty_value (new_order_quantity ord)", where ?'a = nat] by (simp add: qty_nat_def)
  then show ?thesis using sub_fills [OF assms] total_filled_sum [of 0 "trades resp"] by (simp add: total_filled_def)
qed

lemma status_of_fills:
  assumes "inv e" and "sub e ord = Some (resp, e')" and "status resp = Accepted"
  shows "ord_status_for resp (new_order_quantity ord) False =
    (if total_filled resp = 0 then CHR ''0'' else if qty_value (remaining_qty resp) = 0 then CHR ''2'' else CHR ''1'')"
proof -
  have "unat (total_filled resp) + unat (qty_value (remaining_qty resp)) = unat (qty_value (new_order_quantity ord))"
    using filled_balance [OF assms] by (simp add: qty_nat_def)
  then have "qty_value (new_order_quantity ord) \<le> total_filled resp \<longleftrightarrow> qty_value (remaining_qty resp) = 0"
    by (auto simp: word_le_nat_alt simp flip: unat_eq_0)
  then show ?thesis using assms(3) by (simp add: ord_status_for_def Let_def)
qed

lemma order_reported:
  assumes "inv e" and "sub e ord = Some (resp, e')" and "encoder_ok enc" and "tm_ok now"
    and "encode_execution_report now (context_from_new_order ord) resp enc = (report, enc')"
  shows "\<exists>m. parse_validated report = Inr m \<and> order_report ord resp m \<and>
    parse_uint64_field m 34 = Some (next_seq_num enc)"
proof -
  obtain len cksum where m: "parse_validated report = Inr ((8, kBeginString) # (9, len) # (35, ''8'') #
      report_fields now (context_from_new_order ord) resp enc @ [(10, cksum)])" (is "_ = Inr ?m")
    using report_parses [OF assms(3,4), of "context_from_new_order ord" resp] assms(5) by auto
  have "order_report ord resp ?m"
  proof (cases "status resp = Accepted")
    case True
    then show ?thesis using filled_balance [OF assms(1,2)] status_of_fills [OF assms(1,2)]
      by (simp add: order_report_def report_fields_def context_from_new_order_def field_number Let_def qty_nat_def)
  next
    case False
    then show ?thesis using sub_rejected [OF assms(2)]
      by (simp add: order_report_def report_fields_def context_from_new_order_def field_number Let_def
          ord_status_for_def total_filled_def)
  qed
  moreover have "parse_uint64_field ?m 34 = Some (next_seq_num enc)"
    by (simp add: report_fields_def field_number Let_def)
  ultimately show ?thesis using m by blast
qed

lemma cancel_reported:
  assumes "encoder_ok enc" and "tm_ok now"
    and "encode_execution_report now \<lparr>ctx_order_id = i, ctx_side = Buy, ctx_original_qty = Quantity 0, ctx_is_cancel = True\<rparr>
      resp enc = (report, enc')"
  shows "\<exists>m. parse_validated report = Inr m \<and> cancel_report i resp m \<and> parse_uint64_field m 34 = Some (next_seq_num enc)"
proof -
  let ?ctx = "\<lparr>ctx_order_id = i, ctx_side = Buy, ctx_original_qty = Quantity 0, ctx_is_cancel = True\<rparr>"
  obtain len cksum where m: "parse_validated report = Inr ((8, kBeginString) # (9, len) # (35, ''8'') #
      report_fields now ?ctx resp enc @ [(10, cksum)])" (is "_ = Inr ?m")
    using report_parses [OF assms(1,2), of ?ctx resp] assms(3) by auto
  have "cancel_report i resp ?m" "parse_uint64_field ?m 34 = Some (next_seq_num enc)"
    by (simp_all add: cancel_report_def report_fields_def field_number ord_status_for_def Let_def)
  with m show ?thesis by blast
qed

lemma session_step:
  assumes "inv (fx_engine s)" and "encoder_ok (fx_encoder s)" and "tm_ok now"
  shows "case request_of raw (fx_client_id s) of
      Inl err \<Rightarrow> handle_message sub can now raw s = Some (Inl err, s)
    | Inr (ParsedNewOrder ord) \<Rightarrow> \<exists>resp report s' m. handle_message sub can now raw s = Some (Inr report, s') \<and>
        sub (fx_engine s) ord = Some (resp, fx_engine s') \<and> inv (fx_engine s') \<and> next_session s s' \<and>
        parse_validated report = Inr m \<and> order_report ord resp m \<and>
        parse_uint64_field m 34 = Some (next_seq_num (fx_encoder s))
    | Inr (ParsedCancelRequest c) \<Rightarrow> \<exists>resp report s' m. handle_message sub can now raw s = Some (Inr report, s') \<and>
        can (fx_engine s) (cr_id c) = Some (resp, fx_engine s') \<and> inv (fx_engine s') \<and> next_session s s' \<and>
        parse_validated report = Inr m \<and> cancel_report (cr_id c) resp m \<and>
        parse_uint64_field m 34 = Some (next_seq_num (fx_encoder s))"
proof (cases "request_of raw (fx_client_id s)")
  case (Inl err)
  then show ?thesis by (auto simp: request_of_def handle_message_def split: sum.splits)
next
  case (Inr cmd)
  then obtain m where m: "parse_validated raw = Inr m" "fix_parse m (fx_client_id s) = Inr cmd"
    by (auto simp: request_of_def split: sum.splits)
  show ?thesis
  proof (cases cmd)
    case (ParsedNewOrder ord)
    obtain resp e where e: "sub (fx_engine s) ord = Some (resp, e)" "inv e" using sub_total [OF assms(1)] by blast
    obtain report enc where enc: "encode_execution_report now (context_from_new_order ord) resp (fx_encoder s) = (report, enc)"
      by fastforce
    have "handle_message sub can now raw s = Some (Inr report, s\<lparr>fx_engine := e, fx_encoder := enc\<rparr>)"
      using m e enc ParsedNewOrder by (simp add: handle_message_def Let_def)
    moreover have "next_session s (s\<lparr>fx_engine := e, fx_encoder := enc\<rparr>)"
      using enc assms(2) by (auto simp: next_session_def encode_report_fields encoder_ok_def)
    ultimately show ?thesis
      using order_reported [OF assms(1) e(1) assms(2,3) enc] e Inr ParsedNewOrder by fastforce
  next
    case (ParsedCancelRequest c)
    let ?ctx = "\<lparr>ctx_order_id = cr_id c, ctx_side = Buy, ctx_original_qty = Quantity 0, ctx_is_cancel = True\<rparr>"
    obtain resp e where e: "can (fx_engine s) (cr_id c) = Some (resp, e)" "inv e" using can_total [OF assms(1)] by blast
    obtain report enc where enc: "encode_execution_report now ?ctx resp (fx_encoder s) = (report, enc)" by fastforce
    have "handle_message sub can now raw s = Some (Inr report, s\<lparr>fx_engine := e, fx_encoder := enc\<rparr>)"
      using m e enc ParsedCancelRequest by (simp add: handle_message_def Let_def)
    moreover have "next_session s (s\<lparr>fx_engine := e, fx_encoder := enc\<rparr>)"
      using enc assms(2) by (auto simp: next_session_def encode_report_fields encoder_ok_def)
    ultimately show ?thesis
      using cancel_reported [OF assms(2,3) enc] e Inr ParsedCancelRequest by fastforce
  qed
qed

end

lemma submit_fills:
  assumes "engine_ok e" and "submit Retained e ord = Some (resp, e')" and "status resp = Accepted"
  shows "qty_nat (new_order_quantity ord) = traded (trades resp) + qty_nat (remaining_qty resp)"
proof -
  obtain S1 where m: "spec_match (incoming_of ord) (new_order_quantity ord) []
      (sp_accept (new_order_owner ord) (accepted_of ord) (spec_of e)) = (remaining_qty resp, trades resp, S1)"
    by (rule submit_accepted [OF assms]) (rule that)
  show ?thesis using spec_match_conserve [OF m] by (simp add: traded_def)
qed

interpretation mf: fills_api "submit Retained" cancel engine_ok
  by unfold_locales (rule submit_fills)


section \<open>Properties\<close>

text \<open>
  C37. A FIX session answers every message. One that does not parse gives the error and changes
  nothing. One that does is the order or the cancel it names, put to the engine once, and the
  answer is a report that a FIX parser accepts, with the next sequence number and the order's
  id. For an accepted order the filled and the open quantity of the report add up to the
  quantity ordered, and its status is new, filled or partially filled accordingly; a rejection
  is reported as rejected with nothing filled; a cancel as cancelled or rejected.
\<close>

theorem session_reports:
  assumes "engine_ok (fx_engine s)" and "encoder_ok (fx_encoder s)" and "tm_ok now"
  shows "case request_of raw (fx_client_id s) of
      Inl err \<Rightarrow> handle_message (submit Retained) cancel now raw s = Some (Inl err, s)
    | Inr (ParsedNewOrder ord) \<Rightarrow> \<exists>resp report s' m. handle_message (submit Retained) cancel now raw s = Some (Inr report, s') \<and>
        submit Retained (fx_engine s) ord = Some (resp, fx_engine s') \<and> engine_ok (fx_engine s') \<and> next_session s s' \<and>
        parse_validated report = Inr m \<and> order_report ord resp m \<and>
        parse_uint64_field m 34 = Some (next_seq_num (fx_encoder s))
    | Inr (ParsedCancelRequest c) \<Rightarrow> \<exists>resp report s' m. handle_message (submit Retained) cancel now raw s = Some (Inr report, s') \<and>
        cancel (fx_engine s) (cr_id c) = Some (resp, fx_engine s') \<and> engine_ok (fx_engine s') \<and> next_session s s' \<and>
        parse_validated report = Inr m \<and> cancel_report (cr_id c) resp m \<and>
        parse_uint64_field m 34 = Some (next_seq_num (fx_encoder s))"
  using assms by (rule mf.session_step)

definition demo_tm :: tm where
  "demo_tm = \<lparr>tm_year = 126, tm_mon = 0, tm_mday = 5, tm_hour = 9, tm_min = 30, tm_sec = 0\<rparr>"

definition demo_session :: "MatchingEngine FixSession" where
  "demo_session = FixSession_init demo (ClientId 9) ''EXCH'' ''PEER''"

definition demo_fields :: TagMap where
  "demo_fields = [(11, to_string_u64 3), (55, ''MINI''), (54, ''1''), (38, to_string_u64 7), (40, ''2''), (44, to_string_i64 101)]"

definition demo_raw :: string where
  "demo_raw = frame (write_fields ((35, ''D'') # demo_fields))"

lemma demo_numbers: "to_string_u64 3 = ''3''" "to_string_u64 7 = ''7''" "to_string_i64 101 = ''101''"
proof -
  have "show_nat 3 = ''3''" "show_nat 7 = ''7''" "show_nat 101 = ''101''" by code_simp+
  then show "to_string_u64 3 = ''3''" "to_string_u64 7 = ''7''" "to_string_i64 101 = ''101''"
    by (simp_all add: to_string_u64_def to_string_i64_def)
qed

lemma demo_request: "request_of demo_raw (ClientId 9) = Inr (ParsedNewOrder (limit_of 9 3 Buy 101 7))"
proof -
  have "length (write_fields ((35, ''D'') # demo_fields)) = 40"
    unfolding demo_fields_def demo_numbers by code_simp
  moreover have "\<forall>f \<in> set demo_fields. field_ok f \<and> fst f \<noteq> 10" "kSOH \<notin> set ''D''"
    by (simp_all add: demo_fields_def demo_numbers field_ok_def kSOH_def)
  ultimately obtain h t where p: "parse_validated demo_raw = Inr ((8, kBeginString) # (9, h) # (35, ''D'') # demo_fields @ [t])"
    using frame_parses [of demo_fields "''D''"] by (simp add: demo_raw_def header_fields_def)
  let ?m = "(8, kBeginString) # (9, h) # (35, ''D'') # demo_fields @ [t]"
  have "parse_uint64_field ?m 11 = Some 3" "parse_uint64_field ?m 38 = Some 7" by (simp_all add: field_number demo_fields_def)
  moreover have "parse_int64_field ?m 44 = Some 101"
    using parse_to_string_i64 [of 101]
    by (simp add: parse_int64_field_def parse_int64_def demo_fields_def split: if_splits del: parse_to_string_i64)
  ultimately show ?thesis unfolding request_of_def p
    by (simp add: fix_parse_def parse_new_order_single_def parse_order_qty_def parse_ord_type_def limit_of_def
        demo_fields_def kSupportedSymbol_def)
qed

theorem session_reports_witness:
  "\<exists>resp report s' m. handle_message (submit Retained) cancel demo_tm demo_raw demo_session = Some (Inr report, s') \<and>
     submit Retained demo (limit_of 9 3 Buy 101 7) = Some (resp, fx_engine s') \<and> parse_validated report = Inr m \<and>
     order_report (limit_of 9 3 Buy 101 7) resp m"
proof -
  have "engine_ok (fx_engine demo_session)" "encoder_ok (fx_encoder demo_session)" "tm_ok demo_tm"
    by (simp_all add: demo_session_def FixSession_init_def FixEncoder_init_def demo_ok encoder_ok_def tm_ok_def demo_tm_def kSOH_def)
  from session_reports [OF this, of demo_raw] show ?thesis
    using demo_request by (auto simp: demo_session_def FixSession_init_def)
qed

text \<open>
  A market order that finds no liquidity is reported as new with all of its quantity open, the
  report of an order that rests, although a market order never rests.
\<close>

lemma unfilled_market_reported_new:
  assumes "status resp = Accepted" and "trades resp = []"
  shows "ord_status_for resp q False = CHR ''0''"
  using assms by (simp add: ord_status_for_def total_filled_def)

lemma unfilled_market_example:
  "map_option (\<lambda>(r, e). (status r, trades r, remaining_qty r, resting (book e) Buy, resting (book e) Sell))
     (submit Retained (MatchingEngine_init 4 demo_stp) (NewMarket \<lparr>mo_id = OrderId 1, mo_side = Buy,
       mo_quantity = Quantity 5, mo_owner = ClientId 1\<rparr>)) = Some (Accepted, [], Quantity 5, [], [])"
  by code_simp

end
