(* ===== verification/Strategies.thy ===== *)
theory Strategies
  imports Exchange_Server
begin

text \<open>
  \<^verbatim>\<open>src/strategy\<close> and \<^verbatim>\<open>src/apps/strategy_runner/main.cpp\<close>: the market maker, the momentum strategy
  and the runner that drives them. A strategy holds a reference to the engine port; here the
  engine is threaded through, with its submit and cancel functions as arguments. Signed 64-bit
  arithmetic that would overflow has no result.
\<close>

section \<open>Signed arithmetic\<close>

definition in_i64 :: "int \<Rightarrow> int option" where
  "in_i64 a = (if - (2 ^ 63) \<le> a \<and> a < 2 ^ 63 then Some a else None)"

definition price_of :: "int \<Rightarrow> Price" where
  "price_of a = Price (of_int a)"


section \<open>The market maker (MarketMakerStrategy)\<close>

record MarketMakerConfig =
  mmc_reference_price :: Price
  mmc_spread :: Price
  mmc_quote_size :: Quantity
  mmc_drift_per_tick :: int

record MarketMakerStrategy =
  mm_id :: ClientId
  mm_config :: MarketMakerConfig
  mm_next_order_id :: OrderId
  mm_bid_id :: OrderId
  mm_ask_id :: OrderId
  mm_quoting :: bool
  mm_current_ref :: Price
  mm_drift_dir :: int
  mm_drift_accum :: int

definition MarketMakerStrategy_init :: "ClientId \<Rightarrow> MarketMakerConfig \<Rightarrow> MarketMakerStrategy" where
  "MarketMakerStrategy_init i cfg =
     \<lparr>mm_id = i, mm_config = cfg, mm_next_order_id = OrderId (cid i * 1000000000 + 1), mm_bid_id = OrderId 0,
      mm_ask_id = OrderId 0, mm_quoting = False, mm_current_ref = mmc_reference_price cfg, mm_drift_dir = 1,
      mm_drift_accum = 0\<rparr>"

definition mm_fresh_id :: "MarketMakerStrategy \<Rightarrow> OrderId \<times> MarketMakerStrategy" where
  "mm_fresh_id m = (mm_next_order_id m, m\<lparr>mm_next_order_id := OrderId (oid (mm_next_order_id m) + 1)\<rparr>)"

definition mm_pull_bid :: "'e cancel_fn \<Rightarrow> 'e \<Rightarrow> MarketMakerStrategy \<Rightarrow> ('e \<times> MarketMakerStrategy) option" where
  "mm_pull_bid can e m =
     (if oid (mm_bid_id m) \<noteq> 0 then do {
        (_, e) \<leftarrow> can e (mm_bid_id m);
        Some (e, m\<lparr>mm_bid_id := OrderId 0\<rparr>)
      } else Some (e, m))"

definition mm_pull_ask :: "'e cancel_fn \<Rightarrow> 'e \<Rightarrow> MarketMakerStrategy \<Rightarrow> ('e \<times> MarketMakerStrategy) option" where
  "mm_pull_ask can e m =
     (if oid (mm_ask_id m) \<noteq> 0 then do {
        (_, e) \<leftarrow> can e (mm_ask_id m);
        Some (e, m\<lparr>mm_ask_id := OrderId 0\<rparr>)
      } else Some (e, m))"

definition mm_quote :: "MarketMakerStrategy \<Rightarrow> OrderId \<Rightarrow> Side \<Rightarrow> int \<Rightarrow> NewOrder" where
  "mm_quote m i side px = NewLimit \<lparr>lo_id = i, lo_side = side, lo_price = price_of px,
     lo_quantity = mmc_quote_size (mm_config m), lo_owner = mm_id m\<rparr>"

definition mm_post_bid :: "'e submit_fn \<Rightarrow> int \<Rightarrow> 'e \<Rightarrow> MarketMakerStrategy \<Rightarrow> ('e \<times> MarketMakerStrategy) option" where
  "mm_post_bid sub px e m = do {
     let (new_bid, m) = mm_fresh_id m;
     (resp, e) \<leftarrow> sub e (mm_quote m new_bid Buy px);
     Some (e, if status resp = Accepted \<and> qty_value (remaining_qty resp) > 0 then m\<lparr>mm_bid_id := new_bid\<rparr> else m)
   }"

definition mm_post_ask :: "'e submit_fn \<Rightarrow> int \<Rightarrow> 'e \<Rightarrow> MarketMakerStrategy \<Rightarrow> ('e \<times> MarketMakerStrategy) option" where
  "mm_post_ask sub px e m = do {
     let (new_ask, m) = mm_fresh_id m;
     (resp, e) \<leftarrow> sub e (mm_quote m new_ask Sell px);
     Some (e, if status resp = Accepted \<and> qty_value (remaining_qty resp) > 0 then m\<lparr>mm_ask_id := new_ask\<rparr> else m)
   }"

definition requote :: "'e submit_fn \<Rightarrow> 'e cancel_fn \<Rightarrow> 'e \<Rightarrow> MarketMakerStrategy \<Rightarrow> ('e \<times> MarketMakerStrategy) option" where
  "requote sub can e m = do {
     (e, m) \<leftarrow> mm_pull_bid can e m;
     (e, m) \<leftarrow> mm_pull_ask can e m;
     bid_px \<leftarrow> in_i64 (price_int (mm_current_ref m) - price_int (mmc_spread (mm_config m)));
     ask_px \<leftarrow> in_i64 (price_int (mm_current_ref m) + price_int (mmc_spread (mm_config m)));
     (e, m) \<leftarrow> mm_post_bid sub bid_px e m;
     mm_post_ask sub ask_px e m
   }"

definition mm_drift :: "MarketMakerStrategy \<Rightarrow> MarketMakerStrategy option" where
  "mm_drift m = do {
     bound \<leftarrow> in_i64 (price_int (mmc_spread (mm_config m)) * 4);
     step \<leftarrow> in_i64 (mm_drift_dir m * mmc_drift_per_tick (mm_config m));
     accum \<leftarrow> in_i64 (mm_drift_accum m + step);
     m \<leftarrow> (if accum > bound then Some (m\<lparr>mm_drift_accum := bound, mm_drift_dir := - 1\<rparr>)
          else do {
            neg_bound \<leftarrow> in_i64 (- bound);
            Some (if accum < neg_bound then m\<lparr>mm_drift_accum := neg_bound, mm_drift_dir := 1\<rparr>
                  else m\<lparr>mm_drift_accum := accum\<rparr>)
          });
     ref_px \<leftarrow> in_i64 (price_int (mmc_reference_price (mm_config m)) + mm_drift_accum m);
     Some (m\<lparr>mm_current_ref := price_of ref_px\<rparr>)
   }"

definition mm_on_tick :: "'e submit_fn \<Rightarrow> 'e cancel_fn \<Rightarrow> 'e \<Rightarrow> MarketMakerStrategy \<Rightarrow> ('e \<times> MarketMakerStrategy) option" where
  "mm_on_tick sub can e m =
     (if \<not> mm_quoting m then requote sub can e (m\<lparr>mm_quoting := True\<rparr>)
      else if mmc_drift_per_tick (mm_config m) \<noteq> 0 then do {
        m \<leftarrow> mm_drift m;
        requote sub can e m
      } else Some (e, m))"

definition mm_on_trade ::
    "'e submit_fn \<Rightarrow> 'e cancel_fn \<Rightarrow> Trade \<Rightarrow> 'e \<Rightarrow> MarketMakerStrategy \<Rightarrow> ('e \<times> MarketMakerStrategy) option" where
  "mm_on_trade sub can trade e m =
     (let our_bid_hit = (oid (mm_bid_id m) \<noteq> 0 \<and> buy_order_id trade = mm_bid_id m);
          our_ask_hit = (oid (mm_ask_id m) \<noteq> 0 \<and> sell_order_id trade = mm_ask_id m)
      in if \<not> our_bid_hit \<and> \<not> our_ask_hit then Some (e, m)
         else let m = (if our_bid_hit \<and> resting_order_removed trade then m\<lparr>mm_bid_id := OrderId 0\<rparr> else m);
                  m = (if our_ask_hit \<and> resting_order_removed trade then m\<lparr>mm_ask_id := OrderId 0\<rparr> else m)
              in requote sub can e m)"


section \<open>The momentum strategy (MomentumStrategy)\<close>

record MomentumConfig =
  moc_lookback_n :: u64
  moc_order_size :: Quantity
  moc_signal_threshold :: Price
  moc_probe_every_ticks :: u64
  moc_probe_size :: Quantity

record MomentumStrategy =
  mo_strategy_id :: ClientId
  mo_config :: MomentumConfig
  mo_prices :: "Price list"
  mo_next_order_id :: OrderId
  mo_tick_count :: u64
  mo_probe_buy :: bool

definition MomentumStrategy_init :: "ClientId \<Rightarrow> MomentumConfig \<Rightarrow> MomentumStrategy" where
  "MomentumStrategy_init i cfg = \<lparr>mo_strategy_id = i, mo_config = cfg, mo_prices = [],
     mo_next_order_id = OrderId (cid i * 1000000000 + 1), mo_tick_count = 0, mo_probe_buy = True\<rparr>"

definition mo_fresh_id :: "MomentumStrategy \<Rightarrow> OrderId \<times> MomentumStrategy" where
  "mo_fresh_id m = (mo_next_order_id m, m\<lparr>mo_next_order_id := OrderId (oid (mo_next_order_id m) + 1)\<rparr>)"

text \<open>A market order; the response goes to \<open>on_response\<close>, which does nothing.\<close>

definition mo_fire :: "'e submit_fn \<Rightarrow> Side \<Rightarrow> Quantity \<Rightarrow> 'e \<Rightarrow> MomentumStrategy \<Rightarrow> ('e \<times> MomentumStrategy) option" where
  "mo_fire sub side qty e m = do {
     let (i, m) = mo_fresh_id m;
     (resp, e) \<leftarrow> sub e (NewMarket \<lparr>mo_id = i, mo_side = side, mo_quantity = qty, mo_owner = mo_strategy_id m\<rparr>);
     Some (e, m)
   }"

definition mo_record :: "Price \<Rightarrow> MomentumStrategy \<Rightarrow> MomentumStrategy" where
  "mo_record p m =
     (let prices = mo_prices m @ [p]
      in m\<lparr>mo_prices := if length prices > unat (moc_lookback_n (mo_config m)) then tl prices else prices\<rparr>)"

definition mo_on_trade :: "'e submit_fn \<Rightarrow> Trade \<Rightarrow> 'e \<Rightarrow> MomentumStrategy \<Rightarrow> ('e \<times> MomentumStrategy) option" where
  "mo_on_trade sub trade e m =
     (let m = mo_record (t_price trade) m; n = moc_lookback_n (mo_config m);
          threshold = price_int (moc_signal_threshold (mo_config m))
      in if length (mo_prices m) < unat n \<or> n = 0 then Some (e, m)
         else do {
           delta \<leftarrow> in_i64 (price_int (last (mo_prices m)) - price_int (hd (mo_prices m)));
           if delta > threshold then mo_fire sub Buy (moc_order_size (mo_config m)) e m
           else do {
             neg_delta \<leftarrow> in_i64 (- delta);
             if neg_delta > threshold then mo_fire sub Sell (moc_order_size (mo_config m)) e m
             else Some (e, m)
           }
         })"

definition mo_on_tick :: "'e submit_fn \<Rightarrow> 'e \<Rightarrow> MomentumStrategy \<Rightarrow> ('e \<times> MomentumStrategy) option" where
  "mo_on_tick sub e m =
     (if moc_probe_every_ticks (mo_config m) = 0 then Some (e, m)
      else let m = m\<lparr>mo_tick_count := mo_tick_count m + 1\<rparr>
           in if mo_tick_count m mod moc_probe_every_ticks (mo_config m) \<noteq> 0 then Some (e, m)
              else let side = (if mo_probe_buy m then Buy else Sell)
                   in mo_fire sub side (moc_probe_size (mo_config m)) e (m\<lparr>mo_probe_buy := \<not> mo_probe_buy m\<rparr>))"


section \<open>The runner (apps/strategy\_runner/main.cpp)\<close>

datatype Strategy = Maker MarketMakerStrategy | Momentum MomentumStrategy

fun strategy_on_tick :: "'e submit_fn \<Rightarrow> 'e cancel_fn \<Rightarrow> 'e \<Rightarrow> Strategy \<Rightarrow> ('e \<times> Strategy) option" where
  "strategy_on_tick sub can e (Maker m) = map_option (map_prod id Maker) (mm_on_tick sub can e m)"
| "strategy_on_tick sub can e (Momentum m) = map_option (map_prod id Momentum) (mo_on_tick sub e m)"

fun strategy_on_trade :: "'e submit_fn \<Rightarrow> 'e cancel_fn \<Rightarrow> Trade \<Rightarrow> 'e \<Rightarrow> Strategy \<Rightarrow> ('e \<times> Strategy) option" where
  "strategy_on_trade sub can t e (Maker m) = map_option (map_prod id Maker) (mm_on_trade sub can t e m)"
| "strategy_on_trade sub can t e (Momentum m) = map_option (map_prod id Momentum) (mo_on_trade sub t e m)"

text \<open>A loop over the strategies.\<close>

fun each_strategy :: "('e \<Rightarrow> Strategy \<Rightarrow> ('e \<times> Strategy) option) \<Rightarrow> 'e \<Rightarrow> Strategy list \<Rightarrow> ('e \<times> Strategy list) option" where
  "each_strategy f e [] = Some (e, [])"
| "each_strategy f e (s # ss) = do {
     (e, s) \<leftarrow> f e s;
     (e, ss) \<leftarrow> each_strategy f e ss;
     Some (e, s # ss)
   }"

fun dispatch_trades :: "'e submit_fn \<Rightarrow> 'e cancel_fn \<Rightarrow> Trade list \<Rightarrow> 'e \<Rightarrow> Strategy list \<Rightarrow> ('e \<times> Strategy list) option" where
  "dispatch_trades sub can [] e ss = Some (e, ss)"
| "dispatch_trades sub can (t # ts) e ss = do {
     (e, ss) \<leftarrow> each_strategy (strategy_on_trade sub can t) e ss;
     dispatch_trades sub can ts e ss
   }"

text \<open>
  The settling loop of one tick. \<open>drain\<close> takes the pending trades of the runner's sink and leaves
  none; \<open>guard\<close> counts down the iterations that are left.
\<close>

type_synonym 'e drain_fn = "'e \<Rightarrow> Trade list \<times> 'e"

fun settle :: "'e submit_fn \<Rightarrow> 'e cancel_fn \<Rightarrow> 'e drain_fn \<Rightarrow> nat \<Rightarrow> 'e \<times> Strategy list \<times> u64 \<Rightarrow>
    ('e \<times> Strategy list \<times> u64) option" where
  "settle sub can drain 0 st = Some st"
| "settle sub can drain (Suc guard) (e, ss, tot) =
     (case drain e of
        ([], _) \<Rightarrow> Some (e, ss, tot)
      | (ts, e) \<Rightarrow> do {
          (e, ss) \<leftarrow> dispatch_trades sub can ts e ss;
          settle sub can drain guard (e, ss, tot + of_nat (length ts))
        })"

definition run_tick :: "'e submit_fn \<Rightarrow> 'e cancel_fn \<Rightarrow> 'e drain_fn \<Rightarrow> 'e \<times> Strategy list \<times> u64 \<Rightarrow>
    ('e \<times> Strategy list \<times> u64) option" where
  "run_tick sub can drain st = (case st of (e, ss, tot) \<Rightarrow> do {
     (e, ss) \<leftarrow> each_strategy (strategy_on_tick sub can) e ss;
     settle sub can drain 1000 (e, ss, tot)
   })"

fun run_session :: "'e submit_fn \<Rightarrow> 'e cancel_fn \<Rightarrow> 'e drain_fn \<Rightarrow> nat \<Rightarrow> 'e \<times> Strategy list \<times> u64 \<Rightarrow>
    ('e \<times> Strategy list \<times> u64) option" where
  "run_session sub can drain 0 st = Some st"
| "run_session sub can drain (Suc n) st = do {
     st \<leftarrow> run_tick sub can drain st;
     run_session sub can drain n st
   }"

text \<open>\<open>DeferredTradeSink\<close>: it keeps the trades it is told of and ignores the other events.\<close>

definition sink_drain :: "MatchingEngine drain_fn" where
  "sink_drain e = (logged_trades (sink e), e\<lparr>sink := []\<rparr>)"

definition risk_drain :: "MatchingEngine RiskEngine drain_fn" where
  "risk_drain R = (case sink_drain (inner R) of (ts, e) \<Rightarrow> (ts, R\<lparr>inner := e\<rparr>))"

record RunnerConfig =
  run_market_maker :: bool
  run_momentum :: bool
  ticks :: nat

text \<open>\<open>std::atoll\<close>; a value outside \<open>long long\<close> is undefined.\<close>

definition atoll :: "string \<Rightarrow> int option" where
  "atoll s =
     (let l = dropWhile c_isspace s;
          neg = (l \<noteq> [] \<and> hd l = CHR ''-'');
          l' = (if l \<noteq> [] \<and> hd l \<in> {CHR ''-'', CHR ''+''} then tl l else l);
          n = int (digits_value (takeWhile is_digit l'))
      in in_i64 (if neg then - n else n))"

definition runner_arg :: "string \<Rightarrow> RunnerConfig \<Rightarrow> RunnerConfig option" where
  "runner_arg a cfg =
     (if a = ''--mm-only'' then Some (cfg\<lparr>run_market_maker := True, run_momentum := False\<rparr>)
      else if a = ''--momentum-only'' then Some (cfg\<lparr>run_market_maker := False, run_momentum := True\<rparr>)
      else if take 8 a = ''--ticks='' then do {
        n \<leftarrow> atoll (drop 8 a);
        Some (cfg\<lparr>ticks := unat (of_int n :: u64)\<rparr>)
      }
      else Some cfg)"

fun parse_args :: "string list \<Rightarrow> RunnerConfig \<Rightarrow> RunnerConfig option" where
  "parse_args [] cfg = Some cfg"
| "parse_args (a # argv) cfg = do { cfg \<leftarrow> runner_arg a cfg; parse_args argv cfg }"

definition RunnerConfig_init :: RunnerConfig where
  "RunnerConfig_init = \<lparr>run_market_maker = True, run_momentum = True, ticks = 5000\<rparr>"

definition runner_risk_config :: RiskConfig where
  "runner_risk_config = \<lparr>price_band_pct = 1/2, initial_reference_price = Price 10000,
     max_order_qty = Quantity 1000000, tick_size = Price 1, stp_enabled = True, stp_policy = RejectIncoming\<rparr>"

definition runner_engine :: "MatchingEngine RiskEngine" where
  "runner_engine = RiskEngine_init (MatchingEngine_init 1000000 (risk_stp runner_risk_config)) runner_risk_config"

definition runner_mm :: MarketMakerStrategy where
  "runner_mm = MarketMakerStrategy_init (ClientId 1001) \<lparr>mmc_reference_price = Price 10000, mmc_spread = Price 5,
     mmc_quote_size = Quantity 10, mmc_drift_per_tick = 2\<rparr>"

definition runner_mom :: MomentumStrategy where
  "runner_mom = MomentumStrategy_init (ClientId 1002) \<lparr>moc_lookback_n = 4, moc_order_size = Quantity 5,
     moc_signal_threshold = Price 2, moc_probe_every_ticks = 3, moc_probe_size = Quantity 2\<rparr>"

text \<open>The result is the number of trades and of resting orders that the runner prints, or exit code 1.\<close>

definition runner_session :: "freed_node \<Rightarrow> RunnerConfig \<Rightarrow> (nat + u64 \<times> nat) option" where
  "runner_session fr cfg =
     (let strategies = (if run_market_maker cfg then [Maker runner_mm] else []) @
                       (if run_momentum cfg then [Momentum runner_mom] else [])
      in if strategies = [] then Some (Inl 1)
         else do {
           (R, ss, total_trades) \<leftarrow> run_session (risk_submit (submit fr)) (risk_cancel cancel) risk_drain (ticks cfg)
             (runner_engine, strategies, 0);
           Some (Inr (total_trades, order_count (book (inner R))))
         })"

definition runner_main :: "freed_node \<Rightarrow> string list \<Rightarrow> (nat + u64 \<times> nat) option" where
  "runner_main fr argv = do { cfg \<leftarrow> parse_args argv RunnerConfig_init; runner_session fr cfg }"

end
