(* ===== verification/Strategy_Sessions.thy ===== *)
theory Strategy_Sessions
  imports Strategies
begin

text \<open>
  What the strategies do on an engine. The market maker needs of its engine only that orders
  and cancels act on the abstract exchange; under that contract a maker that is alone on the
  venue always has its two quotes in the book and never trades. The contract holds for the
  matching engine and for the stack the runner builds.
\<close>

section \<open>Quiet requests on the abstract exchange\<close>

lemma spec_match_quiet:
  assumes "\<And>x. x \<in> set (sp_side S (opposite (in_side i))) \<Longrightarrow> \<not> crosses (in_side i) (in_limit i) (o_price x)"
  shows "spec_match i q trs S = (q, trs, S)"
  using assms by (subst spec_match.simps) (auto simp: Let_def split: list.splits)

lemma spec_quiet_limit:
  assumes "0 < lo_quantity lo" and "0 < lo_price lo" and "\<not> spec_stale S (lo_owner lo) (lo_id lo)" and "0 < sp_free S"
    and "\<And>x. x \<in> set (sp_side S (opposite (lo_side lo))) \<Longrightarrow> \<not> crosses (lo_side lo) (Some (lo_price lo)) (o_price x)"
  shows "spec_submit (NewLimit lo) S =
    (\<lparr>status = Accepted, trades = [], remaining_qty = lo_quantity lo, r_order_id = lo_id lo\<rparr>,
     sp_rest (rest_order lo (lo_quantity lo) (sp_next_seq S)) (sp_accept (lo_owner lo) \<lparr>acc_id = lo_id lo,
       acc_side = lo_side lo, acc_quantity = lo_quantity lo, acc_price = lo_price lo\<rparr> S))"
proof -
  have "\<not> spec_self_cross S (lo_side lo) (lo_owner lo) (Some (lo_price lo))"
    using assms(5) by (auto simp: spec_self_cross_def)
  moreover have "spec_match \<lparr>in_side = lo_side lo, in_id = lo_id lo, in_owner = lo_owner lo, in_limit = Some (lo_price lo)\<rparr>
      (lo_quantity lo) [] (sp_accept c a S) = (lo_quantity lo, [], sp_accept c a S)" for c a
    by (rule spec_match_quiet) (use assms(5) in simp)
  ultimately show ?thesis using assms(1-4) by (simp add: spec_limit_def Let_def not_le)
qed

text \<open>The two quotes of a maker as the only orders of the book, and the empty book.\<close>

definition quote_in :: "Side \<Rightarrow> ClientId \<Rightarrow> OrderId \<Rightarrow> Spec \<Rightarrow> bool" where
  "quote_in s c i S \<longleftrightarrow> oid i \<noteq> 0 \<and> sp_index S i = Some c \<and>
     (\<exists>x. sp_side S s = [x] \<and> o_id x = i \<and> o_owner x = c \<and> o_side x = s)"

definition quoted :: "MarketMakerStrategy \<Rightarrow> Spec \<Rightarrow> bool" where
  "quoted m S \<longleftrightarrow> quote_in Buy (mm_id m) (mm_bid_id m) S \<and> quote_in Sell (mm_id m) (mm_ask_id m) S \<and>
     mm_bid_id m \<noteq> mm_ask_id m"

definition unquoted :: "MarketMakerStrategy \<Rightarrow> Spec \<Rightarrow> bool" where
  "unquoted m S \<longleftrightarrow> mm_bid_id m = OrderId 0 \<and> mm_ask_id m = OrderId 0 \<and> sp_side S Buy = [] \<and> sp_side S Sell = []"

definition venue_ok :: "MarketMakerStrategy \<Rightarrow> Spec \<Rightarrow> bool" where
  "venue_ok m S \<longleftrightarrow> spec_ok S \<and> logged_trades (sp_log S) = [] \<and>
     2 \<le> sp_free S + length (sp_side S Buy) + length (sp_side S Sell) \<and>
     (\<forall>w. sp_watermark S (mm_id m) = Some w \<longrightarrow> oid w < oid (mm_next_order_id m))"

lemma logged_trades_cancel [simp]: "logged_trades [cancel_event x] = []"
  by (simp add: cancel_event_def)

lemma spec_cancel_quote:
  assumes "quote_in Buy c i S"
  shows "\<exists>resp S'. spec_cancel i S = (resp, S') \<and> sp_side S' Buy = [] \<and> sp_side S' Sell = sp_side S Sell \<and>
    sp_index S' = (sp_index S)(i := None) \<and> sp_free S' = sp_free S + 1 \<and> sp_watermark S' = sp_watermark S \<and>
    logged_trades (sp_log S') = logged_trades (sp_log S)"
  using assms by (auto simp: quote_in_def spec_cancel_def spec_find_def)

lemma spec_cancel_ask:
  assumes "quote_in Sell c i S" and "sp_side S Buy = []"
  shows "\<exists>resp S'. spec_cancel i S = (resp, S') \<and> sp_side S' Buy = [] \<and> sp_side S' Sell = [] \<and>
    sp_free S' = sp_free S + 1 \<and> sp_watermark S' = sp_watermark S \<and>
    logged_trades (sp_log S') = logged_trades (sp_log S)"
  using assms by (auto simp: quote_in_def spec_cancel_def spec_find_def)

lemma index_None:
  assumes "spec_ok S" and "\<And>s x. x \<in> set (sp_side S s) \<Longrightarrow> o_id x \<noteq> i"
  shows "sp_index S i = None"
proof (rule ccontr)
  assume "sp_index S i \<noteq> None"
  then obtain c where "sp_index S i = Some c" by blast
  then have "(c, i) \<in> order_ident ` set (spec_orders S)" using assms(1) by (simp add: spec_ok_def index_sound_def)
  then show False using assms(2) by (auto simp: order_ident_def spec_orders_def)
qed

lemma rest_sel:
  "sp_side (sp_rest x S) = (sp_side S)(o_side x := insert_order (o_side x) x (sp_side S (o_side x)))"
  "sp_index S (o_id x) = None \<Longrightarrow> sp_index (sp_rest x S) = (sp_index S)(o_id x := Some (o_owner x))"
  "sp_watermark (sp_rest x S) = sp_watermark S" "sp_log (sp_rest x S) = sp_log S" "sp_free (sp_rest x S) = sp_free S - 1"
  by (simp_all add: sp_rest_def)

text \<open>A quote that meets no opposite order it crosses, on a side with no order.\<close>

lemma spec_post_quote:
  assumes ok: "spec_ok S" and lo: "0 < lo_quantity lo" "0 < lo_price lo" "oid (lo_id lo) \<noteq> 0"
    and fresh: "\<And>w. sp_watermark S (lo_owner lo) = Some w \<Longrightarrow> oid w < oid (lo_id lo)" and free: "0 < sp_free S"
    and side: "sp_side S (lo_side lo) = []"
    and opp: "\<And>x. x \<in> set (sp_side S (opposite (lo_side lo))) \<Longrightarrow>
      o_id x \<noteq> lo_id lo \<and> \<not> crosses (lo_side lo) (Some (lo_price lo)) (o_price x)"
  obtains resp S' x where "spec_submit (NewLimit lo) S = (resp, S')" and "trades resp = []" and "status resp = Accepted"
    and "remaining_qty resp = lo_quantity lo" and "sp_side S' = (sp_side S)(lo_side lo := [x])" and "o_price x = lo_price lo"
    and "quote_in (lo_side lo) (lo_owner lo) (lo_id lo) S'" and "sp_index S' = (sp_index S)(lo_id lo := Some (lo_owner lo))"
    and "sp_watermark S' = (sp_watermark S)(lo_owner lo := Some (lo_id lo))" and "sp_free S' = sp_free S - 1"
    and "logged_trades (sp_log S') = logged_trades (sp_log S)"
proof -
  have "o_id x \<noteq> lo_id lo" if "x \<in> set (sp_side S s)" for s x
    using that side opp by (cases "s = lo_side lo"; cases s; cases "lo_side lo") auto
  then have idx: "sp_index S (lo_id lo) = None" by (rule index_None [OF ok])
  have "\<not> spec_stale S (lo_owner lo) (lo_id lo)" using fresh by (auto simp: spec_stale_def not_le split: option.splits)
  note sub = spec_quiet_limit [OF lo(1,2) this free opp [THEN conjunct2]]
  show thesis
    by (rule that [OF sub, where x = "rest_order lo (lo_quantity lo) (sp_next_seq S)"])
      (use idx lo side in \<open>simp_all add: rest_sel quote_in_def rest_order_def insert_order_def\<close>)
qed


section \<open>The maker's numbers\<close>

definition maker_ok :: "nat \<Rightarrow> MarketMakerStrategy \<Rightarrow> bool" where
  "maker_ok n m \<longleftrightarrow> (let s = price_int (mmc_spread (mm_config m)); r = price_int (mmc_reference_price (mm_config m)) in
     0 < s \<and> 5 * s < r \<and> r + 5 * s < 2 ^ 63 \<and> 4 * s + \<bar>mmc_drift_per_tick (mm_config m)\<bar> < 2 ^ 63 \<and>
     0 < mmc_quote_size (mm_config m) \<and> mm_drift_dir m \<in> {1, - 1} \<and> \<bar>mm_drift_accum m\<bar> \<le> 4 * s \<and>
     price_int (mm_current_ref m) = r + mm_drift_accum m \<and>
     0 < unat (oid (mm_next_order_id m)) \<and> unat (oid (mm_next_order_id m)) + 2 * n < 2 ^ 64)"

lemma in_i64_Some: "- (2 ^ 63) \<le> a \<Longrightarrow> a < 2 ^ 63 \<Longrightarrow> in_i64 a = Some a"
  by (simp add: in_i64_def)

lemma price_int_of: "- (2 ^ 63) \<le> a \<Longrightarrow> a < 2 ^ 63 \<Longrightarrow> price_int (price_of a) = a"
  by (simp add: price_of_def signed_of_int signed_take_bit_int_eq_self)

lemma drift_ok:
  assumes "maker_ok n m"
  shows "\<exists>m'. mm_drift m = Some m' \<and> maker_ok n m' \<and> mm_id m' = mm_id m \<and> mm_config m' = mm_config m \<and>
    mm_bid_id m' = mm_bid_id m \<and> mm_ask_id m' = mm_ask_id m \<and> mm_next_order_id m' = mm_next_order_id m \<and>
    mm_quoting m' = mm_quoting m"
proof -
  let ?s = "price_int (mmc_spread (mm_config m))" and ?r = "price_int (mmc_reference_price (mm_config m))"
    and ?d = "mmc_drift_per_tick (mm_config m)"
  have p: "0 < ?s" "5 * ?s < ?r" "?r + 5 * ?s < 2 ^ 63" "4 * ?s + \<bar>?d\<bar> < 2 ^ 63" "\<bar>mm_drift_accum m\<bar> \<le> 4 * ?s"
    and dir: "mm_drift_dir m = 1 \<or> mm_drift_dir m = - 1"
    using assms by (simp_all add: maker_ok_def Let_def)
  have step: "\<bar>mm_drift_dir m * ?d\<bar> = \<bar>?d\<bar>" using dir by auto
  have b: "in_i64 (?s * 4) = Some (?s * 4)" "in_i64 (- (?s * 4)) = Some (- (?s * 4))"
    using p by (auto intro!: in_i64_Some)
  have a: "in_i64 (mm_drift_dir m * ?d) = Some (mm_drift_dir m * ?d)"
    "in_i64 (mm_drift_accum m + mm_drift_dir m * ?d) = Some (mm_drift_accum m + mm_drift_dir m * ?d)"
    using p step by (auto intro!: in_i64_Some)
  have r: "in_i64 (?r + t) = Some (?r + t)" "price_int (price_of (?r + t)) = ?r + t" if "\<bar>t\<bar> \<le> 4 * ?s" for t
    using p that by (auto intro!: in_i64_Some price_int_of)
  let ?t = "mm_drift_accum m + mm_drift_dir m * ?d"
  consider "?t > ?s * 4" | "?t < - (?s * 4)" "\<not> ?t > ?s * 4" | "\<bar>?t\<bar> \<le> 4 * ?s" by linarith
  then show ?thesis
  proof cases
    case 1
    then show ?thesis using assms b a r [of "?s * 4"] p by (simp add: mm_drift_def maker_ok_def Let_def)
  next
    case 2
    then show ?thesis using assms b a r [of "- (?s * 4)"] p by (simp add: mm_drift_def maker_ok_def Let_def)
  next
    case 3
    then have "\<not> ?t > ?s * 4" "\<not> ?t < - (?s * 4)" by linarith+
    with 3 show ?thesis using assms b a r [of ?t] p by (simp add: mm_drift_def maker_ok_def Let_def)
  qed
qed


section \<open>A maker on a quoting port\<close>

locale quote_port =
  fixes sub :: "'e submit_fn" and can :: "'e cancel_fn" and drain :: "'e drain_fn" and inv :: "'e \<Rightarrow> bool"
    and view :: "'e \<Rightarrow> Spec" and admits :: "LimitOrder \<Rightarrow> bool"
  assumes sub_quiet: "inv e \<Longrightarrow> admits lo \<Longrightarrow> spec_submit (NewLimit lo) (view e) = (resp, S) \<Longrightarrow> trades resp = [] \<Longrightarrow>
      \<exists>e'. sub e (NewLimit lo) = Some (resp, e') \<and> inv e' \<and> view e' = S"
    and can_view: "inv e \<Longrightarrow> spec_cancel i (view e) = (resp, S) \<Longrightarrow> \<exists>e'. can e i = Some (resp, e') \<and> inv e' \<and> view e' = S"
    and inv_spec: "inv e \<Longrightarrow> spec_ok (view e)"
    and drain_view: "inv e \<Longrightarrow> fst (drain e) = logged_trades (sp_log (view e))"
begin

definition admitted :: "MarketMakerStrategy \<Rightarrow> bool" where
  "admitted m \<longleftrightarrow> (\<forall>i side px. \<bar>px - price_int (mmc_reference_price (mm_config m))\<bar> \<le> 5 * price_int (mmc_spread (mm_config m)) \<longrightarrow>
     (\<forall>lo. mm_quote m i side px = NewLimit lo \<longrightarrow> admits lo))"

lemma pull_ok:
  assumes "inv e" and "venue_ok m (view e)" and "quoted m (view e) \<or> unquoted m (view e)"
  defines "m1 \<equiv> m\<lparr>mm_bid_id := OrderId 0, mm_ask_id := OrderId 0\<rparr>"
  obtains e0 m0 e1 where "mm_pull_bid can e m = Some (e0, m0)" and "mm_pull_ask can e0 m0 = Some (e1, m1)" and "inv e1"
    and "unquoted m1 (view e1)" and "venue_ok m1 (view e1)"
proof (cases "unquoted m (view e)")
  case True
  then have "m1 = m" by (simp add: unquoted_def m1_def)
  with True show thesis using that [of e m e] assms(1,2) by (simp add: unquoted_def mm_pull_bid_def mm_pull_ask_def)
next
  case False
  then have b: "quote_in Buy (mm_id m) (mm_bid_id m) (view e)" and a: "quote_in Sell (mm_id m) (mm_ask_id m) (view e)"
    and ne: "mm_bid_id m \<noteq> mm_ask_id m" using assms(3) by (simp_all add: quoted_def)
  obtain resp0 S0 where S0: "spec_cancel (mm_bid_id m) (view e) = (resp0, S0)" "sp_side S0 Buy = []"
      "sp_side S0 Sell = sp_side (view e) Sell" "sp_index S0 = (sp_index (view e))(mm_bid_id m := None)"
      "sp_free S0 = sp_free (view e) + 1" "sp_watermark S0 = sp_watermark (view e)"
      "logged_trades (sp_log S0) = logged_trades (sp_log (view e))"
    using spec_cancel_quote [OF b] by blast
  obtain e0 where e0: "can e (mm_bid_id m) = Some (resp0, e0)" "inv e0" "view e0 = S0"
    using can_view [OF assms(1) S0(1)] by blast
  have "quote_in Sell (mm_id m) (mm_ask_id m) S0" using a ne S0(3,4) by (simp add: quote_in_def)
  from spec_cancel_ask [OF this S0(2)] obtain resp1 S1 where S1: "spec_cancel (mm_ask_id m) S0 = (resp1, S1)"
      "sp_side S1 Buy = []" "sp_side S1 Sell = []" "sp_free S1 = sp_free S0 + 1" "sp_watermark S1 = sp_watermark S0"
      "logged_trades (sp_log S1) = logged_trades (sp_log S0)" by blast
  obtain e1 where e1: "can e0 (mm_ask_id m) = Some (resp1, e1)" "inv e1" "view e1 = S1"
    using can_view [OF e0(2), of "mm_ask_id m"] S1(1) e0(3) by blast
  have "mm_pull_bid can e m = Some (e0, m\<lparr>mm_bid_id := OrderId 0\<rparr>)"
    using b e0(1) by (simp add: mm_pull_bid_def quote_in_def)
  moreover have "mm_pull_ask can e0 (m\<lparr>mm_bid_id := OrderId 0\<rparr>) = Some (e1, m1)"
    using a e1(1) by (simp add: mm_pull_ask_def quote_in_def m1_def)
  moreover have "unquoted m1 (view e1)" using S1 e1(3) by (simp add: unquoted_def m1_def)
  moreover have "venue_ok m1 (view e1)" using S0 S1 e1 inv_spec [OF e1(2)] assms(2) by (simp add: venue_ok_def m1_def)
  ultimately show thesis using that e1(2) by blast
qed

lemma post_quote:
  assumes "inv e" and "venue_ok m (view e)" and lo: "mm_quote m (mm_next_order_id m) side px = NewLimit lo" and "admits lo"
    and "0 < mmc_quote_size (mm_config m)" and "0 < price_of px" and "0 < unat (oid (mm_next_order_id m))"
    and "0 < sp_free (view e)" and "sp_side (view e) side = []"
    and "\<And>x. x \<in> set (sp_side (view e) (opposite side)) \<Longrightarrow>
      o_id x \<noteq> mm_next_order_id m \<and> \<not> crosses side (Some (price_of px)) (o_price x)"
  obtains resp e' x where "sub e (NewLimit lo) = Some (resp, e')" and "inv e'" and "status resp = Accepted"
    and "remaining_qty resp = mmc_quote_size (mm_config m)" and "sp_side (view e') = (sp_side (view e))(side := [x])"
    and "o_price x = price_of px" and "quote_in side (mm_id m) (mm_next_order_id m) (view e')"
    and "sp_index (view e') = (sp_index (view e))(mm_next_order_id m := Some (mm_id m))"
    and "sp_watermark (view e') = (sp_watermark (view e))(mm_id m := Some (mm_next_order_id m))"
    and "sp_free (view e') = sp_free (view e) - 1" and "logged_trades (sp_log (view e')) = logged_trades (sp_log (view e))"
proof -
  have sel: "lo_id lo = mm_next_order_id m" "lo_side lo = side" "lo_price lo = price_of px"
      "lo_quantity lo = mmc_quote_size (mm_config m)" "lo_owner lo = mm_id m"
    using lo by (auto simp: mm_quote_def)
  have wm: "oid w < oid (mm_next_order_id m)" if "sp_watermark (view e) (mm_id m) = Some w" for w
    using assms(2) that by (simp add: venue_ok_def)
  have nz: "oid (mm_next_order_id m) \<noteq> 0" using assms(7) by auto
  obtain resp S' x where q: "spec_submit (NewLimit lo) (view e) = (resp, S')" "trades resp = []" "status resp = Accepted"
      "remaining_qty resp = mmc_quote_size (mm_config m)" "sp_side S' = (sp_side (view e))(side := [x])" "o_price x = price_of px"
      "quote_in side (mm_id m) (mm_next_order_id m) S'" "sp_index S' = (sp_index (view e))(mm_next_order_id m := Some (mm_id m))"
      "sp_watermark S' = (sp_watermark (view e))(mm_id m := Some (mm_next_order_id m))" "sp_free S' = sp_free (view e) - 1"
      "logged_trades (sp_log S') = logged_trades (sp_log (view e))"
    using spec_post_quote [OF inv_spec [OF assms(1)], of lo, unfolded sel, OF assms(5,6) nz wm assms(8-10)] by metis
  obtain e' where e': "sub e (NewLimit lo) = Some (resp, e')" "inv e'" "view e' = S'"
    using sub_quiet [OF assms(1,4) q(1,2)] by blast
  show thesis by (rule that [OF e'(1,2) q(3,4), where x = x]) (use q e'(3) in simp_all)
qed

lemma next_id:
  assumes "unat (oid i) + 1 < 2 ^ 64"
  shows "unat (oid i + 1) = unat (oid i) + 1" "oid i < oid i + 1" "OrderId (oid i + 1) \<noteq> i"
proof -
  show u: "unat (oid i + 1) = unat (oid i) + 1" using assms by (simp add: unat_word_ariths)
  then show "oid i < oid i + 1" by (simp add: word_less_nat_alt)
  then show "OrderId (oid i + 1) \<noteq> i" by (metis OrderId.sel less_irrefl)
qed

text \<open>The prices of a quote: positive, apart, and within five spreads of the reference.\<close>

lemma maker_prices:
  assumes "maker_ok n m"
  defines "b \<equiv> price_int (mm_current_ref m) - price_int (mmc_spread (mm_config m))"
    and "a \<equiv> price_int (mm_current_ref m) + price_int (mmc_spread (mm_config m))"
  shows "in_i64 b = Some b" "in_i64 a = Some a" "0 < price_of b" "0 < price_of a" "price_of b < price_of a"
    "\<bar>b - price_int (mmc_reference_price (mm_config m))\<bar> \<le> 5 * price_int (mmc_spread (mm_config m))"
    "\<bar>a - price_int (mmc_reference_price (mm_config m))\<bar> \<le> 5 * price_int (mmc_spread (mm_config m))"
proof -
  let ?s = "price_int (mmc_spread (mm_config m))" and ?r = "price_int (mmc_reference_price (mm_config m))"
    and ?c = "price_int (mm_current_ref m)"
  have p: "0 < ?s" "5 * ?s < ?r" "?r + 5 * ?s < 2 ^ 63" "\<bar>?c - ?r\<bar> \<le> 4 * ?s"
    using assms(1) by (simp_all add: maker_ok_def Let_def)
  have bounds: "0 < b" "b < 2 ^ 63" "0 < a" "a < 2 ^ 63" "b < a" using p unfolding a_def b_def by linarith+
  then show "in_i64 b = Some b" "in_i64 a = Some a" by (simp_all add: in_i64_def)
  have "price_int (price_of b) = b" "price_int (price_of a) = a" using bounds by (simp_all add: price_int_of)
  then show "0 < price_of b" "0 < price_of a" "price_of b < price_of a" using bounds by (simp_all add: price_less_iff)
  show "\<bar>b - ?r\<bar> \<le> 5 * ?s" "\<bar>a - ?r\<bar> \<le> 5 * ?s" using p unfolding a_def b_def by linarith+
qed

lemma post_bid_ok:
  assumes "inv e" and v: "venue_ok m (view e)" and u: "unquoted m (view e)" and m: "maker_ok (Suc n) m" and adm: "admitted m"
  defines "b \<equiv> price_int (mm_current_ref m) - price_int (mmc_spread (mm_config m))"
    and "m2 \<equiv> m\<lparr>mm_next_order_id := OrderId (oid (mm_next_order_id m) + 1), mm_bid_id := mm_next_order_id m\<rparr>"
  obtains e2 x where "mm_post_bid sub b e m = Some (e2, m2)" and "inv e2" and "venue_ok m2 (view e2)"
    and "sp_side (view e2) Buy = [x]" and "o_price x = price_of b" and "sp_side (view e2) Sell = []"
    and "quote_in Buy (mm_id m) (mm_next_order_id m) (view e2)" and "1 \<le> sp_free (view e2)"
proof -
  let ?i = "mm_next_order_id m"
  have Q: "0 < mmc_quote_size (mm_config m)" "0 < unat (oid ?i)" "unat (oid ?i) + 1 < 2 ^ 64"
    using m by (simp_all add: maker_ok_def Let_def)
  note px = maker_prices [OF m, folded b_def]
  have empty: "sp_side (view e) Buy = []" "sp_side (view e) Sell = []" using u by (simp_all add: unquoted_def)
  then have free: "2 \<le> sp_free (view e)" using v by (simp add: venue_ok_def)
  obtain lo where lo: "mm_quote m ?i Buy b = NewLimit lo" by (simp add: mm_quote_def)
  have "admits lo" using adm lo px(6) unfolding admitted_def by blast
  from post_quote [OF assms(1) v lo this Q(1) px(3) Q(2)] free empty
  obtain resp e2 x where bid: "sub e (NewLimit lo) = Some (resp, e2)" "inv e2" "status resp = Accepted"
      "remaining_qty resp = mmc_quote_size (mm_config m)" "sp_side (view e2) = (sp_side (view e))(Buy := [x])" "o_price x = price_of b"
      "quote_in Buy (mm_id m) ?i (view e2)" "sp_watermark (view e2) = (sp_watermark (view e))(mm_id m := Some ?i)"
      "sp_free (view e2) = sp_free (view e) - 1" "logged_trades (sp_log (view e2)) = logged_trades (sp_log (view e))"
    by (simp; metis)
  have "mm_quote (m\<lparr>mm_next_order_id := k\<rparr>) ?i Buy b = NewLimit lo" for k using lo by (simp add: mm_quote_def)
  then have "mm_post_bid sub b e m = Some (e2, m2)"
    using bid(1,3,4) Q(1) by (simp add: mm_post_bid_def mm_fresh_id_def m2_def less_Quantity_def zero_Quantity_def)
  moreover have "venue_ok m2 (view e2)"
    using v bid inv_spec [OF bid(2)] empty free next_id(2) [OF Q(3)] by (simp add: venue_ok_def m2_def)
  ultimately show thesis using that bid empty free by simp
qed

lemma post_ask_ok:
  assumes "inv e" and v: "venue_ok m (view e)" and m: "maker_ok k m" and adm: "admitted m" and "1 \<le> sp_free (view e)"
    and i: "0 < unat (oid (mm_next_order_id m))" "unat (oid (mm_next_order_id m)) + 1 < 2 ^ 64"
    and b: "quote_in Buy (mm_id m) (mm_bid_id m) (view e)" "sp_side (view e) Buy = [x]" "sp_side (view e) Sell = []"
      "o_price x = price_of (price_int (mm_current_ref m) - price_int (mmc_spread (mm_config m)))"
      "mm_bid_id m \<noteq> mm_next_order_id m"
  defines "a \<equiv> price_int (mm_current_ref m) + price_int (mmc_spread (mm_config m))"
    and "m2 \<equiv> m\<lparr>mm_next_order_id := OrderId (oid (mm_next_order_id m) + 1), mm_ask_id := mm_next_order_id m\<rparr>"
  shows "\<exists>e2. mm_post_ask sub a e m = Some (e2, m2) \<and> inv e2 \<and> venue_ok m2 (view e2) \<and> quoted m2 (view e2)"
proof -
  let ?i = "mm_next_order_id m"
  have Q: "0 < mmc_quote_size (mm_config m)" using m by (simp add: maker_ok_def Let_def)
  note px = maker_prices [OF m, folded a_def]
  obtain lo where lo: "mm_quote m ?i Sell a = NewLimit lo" by (simp add: mm_quote_def)
  have "admits lo" using adm lo px(7) unfolding admitted_def by blast
  moreover have "o_id x = mm_bid_id m" using b(1,2) by (auto simp: quote_in_def)
  moreover have "\<not> crosses Sell (Some (price_of a)) (o_price x)" using px(5) b(4) by simp
  ultimately obtain resp e2 y where ask: "sub e (NewLimit lo) = Some (resp, e2)" "inv e2" "status resp = Accepted"
      "remaining_qty resp = mmc_quote_size (mm_config m)" "sp_side (view e2) = (sp_side (view e))(Sell := [y])"
      "quote_in Sell (mm_id m) ?i (view e2)" "sp_index (view e2) = (sp_index (view e))(?i := Some (mm_id m))"
      "sp_watermark (view e2) = (sp_watermark (view e))(mm_id m := Some ?i)"
      "sp_free (view e2) = sp_free (view e) - 1" "logged_trades (sp_log (view e2)) = logged_trades (sp_log (view e))"
    using post_quote [OF assms(1) v lo _ Q px(4) i(1)] assms(5) b(2,3,5) by (simp; metis)
  have "mm_quote (m\<lparr>mm_next_order_id := k\<rparr>) ?i Sell a = NewLimit lo" for k using lo by (simp add: mm_quote_def)
  then have "mm_post_ask sub a e m = Some (e2, m2)"
    using ask(1,3,4) Q by (simp add: mm_post_ask_def mm_fresh_id_def m2_def less_Quantity_def zero_Quantity_def)
  moreover have "venue_ok m2 (view e2)"
    using v ask inv_spec [OF ask(2)] b(2,3) assms(5) next_id(2) [OF i(2)] by (simp add: venue_ok_def m2_def)
  moreover have "quoted m2 (view e2)" using ask b by (auto simp: quoted_def quote_in_def m2_def)
  ultimately show ?thesis using ask(2) by blast
qed

lemma requote_ok:
  assumes e: "inv e" and v: "venue_ok m (view e)" and q: "quoted m (view e) \<or> unquoted m (view e)"
    and m: "maker_ok (Suc n) m" and adm: "admitted m"
  shows "\<exists>e' m'. requote sub can e m = Some (e', m') \<and> inv e' \<and> venue_ok m' (view e') \<and> quoted m' (view e') \<and>
    maker_ok n m' \<and> admitted m' \<and> mm_quoting m' = mm_quoting m"
proof -
  define m1 where "m1 = m\<lparr>mm_bid_id := OrderId 0, mm_ask_id := OrderId 0\<rparr>"
  define m2 where "m2 = m1\<lparr>mm_next_order_id := OrderId (oid (mm_next_order_id m) + 1), mm_bid_id := mm_next_order_id m\<rparr>"
  define m3 where "m3 = m2\<lparr>mm_next_order_id := OrderId (oid (mm_next_order_id m2) + 1), mm_ask_id := mm_next_order_id m2\<rparr>"
  let ?b = "price_int (mm_current_ref m) - price_int (mmc_spread (mm_config m))"
    and ?a = "price_int (mm_current_ref m) + price_int (mmc_spread (mm_config m))"
  have room: "unat (oid (mm_next_order_id m)) + 2 * Suc n < 2 ^ 64" using m by (simp add: maker_ok_def Let_def)
  note ids = next_id [of "mm_next_order_id m"] and ids2 = next_id [of "mm_next_order_id m2"]
  have i2: "unat (oid (mm_next_order_id m2)) = unat (oid (mm_next_order_id m)) + 1" using ids(1) room by (simp add: m2_def)
  have ok: "maker_ok (Suc n) m1" "maker_ok 0 m2" "maker_ok n m3" "admitted m1" "admitted m2" "admitted m3"
    using m adm room i2 ids2(1) by (simp_all add: maker_ok_def admitted_def mm_quote_def m1_def m2_def m3_def Let_def)
  obtain e0 m0 e1 where pull: "mm_pull_bid can e m = Some (e0, m0)" "mm_pull_ask can e0 m0 = Some (e1, m1)" "inv e1"
      "unquoted m1 (view e1)" "venue_ok m1 (view e1)"
    using pull_ok [OF e v q, folded m1_def] by metis
  obtain e2 x where bid: "mm_post_bid sub ?b e1 m1 = Some (e2, m2)" "inv e2" "venue_ok m2 (view e2)"
      "sp_side (view e2) Buy = [x]" "o_price x = price_of ?b" "sp_side (view e2) Sell = []"
      "quote_in Buy (mm_id m) (mm_next_order_id m) (view e2)" "1 \<le> sp_free (view e2)"
    using post_bid_ok [OF pull(3,5,4) ok(1,4)] by (simp add: m1_def m2_def; metis)
  have "\<exists>e3. mm_post_ask sub ?a e2 m2 = Some (e3, m3) \<and> inv e3 \<and> venue_ok m3 (view e3) \<and> quoted m3 (view e3)"
    using post_ask_ok [OF bid(2,3) ok(2,5) bid(8), of x] bid(4-7) i2 room ids(3)
    by (simp add: m1_def m2_def m3_def)
  then obtain e3 where ask: "mm_post_ask sub ?a e2 m2 = Some (e3, m3)" "inv e3" "venue_ok m3 (view e3)" "quoted m3 (view e3)"
    by blast
  have "requote sub can e m = Some (e3, m3)"
    using pull(1,2) maker_prices(1,2) [OF m] bid(1) ask(1) by (simp add: requote_def m1_def)
  moreover have "mm_quoting m3 = mm_quoting m" by (simp add: m1_def m2_def m3_def)
  ultimately show ?thesis using ask ok(3,6) by blast
qed

definition alone :: "nat \<Rightarrow> 'e \<Rightarrow> MarketMakerStrategy \<Rightarrow> bool" where
  "alone n e m \<longleftrightarrow> inv e \<and> venue_ok m (view e) \<and> maker_ok n m \<and> admitted m \<and>
     (if mm_quoting m then quoted m (view e) else unquoted m (view e))"

lemma tick_ok:
  assumes "alone (Suc n) e m"
  shows "\<exists>e' m'. mm_on_tick sub can e m = Some (e', m') \<and> alone n e' m' \<and> mm_quoting m'"
proof -
  have a: "inv e" "venue_ok m (view e)" "maker_ok (Suc n) m" "admitted m" using assms by (simp_all add: alone_def)
  consider "\<not> mm_quoting m" | "mm_quoting m" "mmc_drift_per_tick (mm_config m) = 0" | "mm_quoting m" "mmc_drift_per_tick (mm_config m) \<noteq> 0"
    by blast
  then show ?thesis
  proof cases
    case 1
    let ?m = "m\<lparr>mm_quoting := True\<rparr>"
    have u: "unquoted ?m (view e)" using assms 1 by (simp add: alone_def unquoted_def)
    have "venue_ok ?m (view e)" "maker_ok (Suc n) ?m" "admitted ?m"
      using a by (simp_all add: venue_ok_def maker_ok_def admitted_def mm_quote_def Let_def)
    from requote_ok [OF a(1) this(1) disjI2 [OF u] this(2,3)] 1 show ?thesis
      by (auto simp: mm_on_tick_def alone_def)
  next
    case 2
    have "maker_ok n m" using a(3) by (simp add: maker_ok_def Let_def)
    with 2 assms show ?thesis by (simp add: mm_on_tick_def alone_def)
  next
    case 3
    obtain m1 where m1: "mm_drift m = Some m1" "maker_ok (Suc n) m1" "mm_id m1 = mm_id m" "mm_config m1 = mm_config m"
        "mm_bid_id m1 = mm_bid_id m" "mm_ask_id m1 = mm_ask_id m" "mm_next_order_id m1 = mm_next_order_id m" "mm_quoting m1"
      using drift_ok [OF a(3)] 3(1) by blast
    have "venue_ok m1 (view e)" "quoted m1 (view e)" "admitted m1"
      using assms 3 m1 by (simp_all add: alone_def venue_ok_def quoted_def admitted_def mm_quote_def)
    from requote_ok [OF a(1) this(1) disjI1 [OF this(2)] m1(2) this(3)] 3 m1(1,8) show ?thesis
      by (auto simp: mm_on_tick_def alone_def)
  qed
qed

lemma session_quiet:
  assumes "alone n e m"
  shows "\<exists>e' m'. run_session sub can drain n (e, [Maker m], t) = Some (e', [Maker m'], t) \<and> alone 0 e' m' \<and>
    (0 < n \<longrightarrow> mm_quoting m')"
  using assms
proof (induction n arbitrary: e m)
  case (Suc n)
  obtain e1 m1 where t: "mm_on_tick sub can e m = Some (e1, m1)" "alone n e1 m1" "mm_quoting m1" using tick_ok [OF Suc.prems] by blast
  have "fst (drain e1) = []" using t(2) drain_view by (simp add: alone_def venue_ok_def)
  then have "settle sub can drain 1000 (e1, [Maker m1], t) = Some (e1, [Maker m1], t)"
    by (cases "drain e1") (simp add: numeral_eq_Suc)
  then have "run_tick sub can drain (e, [Maker m], t) = Some (e1, [Maker m1], t)" using t(1) by (simp add: run_tick_def)
  moreover obtain e2 m2 where "run_session sub can drain n (e1, [Maker m1], t) = Some (e2, [Maker m2], t)" "alone 0 e2 m2"
      "0 < n \<longrightarrow> mm_quoting m2" using Suc.IH [OF t(2)] by blast
  moreover from this t(3) have "mm_quoting m2" by (cases n) auto
  ultimately show ?case by simp
qed simp

end


section \<open>The matching engine and the runner's stack are quoting ports\<close>

interpretation mq: quote_port "submit Retained" cancel sink_drain engine_ok spec_of "\<lambda>_. True"
proof
  fix e lo resp S
  assume ok: "engine_ok e"
  show "\<exists>e'. submit Retained e (NewLimit lo) = Some (resp, e') \<and> engine_ok e' \<and> spec_of e' = S"
    if "spec_submit (NewLimit lo) (spec_of e) = (resp, S)"
    by (rule submit_spec [OF ok, of "NewLimit lo"]) (use that in auto)
  show "\<exists>e'. cancel e i = Some (resp, e') \<and> engine_ok e' \<and> spec_of e' = S" if "spec_cancel i (spec_of e) = (resp, S)" for i
    by (rule cancel_spec [OF ok, of i]) (use that in auto)
  show "spec_ok (spec_of e)" using ok by (simp add: engine_ok_def)
  show "fst (sink_drain e) = logged_trades (sp_log (spec_of e))" by (simp add: sink_drain_def)
qed

definition runner_inv :: "MatchingEngine RiskEngine \<Rightarrow> bool" where
  "runner_inv R \<longleftrightarrow> engine_ok (inner R) \<and> config R = runner_risk_config \<and> reference_price R = Price 10000"

definition runner_admits :: "LimitOrder \<Rightarrow> bool" where
  "runner_admits lo \<longleftrightarrow> \<bar>price_int (lo_price lo) - 10000\<bar> \<le> 5000 \<and> lo_quantity lo \<le> Quantity 1000000"

lemma runner_allowance: "llround (to_double (to_double 10000 * (1 / 2))) = Some 5000"
proof -
  have "\<lfloor>10001 / 2 :: rat\<rfloor> = 5000" by (simp add: floor_eq_iff)
  then show ?thesis using to_double_int [of 10000] to_double_int [of 5000] by (simp add: llround_def)
qed

lemma runner_checks:
  assumes "runner_inv R" and "runner_admits lo"
  shows "run_checks R (lo_quantity lo) (Some (lo_price lo)) = Some Accepted"
proof -
  have c: "config R = runner_risk_config" "reference_price R = Price 10000" using assms(1) by (simp_all add: runner_inv_def)
  then have "band_allowance R = Some 5000" using runner_allowance by (simp add: band_allowance_def runner_risk_config_def)
  moreover have "0 < lo_price lo" using assms(2) by (auto simp: runner_admits_def price_less_iff)
  moreover have "0 < price_band_pct (config R)" "0 < reference_price R" using c by (simp_all add: runner_risk_config_def price_less_iff)
  ultimately have "check_price_band R (lo_price lo) = Some Accepted"
    using check_price_band_eval [of R "lo_price lo"] assms(2) c by (simp add: runner_admits_def)
  moreover have "check_tick_size R (lo_price lo) = Accepted" using c by (simp add: check_tick_size_def runner_risk_config_def signed_modulo_int_def)
  moreover have "check_fat_finger R (lo_quantity lo) = Accepted"
    using assms(2) c by (simp add: check_fat_finger_def runner_risk_config_def runner_admits_def not_less)
  ultimately show ?thesis by (simp add: run_checks_def)
qed

interpretation rq: quote_port "risk_submit (submit Retained)" "risk_cancel cancel" risk_drain runner_inv "spec_of \<circ> inner" runner_admits
proof
  fix R lo resp S
  assume R: "runner_inv R"
  then have ok: "engine_ok (inner R)" by (simp add: runner_inv_def)
  show "\<exists>R'. risk_submit (submit Retained) R (NewLimit lo) = Some (resp, R') \<and> runner_inv R' \<and> (spec_of \<circ> inner) R' = S"
    if "runner_admits lo" "spec_submit (NewLimit lo) ((spec_of \<circ> inner) R) = (resp, S)" "trades resp = []"
    using mq.sub_quiet [OF ok, of lo resp S] that runner_checks [OF R that(1)] R
    by (auto simp: risk_submit_def update_reference_from_def runner_inv_def)
  show "\<exists>R'. risk_cancel cancel R i = Some (resp, R') \<and> runner_inv R' \<and> (spec_of \<circ> inner) R' = S"
    if "spec_cancel i ((spec_of \<circ> inner) R) = (resp, S)" for i
    using mq.can_view [OF ok, of i resp S] that R by (auto simp: risk_cancel_def runner_inv_def)
  show "spec_ok ((spec_of \<circ> inner) R)" using mq.inv_spec [OF ok] by simp
  show "fst (risk_drain R) = logged_trades (sp_log ((spec_of \<circ> inner) R))" by (simp add: risk_drain_def sink_drain_def)
qed


section \<open>Properties\<close>

lemma runner_mm_alone: "n < 2 ^ 62 \<Longrightarrow> rq.alone n runner_engine runner_mm"
proof -
  assume n: "n < 2 ^ 62"
  have ok: "engine_ok (MatchingEngine_init 1000000 (risk_stp runner_risk_config))" by (rule engine_ok_init) simp
  let ?S = "spec_of (MatchingEngine_init 1000000 (risk_stp runner_risk_config))"
  have S: "sp_side ?S Buy = []" "sp_side ?S Sell = []" "sp_log ?S = []" "sp_watermark ?S c = None" for c
    by (simp_all add: MatchingEngine_init_def)
  have free: "sp_free ?S = 1000000"
    by (simp add: MatchingEngine_init_def OrderBook_init_def pool_available_def available_def OrderPool_init_def)
  have "rq.admitted runner_mm"
    unfolding rq.admitted_def
    by (auto simp: runner_admits_def mm_quote_def runner_mm_def MarketMakerStrategy_init_def price_int_of qty_le_iff)
  moreover have "maker_ok n runner_mm"
    using n by (simp add: maker_ok_def runner_mm_def MarketMakerStrategy_init_def qty_less_iff)
  ultimately show ?thesis
    using ok S free by (simp add: rq.alone_def runner_inv_def runner_engine_def RiskEngine_init_def venue_ok_def unquoted_def
        runner_mm_def MarketMakerStrategy_init_def runner_risk_config_def engine_ok_def)
qed

text \<open>
  C38. A session of the runner with the market maker alone never trades, however many ticks it
  runs: the maker withdraws both quotes before it posts new ones, so its drifting quotes
  cannot cross each other. The session ends, and from the first tick on exactly its two quotes
  rest in the book.
\<close>

theorem maker_alone_never_trades:
  assumes "n < 2 ^ 62"
  shows "runner_session Retained \<lparr>run_market_maker = True, run_momentum = False, ticks = n\<rparr> =
    Some (Inr (0, if n = 0 then 0 else 2))"
proof -
  obtain R m where r: "run_session (risk_submit (submit Retained)) (risk_cancel cancel) risk_drain n
      (runner_engine, [Maker runner_mm], 0) = Some (R, [Maker m], 0)" "rq.alone 0 R m" "0 < n \<longrightarrow> mm_quoting m"
    using rq.session_quiet [OF runner_mm_alone [OF assms]] by blast
  have "book_ok (book (inner R))" using r(2) by (simp add: rq.alone_def runner_inv_def engine_ok_def)
  note count = order_count_resting [OF this]
  have "order_count (book (inner R)) = (if n = 0 then 0 else 2)"
  proof (cases "n = 0")
    case True
    then show ?thesis using r(1) by (auto simp: runner_engine_def RiskEngine_init_def MatchingEngine_init_def OrderBook_init_def)
  next
    case False
    then have "quoted m (spec_of (inner R))" using r(2,3) by (simp add: rq.alone_def)
    then show ?thesis using False count by (auto simp: quoted_def quote_in_def)
  qed
  then show ?thesis using r(1) by (simp add: runner_session_def)
qed

theorem maker_alone_never_trades_witness: "runner_main Retained [''--mm-only''] = Some (Inr (0, 2))"
  using maker_alone_never_trades [of 5000]
  by (simp add: runner_main_def runner_arg_def RunnerConfig_init_def)

text \<open>
  A client's offer of 4 at 90 rests when the maker starts. The maker's bid of 10 at 95 takes
  it, and the other 6 rest.
\<close>

definition lone_offer :: MatchingEngine where
  "lone_offer = run (MatchingEngine_init 8 demo_stp) [Submit (limit_of 7 1 Sell 90 4)]"

definition small_mm :: MarketMakerStrategy where
  "small_mm = MarketMakerStrategy_init (ClientId 1) \<lparr>mmc_reference_price = Price 100, mmc_spread = Price 5,
     mmc_quote_size = Quantity 10, mmc_drift_per_tick = 0\<rparr>"

definition bids_of :: "MatchingEngine \<Rightarrow> (OrderId \<times> Quantity) list" where
  "bids_of e = map (\<lambda>x. (o_id x, o_quantity x)) (resting (book e) Buy)"


end
