(* ===== verification/Workload.thy ===== *)
theory Workload
  imports Strategies
begin

text \<open>
  \<^verbatim>\<open>src/tools/workload_generator\<close>: the generator of synthetic order flow. The random engine and
  the distributions of the standard library are functions on a generator state, an argument of
  the model; the generator relies on their ranges only, which are a named hypothesis.
\<close>

section \<open>The generator\<close>

record WorkloadConfig =
  wc_seed :: u64
  mid_price :: Price
  price_stddev_log :: rat
  quantity_min :: Quantity
  quantity_max :: Quantity
  add_limit_ratio :: rat
  add_market_ratio :: rat
  cancel_ratio :: rat

text \<open>
  One field per distribution: \<open>type_dist\<close> on the unit interval, \<open>side_dist\<close> on 0 and 1,
  \<open>price_offset_dist_\<close>, \<open>quantity_dist_\<close>, and \<open>idx_dist\<close> on the integers up to its argument.
\<close>

record 'g Distributions =
  type_dist :: "'g \<Rightarrow> rat \<times> 'g"
  side_dist :: "'g \<Rightarrow> int \<times> 'g"
  price_offset_dist :: "'g \<Rightarrow> rat \<times> 'g"
  quantity_dist :: "'g \<Rightarrow> u64 \<times> 'g"
  idx_dist :: "nat \<Rightarrow> 'g \<Rightarrow> nat \<times> 'g"

record 'g WorkloadGenerator =
  wg_config :: WorkloadConfig
  wg_rng :: 'g
  assumed_resting :: "OrderId list"
  wg_next_id :: u64

definition WorkloadGenerator_init :: "(u64 \<Rightarrow> 'g) \<Rightarrow> WorkloadConfig \<Rightarrow> 'g WorkloadGenerator" where
  "WorkloadGenerator_init seeded cfg = \<lparr>wg_config = cfg, wg_rng = seeded (wc_seed cfg), assumed_resting = [], wg_next_id = 1\<rparr>"

definition draw_side :: "'g Distributions \<Rightarrow> 'g \<Rightarrow> Side \<times> 'g" where
  "draw_side D g = (case side_dist D g of (v, g) \<Rightarrow> (if v = 0 then Buy else Sell, g))"

definition draw_price :: "'g Distributions \<Rightarrow> WorkloadConfig \<Rightarrow> 'g \<Rightarrow> (int \<times> 'g) option" where
  "draw_price D cfg g = do {
     let (offset_raw, g) = price_offset_dist D g;
     offset \<leftarrow> llround offset_raw;
     let offset = (if offset < 1 then 1 else offset);
     let (v, g) = side_dist D g;
     price_val \<leftarrow> in_i64 (if v = 0 then price_int (mid_price cfg) + offset else price_int (mid_price cfg) - offset);
     Some (if price_val \<le> 0 then 1 else price_val, g)
   }"

definition generate_limit :: "'g Distributions \<Rightarrow> 'g WorkloadGenerator \<Rightarrow> (EngineCommand \<times> 'g WorkloadGenerator) option" where
  "generate_limit D w = do {
     let (side, g) = draw_side D (wg_rng w);
     (price_val, g) \<leftarrow> draw_price D (wg_config w) g;
     let (qty, g) = quantity_dist D g;
     let i = OrderId (wg_next_id w);
     Some (CmdLimit \<lparr>lo_id = i, lo_side = side, lo_price = price_of price_val, lo_quantity = Quantity qty, lo_owner = ClientId 0\<rparr>,
       w\<lparr>wg_rng := g, wg_next_id := wg_next_id w + 1, assumed_resting := assumed_resting w @ [i]\<rparr>)
   }"

definition generate_market :: "'g Distributions \<Rightarrow> 'g WorkloadGenerator \<Rightarrow> EngineCommand \<times> 'g WorkloadGenerator" where
  "generate_market D w =
     (let (side, g) = draw_side D (wg_rng w);
          (qty, g) = quantity_dist D g
      in (CmdMarket \<lparr>mo_id = OrderId (wg_next_id w), mo_side = side, mo_quantity = Quantity qty, mo_owner = ClientId 0\<rparr>,
          w\<lparr>wg_rng := g, wg_next_id := wg_next_id w + 1\<rparr>))"

text \<open>A cancel picks a tracked order and removes it by moving the last one into its place.\<close>

definition generate_cancel :: "'g Distributions \<Rightarrow> 'g WorkloadGenerator \<Rightarrow> (EngineCommand \<times> 'g WorkloadGenerator) option" where
  "generate_cancel D w =
     (if assumed_resting w = [] then generate_limit D w
      else let (idx, g) = idx_dist D (length (assumed_resting w) - 1) (wg_rng w)
           in if idx < length (assumed_resting w)
              then Some (CmdCancel \<lparr>cr_id = assumed_resting w ! idx\<rparr>,
                w\<lparr>wg_rng := g, assumed_resting := butlast ((assumed_resting w)[idx := last (assumed_resting w)])\<rparr>)
              else None)"

definition generate_event :: "'g Distributions \<Rightarrow> 'g WorkloadGenerator \<Rightarrow> (EngineCommand \<times> 'g WorkloadGenerator) option" where
  "generate_event D w =
     (let limit_threshold = add_limit_ratio (wg_config w);
          market_threshold = limit_threshold + add_market_ratio (wg_config w);
          (roll, g) = type_dist D (wg_rng w);
          w = w\<lparr>wg_rng := g\<rparr>
      in if roll < limit_threshold then generate_limit D w
         else if roll < market_threshold then Some (generate_market D w)
         else generate_cancel D w)"

fun generate :: "'g Distributions \<Rightarrow> nat \<Rightarrow> 'g WorkloadGenerator \<Rightarrow> (EngineCommand list \<times> 'g WorkloadGenerator) option" where
  "generate D 0 w = Some ([], w)"
| "generate D (Suc n) w = do {
     (ev, w) \<leftarrow> generate_event D w;
     (evs, w) \<leftarrow> generate D n w;
     Some (ev # evs, w)
   }"


section \<open>Plausible flow\<close>

text \<open>
  What a consumer of the flow relies on: order ids count up from the given number, limit prices
  are positive, quantities are in their range, and a cancel names a limit order that was placed
  before and has not been cancelled.
\<close>

fun plausible :: "WorkloadConfig \<Rightarrow> nat \<Rightarrow> OrderId set \<Rightarrow> EngineCommand list \<Rightarrow> bool" where
  "plausible cfg k live [] = True"
| "plausible cfg k live (CmdLimit lo # evs) \<longleftrightarrow> lo_id lo = OrderId (of_nat k) \<and> 0 < lo_price lo \<and>
     quantity_min cfg \<le> lo_quantity lo \<and> lo_quantity lo \<le> quantity_max cfg \<and> plausible cfg (k + 1) (insert (lo_id lo) live) evs"
| "plausible cfg k live (CmdMarket mo # evs) \<longleftrightarrow> mo_id mo = OrderId (of_nat k) \<and>
     quantity_min cfg \<le> mo_quantity mo \<and> mo_quantity mo \<le> quantity_max cfg \<and> plausible cfg (k + 1) live evs"
| "plausible cfg k live (CmdCancel c # evs) \<longleftrightarrow> cr_id c \<in> live \<and> plausible cfg k (live - {cr_id c}) evs"

text \<open>The ranges of the distributions. The offset is bounded so that it and the price fit \<open>int64_t\<close>.\<close>

definition ranges_ok :: "'g Distributions \<Rightarrow> WorkloadConfig \<Rightarrow> bool" where
  "ranges_ok D cfg \<longleftrightarrow> 0 < price_int (mid_price cfg) \<and> price_int (mid_price cfg) < 2 ^ 62 \<and>
     (\<forall>g. 0 \<le> fst (price_offset_dist D g) \<and> fst (price_offset_dist D g) < 2 ^ 61) \<and>
     (\<forall>g. quantity_min cfg \<le> Quantity (fst (quantity_dist D g)) \<and> Quantity (fst (quantity_dist D g)) \<le> quantity_max cfg) \<and>
     (\<forall>n g. fst (idx_dist D n g) \<le> n)"

definition tracks :: "nat \<Rightarrow> OrderId set \<Rightarrow> 'g WorkloadGenerator \<Rightarrow> bool" where
  "tracks k live w \<longleftrightarrow> wg_next_id w = of_nat k \<and> distinct (assumed_resting w) \<and> set (assumed_resting w) = live \<and>
     (\<forall>i \<in> live. unat (oid i) < k)"

lemma draw_price_ok:
  assumes "ranges_ok D cfg"
  shows "\<exists>p g'. draw_price D cfg g = Some (p, g') \<and> 0 < p \<and> p < 2 ^ 63"
proof -
  let ?x = "fst (price_offset_dist D g)"
  have x: "0 \<le> ?x" "?x < 2 ^ 61" and mid: "0 < price_int (mid_price cfg)" "price_int (mid_price cfg) < 2 ^ 62"
    using assms by (auto simp: ranges_ok_def)
  have f: "0 \<le> \<lfloor>?x + 1 / 2\<rfloor>" "\<lfloor>?x + 1 / 2\<rfloor> \<le> 2 ^ 61"
    using x by (simp_all add: floor_le_iff)
  then obtain z where z: "llround ?x = Some z" "0 \<le> z" "z \<le> 2 ^ 61" using x(1) by (simp add: llround_def)
  then show ?thesis using mid by (auto simp: draw_price_def in_i64_def Let_def split: prod.splits)
qed

lemma fresh_tracks:
  assumes "tracks k live w" and "k < 2 ^ 64 - 1"
  shows "OrderId (wg_next_id w) \<notin> live" and "of_nat k + 1 = (of_nat (k + 1) :: u64)"
    and "\<forall>i \<in> insert (OrderId (wg_next_id w)) live. unat (oid i) < k + 1"
proof -
  have k: "unat (of_nat k :: u64) = k" using assms(2) by (simp add: unat_of_nat)
  then show "OrderId (wg_next_id w) \<notin> live" using assms(1) by (auto simp: tracks_def)
  show "of_nat k + 1 = (of_nat (k + 1) :: u64)" by simp
  show "\<forall>i \<in> insert (OrderId (wg_next_id w)) live. unat (oid i) < k + 1" using assms(1) k by (auto simp: tracks_def less_Suc_eq)
qed

lemma limit_ok:
  assumes "ranges_ok D (wg_config w)" and "tracks k live w" and "k < 2 ^ 64 - 1"
  obtains lo w' where "generate_limit D w = Some (CmdLimit lo, w')" and "wg_config w' = wg_config w"
    and "lo_id lo = OrderId (of_nat k)" and "0 < lo_price lo" and "quantity_min (wg_config w) \<le> lo_quantity lo"
    and "lo_quantity lo \<le> quantity_max (wg_config w)" and "tracks (k + 1) (insert (lo_id lo) live) w'"
proof -
  obtain side g where s: "draw_side D (wg_rng w) = (side, g)" by fastforce
  obtain p g1 where p: "draw_price D (wg_config w) g = Some (p, g1)" "0 < p" "p < 2 ^ 63"
    using draw_price_ok [OF assms(1)] by blast
  obtain q g2 where q: "quantity_dist D g1 = (q, g2)" by fastforce
  have "0 < price_of p" using p(2,3) by (simp add: price_less_iff price_of_def signed_of_int signed_take_bit_int_eq_self)
  moreover have "quantity_min (wg_config w) \<le> Quantity q" "Quantity q \<le> quantity_max (wg_config w)"
    using assms(1) q by (auto simp: ranges_ok_def dest!: spec [of _ g1])
  moreover have "tracks (k + 1) (insert (OrderId (of_nat k)) live)
      (w\<lparr>wg_rng := g2, wg_next_id := wg_next_id w + 1, assumed_resting := assumed_resting w @ [OrderId (wg_next_id w)]\<rparr>)"
    using assms(2) fresh_tracks [OF assms(2,3)] by (auto simp: tracks_def)
  moreover have gen: "generate_limit D w = Some (CmdLimit \<lparr>lo_id = OrderId (of_nat k), lo_side = side, lo_price = price_of p,
      lo_quantity = Quantity q, lo_owner = ClientId 0\<rparr>,
      w\<lparr>wg_rng := g2, wg_next_id := wg_next_id w + 1, assumed_resting := assumed_resting w @ [OrderId (wg_next_id w)]\<rparr>)"
    using s p(1) q assms(2) by (simp add: generate_limit_def tracks_def Let_def)
  ultimately show thesis by (intro that [OF gen]) simp_all
qed

lemma swap_pop:
  assumes "distinct xs" and "i < length xs"
  shows "distinct (butlast (xs[i := last xs])) \<and> set (butlast (xs[i := last xs])) = set xs - {xs ! i}"
proof -
  obtain ys z where xs: "xs = ys @ [z]" using assms(2) by (cases xs rule: rev_cases) auto
  show ?thesis
  proof (cases "i = length ys")
    case True
    then show ?thesis using assms(1) xs by auto
  next
    case False
    then have i: "i < length ys" using assms(2) xs by simp
    then obtain as b bs where ys: "ys = as @ b # bs" "length as = i" by (metis id_take_nth_drop length_take min.absorb4)
    then show ?thesis using assms(1) xs by (auto simp: list_update_append nth_append butlast_append)
  qed
qed

lemma event_ok:
  assumes "ranges_ok D (wg_config w)" and "tracks k live w" and "k < 2 ^ 64 - 1"
  shows "\<exists>ev w' k' live'. generate_event D w = Some (ev, w') \<and> wg_config w' = wg_config w \<and> tracks k' live' w' \<and> k' \<le> k + 1 \<and>
    (\<forall>evs. plausible (wg_config w) k' live' evs \<longrightarrow> plausible (wg_config w) k live (ev # evs))"
proof -
  obtain roll g where roll: "type_dist D (wg_rng w) = (roll, g)" by fastforce
  let ?w = "w\<lparr>wg_rng := g\<rparr>" and ?cfg = "wg_config w"
  have t: "tracks k live ?w" and D: "ranges_ok D (wg_config ?w)" using assms by (simp_all add: tracks_def)
  have limit: "\<exists>ev w' k' live'. generate_limit D ?w = Some (ev, w') \<and> wg_config w' = ?cfg \<and> tracks k' live' w' \<and> k' \<le> k + 1 \<and>
      (\<forall>evs. plausible ?cfg k' live' evs \<longrightarrow> plausible ?cfg k live (ev # evs))"
    by (rule limit_ok [OF D t assms(3)]) fastforce
  consider "roll < add_limit_ratio ?cfg \<or> \<not> roll < add_limit_ratio ?cfg + add_market_ratio ?cfg \<and> assumed_resting w = []"
    | "\<not> roll < add_limit_ratio ?cfg" "roll < add_limit_ratio ?cfg + add_market_ratio ?cfg"
    | "\<not> roll < add_limit_ratio ?cfg" "\<not> roll < add_limit_ratio ?cfg + add_market_ratio ?cfg" "assumed_resting w \<noteq> []" by blast
  then show ?thesis
  proof cases
    case 1
    then have "generate_event D w = generate_limit D ?w" using roll by (auto simp: generate_event_def generate_cancel_def Let_def)
    then show ?thesis using limit by simp
  next
    case 2
    obtain side g1 q g2 where d: "draw_side D g = (side, g1)" "quantity_dist D g1 = (q, g2)" by fastforce
    have q: "quantity_min ?cfg \<le> Quantity q" "Quantity q \<le> quantity_max ?cfg"
      using assms(1) d(2) by (auto simp: ranges_ok_def dest!: spec [of _ g1])
    have "tracks (k + 1) live (w\<lparr>wg_rng := g2, wg_next_id := wg_next_id w + 1\<rparr>)"
      using assms(2) by (auto simp: tracks_def less_Suc_eq)
    then show ?thesis using 2 roll d q assms(2)
      by (intro exI [of _ "snd (generate_market D ?w)"] exI [of _ "fst (generate_market D ?w)"] exI [of _ "k + 1"] exI [of _ live])
        (simp add: generate_event_def generate_market_def Let_def tracks_def)
  next
    case 3
    obtain idx g1 where i: "idx_dist D (length (assumed_resting w) - 1) g = (idx, g1)" by fastforce
    then have "idx \<le> length (assumed_resting w) - 1" using assms(1) unfolding ranges_ok_def by (metis fst_conv)
    then have idx: "idx < length (assumed_resting w)" using 3(3) by (cases "assumed_resting w") auto
    let ?i = "assumed_resting w ! idx"
    have "tracks k (live - {?i}) (w\<lparr>wg_rng := g1, assumed_resting := butlast ((assumed_resting w)[idx := last (assumed_resting w)])\<rparr>)"
      using assms(2) swap_pop [OF _ idx] by (auto simp: tracks_def)
    then show ?thesis using 3 roll i idx assms(2)
      by (intro exI [of _ "CmdCancel \<lparr>cr_id = ?i\<rparr>"] exI exI [of _ k] exI [of _ "live - {?i}"])
        (auto simp: generate_event_def generate_cancel_def Let_def tracks_def)
  qed
qed

lemma generate_ok:
  assumes "ranges_ok D (wg_config w)" and "tracks k live w" and "k + n < 2 ^ 64"
  shows "\<exists>evs w'. generate D n w = Some (evs, w') \<and> length evs = n \<and> plausible (wg_config w) k live evs"
  using assms
proof (induction n arbitrary: w k live)
  case (Suc n)
  have "k < 2 ^ 64 - 1" using Suc.prems(3) by simp
  from event_ok [OF Suc.prems(1,2) this] obtain ev w' k' live' where ev: "generate_event D w = Some (ev, w')"
      "wg_config w' = wg_config w" "tracks k' live' w'" "k' \<le> k + 1"
      "\<And>evs. plausible (wg_config w) k' live' evs \<Longrightarrow> plausible (wg_config w) k live (ev # evs)" by blast
  moreover from this obtain evs w'' where "generate D n w' = Some (evs, w'')" "length evs = n" "plausible (wg_config w) k' live' evs"
    using Suc.IH [of w' k' live'] Suc.prems by auto
  ultimately show ?case by simp
qed simp


section \<open>Properties\<close>


text \<open>A generator state that counts the draws.\<close>

definition demo_dists :: "nat Distributions" where
  "demo_dists = \<lparr>type_dist = (\<lambda>g. (if g mod 2 = 0 then 1/2 else 9/10, g + 1)), side_dist = (\<lambda>g. (int (g mod 2), g + 1)),
     price_offset_dist = (\<lambda>g. (5/2, g + 1)), quantity_dist = (\<lambda>g. (7, g + 1)), idx_dist = (\<lambda>n g. (0, g + 1))\<rparr>"

definition demo_workload :: WorkloadConfig where
  "demo_workload = \<lparr>wc_seed = 42, mid_price = Price 10000, price_stddev_log = 1, quantity_min = Quantity 1,
     quantity_max = Quantity 100, add_limit_ratio = 6/10, add_market_ratio = 1/10, cancel_ratio = 3/10\<rparr>"


end
