(* ===== verification/Latency.thy ===== *)
theory Latency
  imports Strategies
begin

text \<open>
  \<^verbatim>\<open>src/apps/benchmark/latency_recorder.cpp\<close>: the statistics of recorded latencies. Durations are
  64-bit counts of nanoseconds; doubles are rationals with the rounding of every conversion and
  operation written out. A result \<open>None\<close> is an overflow or an access outside the vector.
\<close>

section \<open>The recorder\<close>

type_synonym LatencyRecorder = "int list"

definition record_latency :: "int \<Rightarrow> LatencyRecorder \<Rightarrow> LatencyRecorder" where
  "record_latency duration samples = samples @ [duration]"

text \<open>\<open>std::accumulate\<close> over \<open>std::chrono::nanoseconds\<close>.\<close>

fun accumulate :: "int \<Rightarrow> int list \<Rightarrow> int option" where
  "accumulate acc [] = Some acc"
| "accumulate acc (x # xs) = do { acc \<leftarrow> in_i64 (acc + x); accumulate acc xs }"

definition avg_ns :: "LatencyRecorder \<Rightarrow> rat option" where
  "avg_ns samples =
     (if samples = [] then Some 0
      else do {
        sm \<leftarrow> accumulate 0 samples;
        Some (to_double (to_double (of_int sm) / to_double (of_nat (length samples))))
      })"

definition median_ns :: "LatencyRecorder \<Rightarrow> rat option" where
  "median_ns samples =
     (if samples = [] then Some 0
      else let sorted_samples = sort samples; n = length sorted_samples
           in if n mod 2 = 1 then Some (to_double (of_int (sorted_samples ! (n div 2))))
              else Some (to_double (to_double (to_double (of_int (sorted_samples ! (n div 2 - 1))) +
                to_double (of_int (sorted_samples ! (n div 2)))) / 2)))"

definition p99_index :: "nat \<Rightarrow> int" where
  "p99_index n = \<lceil>to_double (to_double (99/100) * to_double (of_nat n))\<rceil> - 1"

definition p99_ns :: "LatencyRecorder \<Rightarrow> rat option" where
  "p99_ns samples =
     (if samples = [] then Some 0
      else let sorted_samples = sort samples; index = p99_index (length sorted_samples)
           in if 0 \<le> index \<and> nat index < length sorted_samples
              then Some (to_double (of_int (sorted_samples ! nat index))) else None)"

definition max_ns :: "LatencyRecorder \<Rightarrow> rat" where
  "max_ns samples = (if samples = [] then 0 else to_double (of_int (foldl max (hd samples) (tl samples))))"

definition latency_count :: "LatencyRecorder \<Rightarrow> nat" where
  "latency_count samples = length samples"


section \<open>The index in floating point\<close>

lemma to_double_99: "to_double (99/100) = 8917127262193582 / 2 ^ 53"
  by code_simp

lemma round_even_mono_int: "x \<le> of_int k \<Longrightarrow> round_even x \<le> k"
  by (auto simp: round_even_def Let_def floor_le_iff; linarith)

text \<open>Rounding does not carry a value past an integer, and loses at most one part in \<open>2 ^ 53\<close>.\<close>

lemma to_double_le_int:
  assumes "0 < x" and "x < 2 ^ 53" and "x \<le> of_int m"
  shows "to_double x \<le> of_int m"
proof -
  let ?e = "binary_exponent x - 52"
  have ex: "2 ^ 52 * pow2 ?e \<le> x" using binary_exponent_le [OF assms(1)] pow2_add_nat [of ?e 52] by simp
  have "?e \<le> 0"
  proof (rule ccontr)
    assume "\<not> ?e \<le> 0"
    then have "pow2 ?e = 2 ^ nat ?e" "1 \<le> nat ?e" by (simp_all add: pow2_def)
    then have "2 \<le> pow2 ?e" using power_increasing [of 1 "nat ?e" "2 :: rat"] by simp
    then show False using ex assms(2) by simp
  qed
  then have p: "pow2 ?e = 1 / 2 ^ nat (- ?e)" by (auto simp: pow2_def)
  then have "x / pow2 ?e \<le> of_int (m * 2 ^ nat (- ?e))" using assms(3) by simp
  then have "round_even (x / pow2 ?e) \<le> m * 2 ^ nat (- ?e)" by (rule round_even_mono_int)
  then have "of_int (round_even (x / pow2 ?e)) * pow2 ?e \<le> of_int (m * 2 ^ nat (- ?e)) * pow2 ?e"
    by (intro mult_right_mono) (simp_all only: of_int_le_iff pow2_pos less_imp_le)
  also have "\<dots> = of_int m" by (simp add: p)
  finally show ?thesis using assms(1) by (simp add: to_double_def Let_def)
qed

lemma to_double_ge:
  assumes "0 < x"
  shows "x - x / 2 ^ 53 \<le> to_double x"
proof -
  let ?e = "binary_exponent x - 52"
  have ex: "2 ^ 52 * pow2 ?e \<le> x" using binary_exponent_le [OF assms] pow2_add_nat [of ?e 52] by simp
  have nz: "pow2 ?e \<noteq> 0" using pow2_pos [of ?e] by linarith
  have "(x / pow2 ?e - 1/2) * pow2 ?e \<le> of_int (round_even (x / pow2 ?e)) * pow2 ?e"
    by (intro mult_right_mono round_even_ge) (simp add: less_imp_le)
  moreover have "(x / pow2 ?e - 1/2) * pow2 ?e = x - pow2 ?e / 2" using nz by (simp add: left_diff_distrib)
  ultimately show ?thesis using assms ex by (simp add: to_double_def Let_def)
qed

lemma p99_index_exact:
  assumes "0 < n" and "n \<le> 2 ^ 44"
  shows "p99_index n = \<lceil>99 * of_nat n / 100 :: rat\<rceil> - 1"
proof -
  define N :: rat where "N = of_nat n"
  define y where "y = 8917127262193582 / 2 ^ 53 * N"
  have N: "1 \<le> N" "N \<le> 2 ^ 44" using assms by (simp_all add: N_def flip: of_nat_le_iff)
  have "to_double N = N" using to_double_int [of "int n"] assms by (simp add: N_def)
  then have idx: "p99_index n = \<lceil>to_double y\<rceil> - 1" by (simp add: p99_index_def to_double_99 y_def N_def)
  let ?m = "\<lceil>99 * N / 100\<rceil>"
  have y: "y = 99 * N / 100 - 2 * N / (25 * 2 ^ 53)" by (simp add: y_def)
  have pos: "0 < y" "y < 2 ^ 53" using N by (simp_all add: y_def)
  have "y \<le> 99 * N / 100" using N y by simp
  also have "\<dots> \<le> of_int ?m" by (rule le_of_int_ceiling)
  finally have up: "to_double y \<le> of_int ?m" by (rule to_double_le_int [OF pos])
  have "of_int (100 * (?m - 1)) < (of_int (99 * int n) :: rat)"
    using ceiling_correct [of "99 * N / 100"] by (simp add: N_def)
  then have "100 * (?m - 1) + 1 \<le> 99 * int n" by (simp only: of_int_less_iff)
  then have "of_int (100 * (?m - 1) + 1) \<le> (of_int (99 * int n) :: rat)" by (simp only: of_int_le_iff)
  then have "of_int ?m - 1 + 1 / 100 \<le> 99 * N / 100" by (simp add: N_def)
  also have "\<dots> < y - y / 2 ^ 53 + 1 / 100" using N unfolding y by simp
  finally have "of_int ?m - 1 < to_double y" using to_double_ge [OF pos(1)] by linarith
  with up have "\<lceil>to_double y\<rceil> = ?m" by (simp add: ceiling_eq_iff)
  then show ?thesis using idx by (simp add: N_def)
qed


section \<open>The 99th percentile\<close>

lemma length_filter_sort: "length (filter P (sort xs)) = length (filter P xs)" for xs :: "int list"
  by (simp add: filter_sort)

lemma sorted_ranks:
  assumes "sorted xs" and "i < length xs"
  shows "i + 1 \<le> length (filter (\<lambda>x. x \<le> xs ! i) xs)" and "length (filter (\<lambda>x. x < xs ! i) xs) \<le> i"
proof -
  let ?a = "take (Suc i) xs" and ?b = "take i xs" and ?c = "drop i xs"
  have "\<forall>x \<in> set ?a. x \<le> xs ! i"
    using assms(2) sorted_nth_mono [OF assms(1)] by (auto simp: in_set_conv_nth less_Suc_eq_le)
  then have "filter (\<lambda>x. x \<le> xs ! i) ?a = ?a" by simp
  then have "length ?a \<le> length (filter (\<lambda>x. x \<le> xs ! i) (?a @ drop (Suc i) xs))" by (simp del: append_take_drop_id)
  then show "i + 1 \<le> length (filter (\<lambda>x. x \<le> xs ! i) xs)" using assms(2) by simp
  have "\<forall>x \<in> set ?c. \<not> x < xs ! i"
    using assms(2) sorted_nth_mono [OF assms(1)] by (auto simp: in_set_conv_nth not_less)
  then have "filter (\<lambda>x. x < xs ! i) ?c = []" by (simp add: filter_empty_conv)
  then have "length (filter (\<lambda>x. x < xs ! i) (?b @ ?c)) \<le> i"
    using length_filter_le [of "\<lambda>x. x < xs ! i" ?b] assms(2) by (simp del: append_take_drop_id)
  then show "length (filter (\<lambda>x. x < xs ! i) xs) \<le> i" by simp
qed

text \<open>
  The reported 99th percentile is one of the samples, and the rounding of the product does not
  move its rank: at least 99 in 100 samples are at most that large and fewer are smaller.
\<close>

lemma p99_is_percentile:
  assumes "samples \<noteq> []" and "length samples \<le> 2 ^ 44"
  shows "\<exists>s \<in> set samples. p99_ns samples = Some (to_double (of_int s)) \<and>
    99 * length samples \<le> 100 * length (filter (\<lambda>x. x \<le> s) samples) \<and>
    100 * length (filter (\<lambda>x. x < s) samples) < 99 * length samples"
proof -
  let ?n = "length samples"
  define i where "i = nat (p99_index ?n)"
  have n: "0 < ?n" using assms(1) by simp
  note idx = p99_index_exact [OF n assms(2)]
  have c: "99 * of_nat ?n / 100 \<le> (of_int (p99_index ?n) + 1 :: rat)" "of_int (p99_index ?n) < (99 * of_nat ?n / 100 :: rat)"
    using ceiling_correct [of "99 * of_nat ?n / 100 :: rat"] unfolding idx by simp_all
  have "(of_int (99 * int ?n) :: rat) \<le> of_int (100 * (p99_index ?n + 1))" using c(1) by simp
  then have lo: "99 * int ?n \<le> 100 * (p99_index ?n + 1)" by (simp only: of_int_le_iff)
  have "(of_int (100 * p99_index ?n) :: rat) < of_int (99 * int ?n)" using c(2) by simp
  then have hi: "100 * p99_index ?n < 99 * int ?n" by (simp only: of_int_less_iff)
  have p: "0 \<le> p99_index ?n"
  proof (rule ccontr)
    assume "\<not> 0 \<le> p99_index ?n"
    then have "100 * (p99_index ?n + 1) \<le> 0" by simp
    with lo have "99 * int ?n \<le> 0" by (rule order_trans)
    then show False using n by simp
  qed
  then have i: "int i = p99_index ?n" "i < ?n" using hi by (simp_all add: i_def nat_less_iff)
  have "int (99 * ?n) \<le> int (100 * (i + 1))" "int (100 * i) < int (99 * ?n)" using lo hi i(1) by simp_all
  then have b: "99 * ?n \<le> 100 * (i + 1)" "100 * i < 99 * ?n" by (simp_all only: of_nat_le_iff of_nat_less_iff)
  have r: "i + 1 \<le> length (filter (\<lambda>x. x \<le> sort samples ! i) samples)" "length (filter (\<lambda>x. x < sort samples ! i) samples) \<le> i"
    using sorted_ranks [of "sort samples" i] i(2) by (simp_all add: length_filter_sort)
  have "sort samples ! i \<in> set samples" using nth_mem [of i "sort samples"] i(2) by simp
  moreover have "p99_ns samples = Some (to_double (of_int (sort samples ! i)))" using assms(1) p i(2) by (simp add: p99_ns_def i_def Let_def)
  moreover have "99 * ?n \<le> 100 * length (filter (\<lambda>x. x \<le> sort samples ! i) samples)" by (rule order_trans [OF b(1) mult_le_mono2 [OF r(1)]])
  moreover have "100 * length (filter (\<lambda>x. x < sort samples ! i) samples) < 99 * ?n" by (rule le_less_trans [OF mult_le_mono2 [OF r(2)] b(2)])
  ultimately show ?thesis by blast
qed

end
