(* ===== verification/Spec2Isabelle.thy ===== *)
theory Spec2Isabelle
  imports Engine_Accounting Risk_Engine Spsc_Ring Cli Exchange_Server Market_Data Fix_Session Strategy_Sessions Workload Latency
begin

text \<open>
  \<^bold>\<open>MiniExchange: a verification library.\<close>

  MiniExchange is a single-symbol exchange in C++. An engine matches orders by price and time
  over a book of intrusive lists in a fixed pool; a risk decorator checks orders before it.
  Clients reach it from a console, over TCP with a text or a binary protocol, or as FIX
  sessions; strategies call it in process. The server has an I/O thread and an engine thread
  joined by two lock-free rings, and a market data feed is published over UDP.

  \<^bold>\<open>Conventions.\<close> Classes are records, enumerations and variants are datatypes, machine integers
  are words of their width. An operation returns an \<open>option\<close> where C++ can leave its defined
  behaviour or not return: \<open>None\<close> is a bad dereference, a signed overflow or an access outside a
  buffer. Errors that the code reports are values. \<open>std::map\<close> is a sorted association list;
  \<open>double\<close> is a rational with the rounding of each operation written out.

  \<^bold>\<open>Core, book and engine\<close> (\<^verbatim>\<open>src/core\<close>, \<^verbatim>\<open>src/orderbook\<close>, \<^verbatim>\<open>src/engine\<close>, \<^verbatim>\<open>src/interfaces\<close>).
  \<open>Prelude\<close> has the shared facts, \<open>Core_Types\<close> the value types, \<open>Order_Pool\<close> the slab and its free
  list, \<open>Price_Level\<close> the doubly linked queue over that store, \<open>Ordered_Map\<close> the part of \<open>std::map\<close>
  in use, \<open>Order_Book\<close> the trees and the id index, \<open>Matching_Engine\<close> the operations of
  \<^verbatim>\<open>matching_engine.cpp\<close>. \<open>Engine_Spec\<close> is an abstract exchange on two priority lists;
  \<open>Spec_Invariant\<close> and \<open>Spec_Trades\<close> hold its theory, \<open>Resting_Index\<close> the self-trade index, and
  \<open>Engine_Refinement\<close> shows that \<open>submit\<close> and \<open>cancel\<close> implement it. From this follow totality,
  the refinement itself, an uncrossed book, conservation of quantity, price-time priority,
  self-trade prevention (\<open>Engine_Properties\<close>), and the accounting of pool, levels, watermarks and
  trade numbers (\<open>Engine_Accounting\<close>). The argument \<open>freed_node\<close> says what a read of an erased map
  node does: with \<open>Retained\<close> it still sees the node, with \<open>Trap\<close> it has no result. The sweep does
  read such a node, which is a theorem; the results on the engine are for \<open>Retained\<close>.

  \<^bold>\<open>Risk\<close> (\<^verbatim>\<open>src/risk\<close>). \<open>Risk_Engine\<close> has the checks and the decorator over any engine that meets
  the locale \<open>engine_api\<close>, which the matching engine does: the decision is the documented one,
  rejections leave no trace, the stack answers, and the band check can overflow.

  \<^bold>\<open>Queues\<close> (\<^verbatim>\<open>src/lockfree_queue\<close>, \<^verbatim>\<open>src/apps/benchmark/mutex_queue.hpp\<close>). \<open>Spsc_Ring\<close> has the ring
  sequentially and as a step relation of its two threads: first in first out and free of races
  under every interleaving, up to the wrap of the 64-bit indices.

  \<^bold>\<open>Protocols\<close> (\<^verbatim>\<open>src/adapters\<close>, \<^verbatim>\<open>src/apps/cli\<close>). \<open>Text_Protocol\<close>, \<open>Byte_Order\<close>, \<open>Binary_Codec\<close> and
  \<open>Gateway_Codec\<close> have the parsers and printers with their round trips and the agreement of the
  two protocols; \<open>Cli\<close> the console session; \<open>Fix_Message\<close> the FIX envelope, where a framed body
  passes the validator, and \<open>Fix_Session\<close> the FIX session, where the quantities and the status
  of a report agree with what the engine did (locale \<open>fills_api\<close>).

  \<^bold>\<open>Servers\<close> (\<^verbatim>\<open>src/adapters/tcp\<close>, \<^verbatim>\<open>src/apps/exchange_server\<close>). \<open>Tcp_Server\<close> has the connections,
  with the answers of the kernel as arguments: a handler that records its frames is given the
  payloads that were framed, responses are kept in order, and a handler that meets the locale
  \<open>frame_handler\<close> keeps its invariant and the connection table in order through a read. \<open>Exchange_Server\<close> has the two
  threads as interleaved turns: commands are answered once and in order, no wakeup is lost, and
  with room in the outbound ring waiting commands can be answered; and a deadlock and a use of a destroyed connection.

  \<^bold>\<open>Market data\<close> (\<^verbatim>\<open>src/adapters/udp\<close>). \<open>Feed_Messages\<close>, \<open>Feed\<close> and \<open>Market_Data\<close> have the messages as
  bytes, the publisher, the subscriber's book builder and the queue before the publisher: a
  subscriber that is not stale has a view the publisher had, the queue changes nothing but the
  counted drops, and the published view can differ from the book.

  \<^bold>\<open>Strategies and tools\<close> (\<^verbatim>\<open>src/strategy\<close>, \<^verbatim>\<open>src/apps/strategy_runner\<close>,
  \<^verbatim>\<open>src/tools/workload_generator\<close>, \<^verbatim>\<open>src/apps/benchmark/latency_recorder.cpp\<close>). \<open>Strategies\<close> has both
  strategies and the runner, \<open>Strategy_Sessions\<close> the maker over a \<open>quote_port\<close>: alone it never
  trades, and it can lose track of a quote. \<open>Workload\<close> shows that generated flow is plausible,
  \<open>Latency\<close> that the floating-point rank of the 99th percentile is the exact one.

  \<^bold>\<open>Bounds.\<close> There is no fuel. Most loops recurse on their data. The two loops of the sweep and
  the loop over the frames of a connection may run forever from a broken state, so they are
  partial functions whose value \<open>None\<close> includes not returning. The sweep is proved to return in
  every reachable state; the frame loop on complete frames within the size limit, for handlers
  that leave the connections alone (for one that erases its own connection there is no result,
  which is a theorem of \<open>Exchange_Server\<close>). The settling loop of the runner counts down the 1000 iterations the code allows. Numeric hypotheses keep
  counters below their wrap: a pool below \<open>2 ^ 32\<close> slots (the width of a slot index), fewer than
  \<open>2 ^ 64\<close> ring operations and generated events, \<open>2 ^ 62\<close> ticks, \<open>2 ^ 44\<close> latency samples. The
  FIX results ask for a body below \<open>2 ^ 63\<close> bytes and a year before 10000, so that the length and
  the time stamp keep their form.

  \<^bold>\<open>Not modelled.\<close> Creating and configuring sockets, threads, signal masks and files, which are
  system calls only; what they answer is an argument where the code depends on it. The clock,
  \<open>gmtime_r\<close> and the random distributions are arguments. The weak memory model: acquire and
  release on single-writer indices is the interleaving of the atomic steps. \<^verbatim>\<open>JsonCodec\<close>, whose
  data type is a third-party library. The benchmark programs and \<^verbatim>\<open>results_writer.cpp\<close>, which
  measure time and print it.
\<close>

end
